(* ===== verification/Prelude.thy ===== *)
theory Prelude
  imports Main "HOL-Library.Word" "HOL-Library.Monad_Syntax" "HOL-Library.Sublist"
begin

text \<open>
  Shared vocabulary of the development: bytes, the three-valued Rust \<open>Ordering\<close>, the panicking
  primitives on slices, and the generic list lemmas the components share.

  A Rust computation that may panic (a failed \<open>assert!\<close>, an index or a slice out of range, an
  \<open>unwrap\<close> of nothing, an arithmetic underflow of \<open>usize\<close>) is a value of type \<open>'a run\<close>, which is
  \<open>'a option\<close>: \<open>None\<close> is the panic and \<open>Some x\<close> the normal return of \<open>x\<close>. A \<open>Result<T>\<close> is a sum
  \<open>status + 'a\<close> (theory Errors), an \<open>Option<T>\<close> an option; a function that returns an \<open>Option\<close> and
  may panic has the type \<open>'a option run\<close>.

  \<open>usize\<close> values are natural numbers: they are lengths and offsets of byte strings in memory, and
  every access is range-checked; a sum of lengths does not reach the width of \<open>usize\<close>, a difference
  below zero is a panic (\<open>usub\<close>). \<open>u8\<close>, \<open>u16\<close>, \<open>u32\<close> and \<open>u64\<close> values are words of their width, whose
  sums wrap around as they do in a release build.
\<close>

unbundle bit_operations_syntax

type_synonym byte = "8 word"
type_synonym bytes = "byte list"
type_synonym u16 = "16 word"
type_synonym u32 = "32 word"
type_synonym u64 = "64 word"
type_synonym 'a run = "'a option"

named_theorems run_simps "evaluation rules of the panicking primitives"
named_theorems codec_simps "round trips of the byte codecs"


section \<open>Ordering\<close>

datatype ordering = Less | Equal | Greater

fun ordering_rank :: "ordering \<Rightarrow> nat" where
  "ordering_rank Less = 0"
| "ordering_rank Equal = 1"
| "ordering_rank Greater = 2"

fun flip_ordering :: "ordering \<Rightarrow> ordering" where
  "flip_ordering Less = Greater"
| "flip_ordering Equal = Equal"
| "flip_ordering Greater = Less"

text \<open>Rust derives \<open>Less < Equal < Greater\<close>; the code uses it, as in \<open>cmp(a, b) <= Ordering::Equal\<close>.\<close>

instantiation ordering :: linorder
begin

definition less_eq_ordering :: "ordering \<Rightarrow> ordering \<Rightarrow> bool" where
  "less_eq_ordering a b \<longleftrightarrow> ordering_rank a \<le> ordering_rank b"

definition less_ordering :: "ordering \<Rightarrow> ordering \<Rightarrow> bool" where
  "less_ordering a b \<longleftrightarrow> ordering_rank a < ordering_rank b"

instance
proof
  fix a b c :: ordering
  show "(a < b) = (a \<le> b \<and> \<not> b \<le> a)" by (auto simp: less_eq_ordering_def less_ordering_def)
  show "a \<le> a" by (simp add: less_eq_ordering_def)
  show "a \<le> b \<Longrightarrow> b \<le> c \<Longrightarrow> a \<le> c" by (simp add: less_eq_ordering_def)
  show "a \<le> b \<Longrightarrow> b \<le> a \<Longrightarrow> a = b" by (cases a; cases b) (auto simp: less_eq_ordering_def)
  show "a \<le> b \<or> b \<le> a" by (auto simp: less_eq_ordering_def)
qed

end

text \<open>The comparison of two values of a totally ordered type, as \<open>Ord::cmp\<close> computes it.\<close>

definition ord_cmp :: "'a::linorder \<Rightarrow> 'a \<Rightarrow> ordering" where
  "ord_cmp a b = (if a < b then Less else if a = b then Equal else Greater)"


section \<open>Panicking primitives\<close>

definition ensure :: "bool \<Rightarrow> unit run" where
  "ensure b = (if b then Some () else None)"

text \<open>\<open>&xs[i..j]\<close>, \<open>&xs[i..]\<close>, \<open>&xs[..j]\<close> and \<open>xs[i]\<close>.\<close>

definition slice_range :: "nat \<Rightarrow> nat \<Rightarrow> 'a list \<Rightarrow> 'a list run" where
  "slice_range i j xs = (if i \<le> j \<and> j \<le> length xs then Some (take (j - i) (drop i xs)) else None)"

definition slice_from :: "nat \<Rightarrow> 'a list \<Rightarrow> 'a list run" where
  "slice_from i xs = (if i \<le> length xs then Some (drop i xs) else None)"

definition index :: "'a list \<Rightarrow> nat \<Rightarrow> 'a run" where
  "index xs i = (if i < length xs then Some (xs ! i) else None)"

text \<open>\<open>a - b\<close> on \<open>usize\<close>.\<close>

definition usub :: "nat \<Rightarrow> nat \<Rightarrow> nat run" where
  "usub a b = (if b \<le> a then Some (a - b) else None)"

text \<open>\<open>Vec::resize\<close> and the copy of a byte string over the start of a mutable slice.\<close>

definition resize :: "nat \<Rightarrow> 'a \<Rightarrow> 'a list \<Rightarrow> 'a list" where
  "resize n x xs = take n xs @ replicate (n - length xs) x"

definition overwrite :: "nat \<Rightarrow> 'a list \<Rightarrow> 'a list \<Rightarrow> 'a list" where
  "overwrite i src xs = take i xs @ src @ drop (i + length src) xs"

text \<open>
  A writer over a mutable slice of \<open>n\<close> zero bytes, filled by successive \<open>write_all\<close> calls whose
  result is \<open>expect\<close>ed: it panics when the parts do not fit, and leaves the unwritten end zero.
\<close>

definition write_parts :: "nat \<Rightarrow> bytes list \<Rightarrow> bytes run" where
  "write_parts n parts =
     (let w = concat parts
      in if length w \<le> n then Some (w @ replicate (n - length w) 0) else None)"


section \<open>Lemmas\<close>

lemma ensure_simps [run_simps, simp]: "ensure True = Some ()" "ensure False = None"
  by (simp_all add: ensure_def)

lemma ensure_eq_Some [simp]: "ensure b = Some u \<longleftrightarrow> b"
  by (simp add: ensure_def)

lemma ensure_bind [simp]: "ensure b \<bind> f = (if b then f () else None)"
  by (simp add: ensure_def)

lemma slice_range_eq_Some:
  "slice_range i j xs = Some ys \<longleftrightarrow> i \<le> j \<and> j \<le> length xs \<and> ys = take (j - i) (drop i xs)"
  by (auto simp: slice_range_def)

lemma slice_from_eq_Some: "slice_from i xs = Some ys \<longleftrightarrow> i \<le> length xs \<and> ys = drop i xs"
  by (auto simp: slice_from_def)

lemma index_eq_Some: "index xs i = Some x \<longleftrightarrow> i < length xs \<and> x = xs ! i"
  by (auto simp: index_def)

lemma usub_eq_Some: "usub a b = Some c \<longleftrightarrow> b \<le> a \<and> c = a - b"
  by (auto simp: usub_def)

lemma slice_append_middle [run_simps]:
  "length xs = i \<Longrightarrow> i + length ys = j \<Longrightarrow> slice_range i j (xs @ ys @ zs) = Some ys"
  by (auto simp: slice_range_def)

lemma slice_append_end [run_simps]:
  "length xs = i \<Longrightarrow> i + length ys = j \<Longrightarrow> slice_range i j (xs @ ys) = Some ys"
  by (auto simp: slice_range_def)

lemma slice_prefix [run_simps]: "length xs = j \<Longrightarrow> slice_range 0 j (xs @ ys) = Some xs"
  by (auto simp: slice_range_def)

lemma slice_from_append [run_simps]: "length xs = i \<Longrightarrow> slice_from i (xs @ ys) = Some ys"
  by (auto simp: slice_from_def)

lemma slice_from_full [run_simps]: "slice_from (length xs) xs = Some []"
  by (simp add: slice_from_def)

lemma slice_from_0 [run_simps]: "slice_from 0 xs = Some xs"
  by (simp add: slice_from_def)

text \<open>Arrays of records of a fixed width.\<close>

lemma length_concat_fixed:
  "\<forall>x \<in> set xs. length (e x) = w \<Longrightarrow> length (concat (map e xs)) = w * length xs"
  by (induction xs) auto

lemma slice_fixed_width:
  assumes "\<forall>x \<in> set xs. length (e x) = w" "i < length xs"
  shows "slice_range (length pre + w * i) (length pre + w * i + w) (pre @ concat (map e xs) @ post) =
    Some (e (xs ! i))"
proof -
  let ?a = "concat (map e (take i xs))" and ?b = "concat (map e (drop (Suc i) xs))"
  have "length ?a = w * i"
    using assms length_concat_fixed [of "take i xs" e w] by (auto dest: in_set_takeD)
  moreover have "concat (map e xs) = ?a @ e (xs ! i) @ ?b"
    by (subst id_take_nth_drop [OF assms(2)]) simp
  ultimately show ?thesis
    using assms slice_append_middle [of "pre @ ?a" _ "e (xs ! i)" _ "?b @ post"] by simp
qed

lemma length_resize [simp]: "length (resize n x xs) = n"
  by (simp add: resize_def)

lemma length_overwrite [simp]:
  "i + length src \<le> length xs \<Longrightarrow> length (overwrite i src xs) = length xs"
  by (simp add: overwrite_def)

lemma write_parts_exact [run_simps]:
  "length (concat parts) = n \<Longrightarrow> write_parts n parts = Some (concat parts)"
  by (simp add: write_parts_def Let_def)

lemma ord_cmp_simps [simp]:
  "ord_cmp a b = Less \<longleftrightarrow> a < b" "ord_cmp a b = Equal \<longleftrightarrow> a = b" "ord_cmp a b = Greater \<longleftrightarrow> b < a"
  by (auto simp: ord_cmp_def)

lemma flip_ordering_eq [simp]:
  "flip_ordering a = Less \<longleftrightarrow> a = Greater" "flip_ordering a = Equal \<longleftrightarrow> a = Equal"
  "flip_ordering a = Greater \<longleftrightarrow> a = Less"
  by (cases a; simp)+

lemma flip_flip_ordering [simp]: "flip_ordering (flip_ordering a) = a"
  by (cases a) auto

lemma ordering_le_Equal [simp]: "(a \<le> Equal) \<longleftrightarrow> a \<noteq> Greater" "(Equal \<le> a) \<longleftrightarrow> a \<noteq> Less"
  "(a < Equal) \<longleftrightarrow> a = Less"
  by (cases a; simp add: less_eq_ordering_def less_ordering_def)+

lemma ord_cmp_flip: "flip_ordering (ord_cmp a b) = ord_cmp b a"
  by (auto simp: ord_cmp_def)

lemma unat_byte_inc:
  assumes "(b :: byte) \<noteq> 0xff"
  shows "unat (b + 1) = unat b + 1"
proof -
  have "unat b < 256" using unsigned_less [of b, where 'a = nat] by simp
  moreover have "unat b \<noteq> unat (0xff :: byte)"
    using assms by (simp only: word_eq_iff_unsigned [where 'a = nat] not_False_eq_True)
  ultimately show ?thesis by (simp add: unat_word_ariths)
qed

lemma byte_inc: "(b :: byte) \<noteq> 0xff \<Longrightarrow> b < b + 1"
  by (simp add: word_less_nat_alt unat_byte_inc)

end
