(* ===== verification/Errors.thy ===== *)
theory Errors
  imports Prelude
begin

text \<open>
  The error type of the library (\<open>src/src/error.rs\<close>): a status code with a message, and \<open>Result\<close> as
  a sum whose left injection is the error.
\<close>

datatype status_code =
    OK | AlreadyExists | Corruption | CompressionError | IOError | InvalidArgument | InvalidData
  | LockError | NotFound | NotSupported | PermissionDenied | AsyncError | Unknown | Errno int

record status =
  code :: status_code
  err_msg :: string

type_synonym 'a result = "status + 'a"

definition status_default :: status where
  "status_default = \<lparr>code = OK, err_msg = []\<rparr>"

text \<open>The \<open>Debug\<close> rendering of a code; the payload of \<open>Errno\<close> is rendered by the errno crate.\<close>

fun debug_code :: "(int \<Rightarrow> string) \<Rightarrow> status_code \<Rightarrow> string" where
  "debug_code f OK = ''OK''"
| "debug_code f AlreadyExists = ''AlreadyExists''"
| "debug_code f Corruption = ''Corruption''"
| "debug_code f CompressionError = ''CompressionError''"
| "debug_code f IOError = ''IOError''"
| "debug_code f InvalidArgument = ''InvalidArgument''"
| "debug_code f InvalidData = ''InvalidData''"
| "debug_code f LockError = ''LockError''"
| "debug_code f NotFound = ''NotFound''"
| "debug_code f NotSupported = ''NotSupported''"
| "debug_code f PermissionDenied = ''PermissionDenied''"
| "debug_code f AsyncError = ''AsyncError''"
| "debug_code f Unknown = ''Unknown''"
| "debug_code f (Errno n) = ''Errno('' @ f n @ '')''"

definition status_new :: "(int \<Rightarrow> string) \<Rightarrow> status_code \<Rightarrow> string \<Rightarrow> status" where
  "status_new f c msg =
     \<lparr>code = c, err_msg = (if msg = [] then debug_code f c else debug_code f c @ '': '' @ msg)\<rparr>"

definition annotate :: "status \<Rightarrow> string \<Rightarrow> status" where
  "annotate s msg = \<lparr>code = code s, err_msg = msg @ '': '' @ err_msg s\<rparr>"

text \<open>
  Everywhere but in the disk environment the code is one without payload, so the message does not
  depend on the rendering of \<open>Errno\<close>.
\<close>

definition err :: "status_code \<Rightarrow> string \<Rightarrow> 'a result" where
  "err c msg = Inl (status_new (\<lambda>_. []) c msg)"

datatype io_error_kind = IoNotFound | IoInvalidData | IoInvalidInput | IoPermissionDenied
  | IoUnexpectedEof | IoOther

fun io_code :: "io_error_kind \<Rightarrow> status_code" where
  "io_code IoNotFound = NotFound"
| "io_code IoInvalidData = Corruption"
| "io_code IoInvalidInput = InvalidArgument"
| "io_code IoPermissionDenied = PermissionDenied"
| "io_code IoUnexpectedEof = IOError"
| "io_code IoOther = IOError"

definition status_of_io :: "io_error_kind \<Rightarrow> string \<Rightarrow> status" where
  "status_of_io k msg = status_new (\<lambda>_. []) (io_code k) msg"

fun is_ok :: "'a result \<Rightarrow> bool" where
  "is_ok (Inl e) = False"
| "is_ok (Inr x) = True"

text \<open>The \<open>?\<close> operator on a \<open>Result\<close> inside a computation that may also panic.\<close>

definition try_res :: "'a result \<Rightarrow> ('a \<Rightarrow> 'b result run) \<Rightarrow> 'b result run" where
  "try_res r f = (case r of Inl e \<Rightarrow> Some (Inl e) | Inr x \<Rightarrow> f x)"

lemma try_res_simps [simp, run_simps]: "try_res (Inl e) f = Some (Inl e)" "try_res (Inr x) f = f x"
  by (simp_all add: try_res_def)

lemma err_code: "err c msg = Inl e \<Longrightarrow> code e = c"
  by (auto simp: err_def status_new_def)

lemma err_not_ok [simp]: "err c msg \<noteq> Inr x" "\<not> is_ok (err c msg)"
  by (simp_all add: err_def)

lemma annotate_code [simp]: "code (annotate s m) = code s"
  by (simp add: annotate_def)

end
