(* ===== verification/Integer_Encoding.thy ===== *)
theory Integer_Encoding
  imports Prelude
begin

text \<open>
  The \<open>integer_encoding\<close> crate is not part of the repository, so it is a parameter of the model: a
  record of the functions the sources call. What the sources rely on are the documented laws of
  the crate, collected in the locale \<open>integer_encoding\<close>: variable-length integers decode to what was
  encoded and say how many bytes they took, and fixed-width integers have their width, decode to
  what was encoded and are zero when all their bytes are.

  The second half of the theory is the documented wire format itself, LEB128 and little-endian
  words, as executable functions. They satisfy the laws, so that every property with the
  hypothesis \<open>integer_encoding ie\<close> can be instantiated.
\<close>

record int_codec =
  encode_var :: "nat \<Rightarrow> bytes"
  decode_var :: "bytes \<Rightarrow> (nat \<times> nat) option"
  required_space :: "nat \<Rightarrow> nat"
  read_varint :: "bytes \<Rightarrow> (nat \<times> bytes) option"
  read_varint32 :: "bytes \<Rightarrow> (u32 \<times> bytes) option"
  encode_fixed16 :: "u16 \<Rightarrow> bytes"
  decode_fixed16 :: "bytes \<Rightarrow> u16"
  encode_fixed32 :: "u32 \<Rightarrow> bytes"
  decode_fixed32 :: "bytes \<Rightarrow> u32"
  encode_fixed64 :: "u64 \<Rightarrow> bytes"
  decode_fixed64 :: "bytes \<Rightarrow> u64"

text \<open>
  \<open>decode_var\<close> returns the value and the number of bytes read; \<open>read_varint\<close> (on a byte slice as a
  reader) returns the value and the rest of the input, \<open>read_varint32\<close> a 32-bit value. All return \<open>None\<close> when the input ends
  inside a number.
\<close>

locale integer_encoding =
  fixes ie :: int_codec
  assumes decode_encode_var:
      "n < 2 ^ 64 \<Longrightarrow> decode_var ie (encode_var ie n @ rest) = Some (n, length (encode_var ie n))"
    and decode_var_consumes: "decode_var ie bs = Some (n, k) \<Longrightarrow> 0 < k \<and> k \<le> length bs"
    and required_space_encode: "n < 2 ^ 64 \<Longrightarrow> required_space ie n = length (encode_var ie n)"
    and encode_var_bound: "0 < k \<Longrightarrow> n < 2 ^ (7 * k) \<Longrightarrow> length (encode_var ie n) \<le> k"
    and read_encode_varint: "n < 2 ^ 64 \<Longrightarrow> read_varint ie (encode_var ie n @ rest) = Some (n, rest)"
    and read_varint_consumes: "read_varint ie bs = Some (n, rest) \<Longrightarrow> length rest < length bs"
    and read_encode_varint32: "read_varint32 ie (encode_var ie (unat w) @ rest) = Some (w, rest)"
    and read_varint32_consumes: "read_varint32 ie bs = Some (w, rest) \<Longrightarrow> length rest < length bs"
    and length_encode_fixed:
      "length (encode_fixed16 ie h) = 2" "length (encode_fixed32 ie w) = 4"
      "length (encode_fixed64 ie x) = 8"
    and decode_encode_fixed:
      "decode_fixed16 ie (encode_fixed16 ie h) = h" "decode_fixed32 ie (encode_fixed32 ie w) = w"
      "decode_fixed64 ie (encode_fixed64 ie x) = x"
    and decode_fixed_zero: "decode_fixed32 ie (replicate 4 0) = 0"
begin

lemmas codec_laws = decode_encode_var required_space_encode read_encode_varint read_encode_varint32
  length_encode_fixed decode_encode_fixed decode_fixed_zero

lemma encode_var_nonempty: "n < 2 ^ 64 \<Longrightarrow> encode_var ie n \<noteq> []"
  using decode_encode_var [of n "[]"] decode_var_consumes [of "encode_var ie n" n]
  by fastforce

lemma encode_var_le_10: "n < 2 ^ 64 \<Longrightarrow> length (encode_var ie n) \<le> 10"
  by (rule encode_var_bound) (auto intro: less_le_trans)

lemma decode_var_Nil: "decode_var ie [] = None"
  using decode_var_consumes [of "[]"] by (cases "decode_var ie []") auto

lemma read_varint_Nil: "read_varint ie [] = None"
  using read_varint_consumes [of "[]"] by (cases "read_varint ie []") auto

lemma read_varint32_Nil: "read_varint32 ie [] = None"
  using read_varint32_consumes [of "[]"] by (cases "read_varint32 ie []") auto

end


section \<open>The documented wire format\<close>

fun leb128 :: "nat \<Rightarrow> bytes" where
  "leb128 n = (if n < 128 then [of_nat n] else of_nat (128 + n mod 128) # leb128 (n div 128))"

fun leb128_decode :: "bytes \<Rightarrow> (nat \<times> nat) option" where
  "leb128_decode [] = None"
| "leb128_decode (b # bs) =
     (if unat b < 128 then Some (unat b, 1)
      else case leb128_decode bs of None \<Rightarrow> None
           | Some (n, k) \<Rightarrow> Some (unat b - 128 + 128 * n, Suc k))"

definition leb128_read :: "bytes \<Rightarrow> (nat \<times> bytes) option" where
  "leb128_read bs = (case leb128_decode bs of None \<Rightarrow> None | Some (n, k) \<Rightarrow> Some (n, drop k bs))"

definition leb128_read32 :: "bytes \<Rightarrow> (u32 \<times> bytes) option" where
  "leb128_read32 bs = map_option (map_prod of_nat id) (leb128_read bs)"

fun little_endian :: "nat \<Rightarrow> nat \<Rightarrow> bytes" where
  "little_endian 0 n = []"
| "little_endian (Suc k) n = of_nat (n mod 256) # little_endian k (n div 256)"

fun little_endian_decode :: "bytes \<Rightarrow> nat" where
  "little_endian_decode [] = 0"
| "little_endian_decode (b # bs) = unat b + 256 * little_endian_decode bs"

definition wire_codec :: int_codec where
  "wire_codec = \<lparr>
     encode_var = leb128, decode_var = leb128_decode, required_space = (\<lambda>n. length (leb128 n)),
     read_varint = leb128_read, read_varint32 = leb128_read32,
     encode_fixed16 = (\<lambda>w. little_endian 2 (unat w)),
     decode_fixed16 = (\<lambda>bs. of_nat (little_endian_decode bs)),
     encode_fixed32 = (\<lambda>w. little_endian 4 (unat w)),
     decode_fixed32 = (\<lambda>bs. of_nat (little_endian_decode bs)),
     encode_fixed64 = (\<lambda>w. little_endian 8 (unat w)),
     decode_fixed64 = (\<lambda>bs. of_nat (little_endian_decode bs))\<rparr>"

declare leb128.simps [simp del]

lemma unat_byte: "n < 256 \<Longrightarrow> unat (of_nat n :: byte) = n"
  by (simp add: unat_of_nat)

lemma leb128_decode_encode:
  "leb128_decode (leb128 n @ rest) = Some (n, length (leb128 n))"
proof (induction n rule: leb128.induct)
  case (1 n)
  show ?case
  proof (cases "n < 128")
    case True
    then show ?thesis by (simp add: leb128.simps [of n] unat_byte)
  next
    case False
    have "unat (of_nat (128 + n mod 128) :: byte) = 128 + n mod 128"
      by (rule unat_byte) (use mod_less_divisor [of 128 n] in arith)
    with False "1.IH" show ?thesis
      by (simp add: leb128.simps [of n])
  qed
qed

lemma leb128_decode_consumes: "leb128_decode bs = Some (n, k) \<Longrightarrow> 0 < k \<and> k \<le> length bs"
  by (induction bs arbitrary: n k) (auto split: if_splits option.splits)

lemma leb128_length: "n < 2 ^ (7 * Suc k) \<Longrightarrow> length (leb128 n) \<le> Suc k"
proof (induction k arbitrary: n)
  case 0
  then show ?case by (simp add: leb128.simps [of n])
next
  case (Suc k)
  have "n div 128 < 2 ^ (7 * Suc k)"
    using Suc.prems by (simp add: less_mult_imp_div_less power_add)
  then show ?case
    using Suc.IH by (simp add: leb128.simps [of n])
qed

lemma little_endian_length [simp]: "length (little_endian k n) = k"
  by (induction k arbitrary: n) auto

lemma little_endian_decode_encode:
  "n < 256 ^ k \<Longrightarrow> little_endian_decode (little_endian k n) = n"
proof (induction k arbitrary: n)
  case (Suc k)
  have "n div 256 < 256 ^ k"
    using Suc.prems by (simp add: less_mult_imp_div_less mult.commute)
  then show ?case
    using Suc.IH by (simp add: unat_byte)
qed simp

lemma little_endian_words:
  "little_endian_decode (little_endian 2 (unat (h :: u16))) = unat h"
  "little_endian_decode (little_endian 4 (unat (w :: u32))) = unat w"
  "little_endian_decode (little_endian 8 (unat (x :: u64))) = unat x"
  using unsigned_less [of h, where 'a = nat] unsigned_less [of w, where 'a = nat]
    unsigned_less [of x, where 'a = nat]
  by (auto intro!: little_endian_decode_encode)

interpretation wire: integer_encoding wire_codec
proof
  fix n k and w :: u32 and bs rest :: bytes
  show "decode_var wire_codec (encode_var wire_codec n @ rest)
      = Some (n, length (encode_var wire_codec n))"
    by (simp add: wire_codec_def leb128_decode_encode)
  show "decode_var wire_codec bs = Some (n, k) \<Longrightarrow> 0 < k \<and> k \<le> length bs"
    by (auto simp: wire_codec_def dest: leb128_decode_consumes)
  show "required_space wire_codec n = length (encode_var wire_codec n)"
    by (simp add: wire_codec_def)
  show "0 < k \<Longrightarrow> n < 2 ^ (7 * k) \<Longrightarrow> length (encode_var wire_codec n) \<le> k"
    using leb128_length [of n "k - 1"] by (simp add: wire_codec_def)
  show "read_varint wire_codec (encode_var wire_codec n @ rest) = Some (n, rest)"
    by (simp add: wire_codec_def leb128_read_def leb128_decode_encode)
  show "read_varint wire_codec bs = Some (n, rest) \<Longrightarrow> length rest < length bs"
    using leb128_decode_consumes [of bs]
    by (cases "leb128_decode bs") (auto simp: wire_codec_def leb128_read_def)
  show "read_varint32 wire_codec (encode_var wire_codec (unat w) @ rest) = Some (w, rest)"
    by (simp add: wire_codec_def leb128_read32_def leb128_read_def leb128_decode_encode)
  show "read_varint32 wire_codec bs = Some (w, rest) \<Longrightarrow> length rest < length bs"
    using leb128_decode_consumes [of bs]
    by (cases "leb128_decode bs") (auto simp: wire_codec_def leb128_read32_def leb128_read_def)
  have "little_endian_decode (replicate 4 0) = 0"
    by (simp add: numeral_eq_Suc)
  then show "decode_fixed32 wire_codec (replicate 4 0) = 0"
    by (simp add: wire_codec_def)
qed (simp_all add: wire_codec_def little_endian_words)

lemmas wire_codec_simps = wire_codec_def int_codec.simps

end
