(* ===== verification/Comparator.thy ===== *)
theory Comparator
  imports Prelude
begin

text \<open>
  The \<open>Cmp\<close> trait (\<open>src/src/cmp.rs\<close>) as a record of functions, the order laws a comparator promises
  as the locale \<open>cmp_order\<close>, and the default byte-wise comparator.

  A comparator may panic on byte strings it does not understand (an internal key shorter than its
  tag), so its result is a \<open>run\<close>, and the laws are relative to a set of keys it is made for.
\<close>

record comparator =
  cmp :: "bytes \<Rightarrow> bytes \<Rightarrow> ordering run"
  find_shortest_sep :: "bytes \<Rightarrow> bytes \<Rightarrow> bytes run"
  find_short_succ :: "bytes \<Rightarrow> bytes run"
  cmp_id :: string

definition cmp_lt :: "('k \<Rightarrow> 'k \<Rightarrow> ordering run) \<Rightarrow> 'k \<Rightarrow> 'k \<Rightarrow> bool" where
  "cmp_lt cm a b \<longleftrightarrow> cm a b = Some Less"

definition cmp_le :: "('k \<Rightarrow> 'k \<Rightarrow> ordering run) \<Rightarrow> 'k \<Rightarrow> 'k \<Rightarrow> bool" where
  "cmp_le cm a b \<longleftrightarrow> cm a b = Some Less \<or> cm a b = Some Equal"

definition cmp_eq :: "('k \<Rightarrow> 'k \<Rightarrow> ordering run) \<Rightarrow> 'k \<Rightarrow> 'k \<Rightarrow> bool" where
  "cmp_eq cm a b \<longleftrightarrow> cm a b = Some Equal"

locale cmp_order =
  fixes cm :: "'k \<Rightarrow> 'k \<Rightarrow> ordering run" and K :: "'k set"
  assumes cmp_total: "a \<in> K \<Longrightarrow> b \<in> K \<Longrightarrow> \<exists>r. cm a b = Some r"
    and cmp_flip: "a \<in> K \<Longrightarrow> b \<in> K \<Longrightarrow> cm b a = map_option flip_ordering (cm a b)"
    and cmp_less_trans:
      "a \<in> K \<Longrightarrow> b \<in> K \<Longrightarrow> c \<in> K \<Longrightarrow> cm a b = Some Less \<Longrightarrow> cm b c = Some Less \<Longrightarrow> cm a c = Some Less"
    and cmp_equal_cong: "a \<in> K \<Longrightarrow> b \<in> K \<Longrightarrow> c \<in> K \<Longrightarrow> cm a b = Some Equal \<Longrightarrow> cm a c = cm b c"
    and cmp_refl: "a \<in> K \<Longrightarrow> cm a a = Some Equal"
begin

lemma lt_irrefl: "a \<in> K \<Longrightarrow> \<not> cmp_lt cm a a"
  using cmp_refl by (simp add: cmp_lt_def)

lemma le_refl: "a \<in> K \<Longrightarrow> cmp_le cm a a"
  using cmp_refl by (simp add: cmp_le_def)

lemma lt_imp_le: "cmp_lt cm a b \<Longrightarrow> cmp_le cm a b"
  by (simp add: cmp_lt_def cmp_le_def)

lemma flipI: "a \<in> K \<Longrightarrow> b \<in> K \<Longrightarrow> cm a b = Some r \<Longrightarrow> cm b a = Some (flip_ordering r)"
  using cmp_flip [of a b] by simp

lemma not_lt:
  assumes "a \<in> K" "b \<in> K"
  shows "\<not> cmp_lt cm a b \<longleftrightarrow> cmp_le cm b a"
proof -
  obtain r where r: "cm a b = Some r" using cmp_total [OF assms] by blast
  have "cm b a = Some (flip_ordering r)" by (rule flipI [OF assms r])
  with r show ?thesis by (cases r) (simp_all add: cmp_lt_def cmp_le_def)
qed

lemma Greater_iff:
  assumes "a \<in> K" "b \<in> K"
  shows "cm a b = Some Greater \<longleftrightarrow> cmp_lt cm b a"
proof -
  obtain r where r: "cm a b = Some r" using cmp_total [OF assms] by blast
  have "cm b a = Some (flip_ordering r)" by (rule flipI [OF assms r])
  with r show ?thesis by (cases r) (simp_all add: cmp_lt_def)
qed

lemma lt_trans: "a \<in> K \<Longrightarrow> b \<in> K \<Longrightarrow> c \<in> K \<Longrightarrow> cmp_lt cm a b \<Longrightarrow> cmp_lt cm b c \<Longrightarrow> cmp_lt cm a c"
  unfolding cmp_lt_def by (rule cmp_less_trans)

lemma eq_lt_trans:
  assumes "a \<in> K" "b \<in> K" "c \<in> K" "cmp_eq cm a b" "cmp_lt cm b c"
  shows "cmp_lt cm a c"
  using cmp_equal_cong [of a b c] assms by (simp add: cmp_lt_def cmp_eq_def)

lemma lt_eq_trans:
  assumes "a \<in> K" "b \<in> K" "c \<in> K" "cmp_lt cm a b" "cmp_eq cm b c"
  shows "cmp_lt cm a c"
proof -
  have "cm b a = Some Greater"
    using flipI [of a b Less] assms by (simp add: cmp_lt_def)
  then have "cm c a = Some Greater"
    using cmp_equal_cong [of b c a] assms by (simp add: cmp_eq_def)
  then show ?thesis
    using flipI [of c a Greater] assms by (simp add: cmp_lt_def)
qed

lemma le_cases: "cmp_le cm a b \<longleftrightarrow> cmp_lt cm a b \<or> cmp_eq cm a b"
  by (simp add: cmp_le_def cmp_lt_def cmp_eq_def)

lemma le_lt_trans: "a \<in> K \<Longrightarrow> b \<in> K \<Longrightarrow> c \<in> K \<Longrightarrow> cmp_le cm a b \<Longrightarrow> cmp_lt cm b c \<Longrightarrow> cmp_lt cm a c"
  unfolding le_cases using lt_trans [of a b c] eq_lt_trans [of a b c] by blast

lemma lt_le_trans: "a \<in> K \<Longrightarrow> b \<in> K \<Longrightarrow> c \<in> K \<Longrightarrow> cmp_lt cm a b \<Longrightarrow> cmp_le cm b c \<Longrightarrow> cmp_lt cm a c"
  unfolding le_cases using lt_trans [of a b c] lt_eq_trans [of a b c] by blast

lemma le_trans: "a \<in> K \<Longrightarrow> b \<in> K \<Longrightarrow> c \<in> K \<Longrightarrow> cmp_le cm a b \<Longrightarrow> cmp_le cm b c \<Longrightarrow> cmp_le cm a c"
  using le_lt_trans [of b c a] not_lt [of c a] not_lt [of b a] not_lt [of c b] lt_le_trans [of c a b]
  by blast

lemma lt_not_le: "a \<in> K \<Longrightarrow> b \<in> K \<Longrightarrow> cmp_lt cm a b \<Longrightarrow> \<not> cmp_le cm b a"
  using not_lt by blast

lemma cmp_Some_iff:
  assumes "a \<in> K" "b \<in> K" "cm a b = Some r"
  shows "r = Less \<longleftrightarrow> cmp_lt cm a b" "r = Equal \<longleftrightarrow> cmp_eq cm a b" "r = Greater \<longleftrightarrow> cmp_lt cm b a"
  using assms(3) Greater_iff [OF assms(1,2)] by (auto simp: cmp_lt_def cmp_eq_def)

end


section \<open>The default comparator\<close>

text \<open>\<open>a.cmp(b)\<close> on byte slices: lexicographic, a proper prefix is smaller.\<close>

fun bytes_cmp :: "bytes \<Rightarrow> bytes \<Rightarrow> ordering" where
  "bytes_cmp [] [] = Equal"
| "bytes_cmp [] (y # ys) = Less"
| "bytes_cmp (x # xs) [] = Greater"
| "bytes_cmp (x # xs) (y # ys) = (if x < y then Less else if y < x then Greater else bytes_cmp xs ys)"

text \<open>\<open>DefaultCmp::find_shortest_sep\<close>: its two loops over \<open>diff_at\<close>, its backward scan, its body.\<close>

function sep_diff_at :: "bytes \<Rightarrow> bytes \<Rightarrow> nat \<Rightarrow> nat" where
  "sep_diff_at a b i =
     (if i < min (length a) (length b) \<and> a ! i = b ! i then sep_diff_at a b (i + 1) else i)"
  by pat_completeness auto
termination
  by (relation "measure (\<lambda>(a, b, i). length a - i)") auto

function sep_short :: "bytes \<Rightarrow> bytes \<Rightarrow> nat \<Rightarrow> bytes option run" where
  "sep_short a b i =
     (if i < min (length a) (length b) then
        let diff = a ! i in
        if diff < 0xff \<and> diff + 1 < b ! i then
          let sep = (take (i + 1) a)[i := diff + 1] in
          do { ensure (bytes_cmp sep b = Less); Some (Some sep) }
        else sep_short a b (i + 1)
      else Some None)"
  by pat_completeness auto
termination
  by (relation "measure (\<lambda>(a, b, i). length a - i)") auto

fun last_non_ff :: "bytes \<Rightarrow> nat \<Rightarrow> nat" where
  "last_non_ff s i = (if 0 < i \<and> s ! i = 0xff then last_non_ff s (i - 1) else i)"

definition default_find_shortest_sep :: "bytes \<Rightarrow> bytes \<Rightarrow> bytes run" where
  "default_find_shortest_sep a b =
     (if a = b then Some a
      else do {
        short \<leftarrow> sep_short a b (sep_diff_at a b 0);
        case short of
          Some sep \<Rightarrow> Some sep
        | None \<Rightarrow> do {
            n \<leftarrow> usub (length a) 1;
            let i = last_non_ff a n;
            let sep = a[i := a ! i + 1];
            if a ! i < 0xff \<and> bytes_cmp sep b = Less then Some sep else Some (a @ [0])
          }
      })"

function short_succ :: "bytes \<Rightarrow> nat \<Rightarrow> bytes" where
  "short_succ a i =
     (if i < length a then
        if a ! i \<noteq> 0xff then resize (i + 1) 0 (a[i := a ! i + 1]) else short_succ a (i + 1)
      else a @ [255])"
  by pat_completeness auto
termination
  by (relation "measure (\<lambda>(a, i). length a - i)") auto

definition default_find_short_succ :: "bytes \<Rightarrow> bytes" where
  "default_find_short_succ a = short_succ a 0"

definition DefaultCmp :: comparator where
  "DefaultCmp = \<lparr>
     cmp = (\<lambda>a b. Some (bytes_cmp a b)),
     find_shortest_sep = default_find_shortest_sep,
     find_short_succ = (\<lambda>a. Some (default_find_short_succ a)),
     cmp_id = ''leveldb.BytewiseComparator''\<rparr>"

declare sep_diff_at.simps [simp del] sep_short.simps [simp del] last_non_ff.simps [simp del]
  short_succ.simps [simp del]

lemma bytes_cmp_refl [simp]: "bytes_cmp a a = Equal"
  by (induction a) auto

lemma bytes_cmp_Nil_right [simp]: "bytes_cmp a [] \<noteq> Less"
  by (cases a) auto

lemma bytes_cmp_Equal: "bytes_cmp a b = Equal \<longleftrightarrow> a = b"
  by (induction a b rule: bytes_cmp.induct) auto

lemma bytes_cmp_flip: "bytes_cmp b a = flip_ordering (bytes_cmp a b)"
  by (induction a b rule: bytes_cmp.induct) auto

lemma bytes_cmp_append [simp]: "bytes_cmp (p @ a) (p @ b) = bytes_cmp a b"
  by (induction p) auto

lemma bytes_cmp_Less_trans:
  "bytes_cmp a b = Less \<Longrightarrow> bytes_cmp b c = Less \<Longrightarrow> bytes_cmp a c = Less"
proof (induction a b arbitrary: c rule: bytes_cmp.induct)
  case (2 y ys)
  then show ?case by (cases c) auto
next
  case (4 x xs y ys)
  then show ?case by (cases c) (auto split: if_splits)
qed auto

lemma DefaultCmp_cmp [simp]: "cmp DefaultCmp a b = Some (bytes_cmp a b)"
  by (simp add: DefaultCmp_def)

interpretation default_cmp: cmp_order "cmp DefaultCmp" UNIV
proof
  fix a b :: bytes
  show "cmp DefaultCmp b a = map_option flip_ordering (cmp DefaultCmp a b)"
    by (simp add: bytes_cmp_flip [of b a])
next
  fix a b c :: bytes
  show "cmp DefaultCmp a b = Some Less \<Longrightarrow> cmp DefaultCmp b c = Some Less
      \<Longrightarrow> cmp DefaultCmp a c = Some Less"
    using bytes_cmp_Less_trans [of a b c] by simp
qed (simp_all add: bytes_cmp_Equal)

lemma bytes_less_cases:
  assumes "bytes_cmp a b = Less"
  obtains (prefix) c where "c \<noteq> []" "b = a @ c"
    | (differ) p x xs y ys where "a = p @ x # xs" "b = p @ y # ys" "x < y"
proof -
  have "(\<exists>c. c \<noteq> [] \<and> b = a @ c) \<or>
      (\<exists>p x xs y ys. a = p @ x # xs \<and> b = p @ y # ys \<and> x < y)"
    using assms
  proof (induction a b rule: bytes_cmp.induct)
    case (4 x xs y ys)
    show ?case
    proof (cases "x < y")
      case True
      then have "x # xs = [] @ x # xs \<and> y # ys = [] @ y # ys \<and> x < y" by simp
      then show ?thesis by blast
    next
      case False
      with "4.prems" have eq: "y = x" "bytes_cmp xs ys = Less" by (auto split: if_splits)
      with "4.IH" False consider c where "c \<noteq> []" "ys = xs @ c"
        | p u us v vs where "xs = p @ u # us" "ys = p @ v # vs" "u < v"
        by auto
      then show ?thesis
      proof cases
        case 1
        then show ?thesis using eq by simp
      next
        case 2
        then have "x # xs = (x # p) @ u # us \<and> y # ys = (x # p) @ v # vs \<and> u < v"
          using eq by simp
        then show ?thesis by blast
      qed
    qed
  qed auto
  then show thesis using prefix differ by blast
qed


section \<open>Separators and successors\<close>

lemma sep_diff_at_spec:
  assumes "i \<le> min (length a) (length b)" "take i a = take i b"
  defines "d \<equiv> sep_diff_at a b i"
  shows "d \<le> min (length a) (length b) \<and> take d a = take d b
       \<and> (d < min (length a) (length b) \<longrightarrow> a ! d \<noteq> b ! d)"
  using assms(1,2) unfolding d_def
proof (induction a b i rule: sep_diff_at.induct)
  case (1 a b i)
  show ?case
  proof (cases "i < min (length a) (length b) \<and> a ! i = b ! i")
    case True
    then have "take (i + 1) a = take (i + 1) b"
      using "1.prems"(2) by (simp add: take_Suc_conv_app_nth)
    with True "1.IH" show ?thesis by (simp add: sep_diff_at.simps [of a b i])
  next
    case False
    with "1.prems" show ?thesis by (auto simp: sep_diff_at.simps [of a b i])
  qed
qed

lemma bytes_less_differ: "x < y \<Longrightarrow> bytes_cmp (p @ x # xs) (p @ y # ys) = Less"
  by simp

lemma bytes_less_snoc: "c \<noteq> [] \<Longrightarrow> bytes_cmp a (a @ c) = Less"
  using bytes_cmp_append [of a "[]" c] by (cases c) auto

text \<open>\<open>bump a j\<close> is the prefix of \<open>a\<close> up to position \<open>j\<close> with that byte incremented.\<close>

lemma bump_greater:
  assumes "j < length a" "a ! j \<noteq> 0xff"
  shows "bytes_cmp a ((take (j + 1) a)[j := a ! j + 1]) = Less"
    and "bytes_cmp a (a[j := a ! j + 1]) = Less"
proof -
  have inc: "a ! j < a ! j + 1"
    by (rule byte_inc [OF assms(2)])
  have a: "a = take j a @ a ! j # drop (j + 1) a"
    using assms(1) by (simp add: id_take_nth_drop)
  have "(take (j + 1) a)[j := a ! j + 1] = take j a @ [a ! j + 1]"
    using assms(1) by (simp add: take_Suc_conv_app_nth list_update_append)
  then show "bytes_cmp a ((take (j + 1) a)[j := a ! j + 1]) = Less"
    using a inc bytes_less_differ by metis
  have "a[j := a ! j + 1] = take j a @ (a ! j + 1) # drop (j + 1) a"
    using assms(1) by (simp add: upd_conv_take_nth_drop)
  then show "bytes_cmp a (a[j := a ! j + 1]) = Less"
    using a inc bytes_less_differ by metis
qed

lemma bytes_less_at:
  assumes "take d s = take d b" "d < length s" "d < length b" "s ! d < b ! d"
  shows "bytes_cmp s b = Less"
proof -
  have "s = take d b @ s ! d # drop (Suc d) s" "b = take d b @ b ! d # drop (Suc d) b"
    using assms(1-3) id_take_nth_drop [of d s] id_take_nth_drop [of d b] by auto
  then show ?thesis using bytes_less_differ [OF assms(4)] by metis
qed

lemma sep_short_spec:
  assumes "take d a = take d b" "d \<le> i" "d < min (length a) (length b) \<longrightarrow> a ! d < b ! d"
  shows "\<exists>r. sep_short a b i = Some r \<and>
    (\<forall>sep. r = Some sep \<longrightarrow> bytes_cmp a sep = Less \<and> bytes_cmp sep b = Less)"
  using assms
proof (induction a b i rule: sep_short.induct)
  case (1 a b i)
  let ?hit = "a ! i < 0xff \<and> a ! i + 1 < b ! i" and ?sep = "(take (i + 1) a)[i := a ! i + 1]"
  consider (hit) "i < min (length a) (length b)" ?hit
    | (miss) "i < min (length a) (length b)" "\<not> ?hit"
    | (stop) "\<not> i < min (length a) (length b)"
    by blast
  then show ?case
  proof cases
    case hit
    have "bytes_cmp ?sep b = Less"
    proof (cases "i = d")
      case True
      then show ?thesis
        using hit "1.prems"(1) by (intro bytes_less_at [of d]) auto
    next
      case False
      then show ?thesis
        using hit "1.prems" by (intro bytes_less_at [of d]) auto
    qed
    moreover have "bytes_cmp a ?sep = Less"
      using hit by (intro bump_greater) auto
    ultimately show ?thesis
      using hit by (simp add: sep_short.simps [of a b i])
  next
    case miss
    have "sep_short a b i = sep_short a b (i + 1)"
      using miss by (subst sep_short.simps) (auto simp: Let_def)
    then show ?thesis using "1.IH" [OF miss(1) refl miss(2)] "1.prems" by simp
  next
    case stop
    then show ?thesis by (subst sep_short.simps) auto
  qed
qed

lemma last_non_ff_le: "last_non_ff s i \<le> i"
  by (induction s i rule: last_non_ff.induct)
    (metis diff_le_self last_non_ff.simps le_trans order_refl)

lemma snoc0_separates:
  assumes "bytes_cmp a b = Less"
  shows "bytes_cmp (a @ [0]) b = Less \<or> b = a @ [0]"
  using assms
proof (cases rule: bytes_less_cases)
  case (prefix c)
  then obtain x xs where "c = x # xs" by (cases c) auto
  then show ?thesis
    using prefix bytes_cmp_append [of a "[0]" c] by (cases xs) (auto simp: word_less_sub1 word_gt_0)
next
  case (differ p x xs y ys)
  then show ?thesis by simp
qed

lemma default_sep_total:
  assumes "bytes_cmp a b = Less" "a \<noteq> []"
  shows "\<exists>sep. default_find_shortest_sep a b = Some sep \<and> bytes_cmp a sep = Less
    \<and> (bytes_cmp sep b = Less \<or> sep = b \<and> b = a @ [0])"
proof -
  define d where "d = sep_diff_at a b 0"
  have d: "take d a = take d b" "d < min (length a) (length b) \<longrightarrow> a ! d \<noteq> b ! d"
    using sep_diff_at_spec [of 0 a b] by (auto simp: d_def)
  have "d < min (length a) (length b) \<longrightarrow> a ! d < b ! d"
  proof
    assume lt: "d < min (length a) (length b)"
    with d(2) consider "a ! d < b ! d" | "b ! d < a ! d" by (meson linorder_neqE)
    then show "a ! d < b ! d"
    proof cases
      case 2
      then have "bytes_cmp b a = Less" using lt d(1) by (intro bytes_less_at [of d]) auto
      then show ?thesis using assms(1) bytes_cmp_flip [of a b] by simp
    qed
  qed
  then obtain r where r: "sep_short a b d = Some r"
    "\<forall>sep. r = Some sep \<longrightarrow> bytes_cmp a sep = Less \<and> bytes_cmp sep b = Less"
    using sep_short_spec [OF d(1) order_refl] by blast
  have ne: "a \<noteq> b" using assms(1) by auto
  show ?thesis
  proof (cases r)
    case None
    define i where "i = last_non_ff a (length a - 1)"
    have i: "i < length a"
      using last_non_ff_le [of a "length a - 1"] assms(2) by (cases a) (auto simp: i_def)
    have n: "usub (length a) 1 = Some (length a - 1)"
      using assms(2) by (cases a) (auto simp: usub_def)
    have "default_find_shortest_sep a b =
        (if a ! i < 0xff \<and> bytes_cmp (a[i := a ! i + 1]) b = Less then Some (a[i := a ! i + 1])
         else Some (a @ [0]))"
      using ne None r(1) n by (simp add: default_find_shortest_sep_def d_def i_def Let_def)
    then show ?thesis
      using bump_greater(2) [OF i] bytes_less_snoc [of "[0]" a] snoc0_separates [OF assms(1)]
      by auto
  next
    case (Some sep)
    then show ?thesis
      using r ne by (simp add: default_find_shortest_sep_def d_def [symmetric])
  qed
qed

lemma short_succ_greater:
  assumes "\<forall>j < i. a ! j = 0xff"
  shows "bytes_cmp a (short_succ a i) = Less"
  using assms
proof (induction a i rule: short_succ.induct)
  case (1 a i)
  consider (bump) "i < length a" "a ! i \<noteq> 0xff" | (skip) "i < length a" "a ! i = 0xff"
    | (stop) "\<not> i < length a"
    by blast
  then show ?case
  proof cases
    case bump
    have "take (i + 1) (a[i := a ! i + 1]) = (take (i + 1) a)[i := a ! i + 1]"
      by (simp add: take_update_swap)
    then show ?thesis
      using bump bump_greater(1) [OF bump] by (simp add: short_succ.simps [of a i] resize_def)
  next
    case skip
    then show ?thesis
      using "1.IH" "1.prems" by (auto simp: short_succ.simps [of a i] less_Suc_eq)
  next
    case stop
    then show ?thesis
      using bytes_less_snoc [of "[255]" a] by (simp add: short_succ.simps [of a i])
  qed
qed

lemma snoc0_least:
  assumes "bytes_cmp a s = Less" "bytes_cmp s (a @ [0]) = Less"
  shows False
  using assms(1)
proof (cases rule: bytes_less_cases)
  case (prefix c)
  with assms(2) show ?thesis by (cases c) (auto split: if_splits)
next
  case (differ p x xs y ys)
  with assms(2) show ?thesis by (auto split: if_splits)
qed

text \<open>C26: On two byte strings in order, the first of them not empty, the default comparator's
  separator search returns a string strictly above the first and strictly below the second, and
  the only exception is a second string that is the first one with a zero byte appended, for which
  it returns that second string itself. It never panics there: its inner assertion holds.\<close>

theorem default_separator_correct:
  assumes "cmp DefaultCmp a b = Some Less" and "a \<noteq> []"
  shows "\<exists>sep. find_shortest_sep DefaultCmp a b = Some sep \<and> cmp DefaultCmp a sep = Some Less
    \<and> (if b = a @ [0] then sep = b else cmp DefaultCmp sep b = Some Less)"
proof -
  have lt: "bytes_cmp a b = Less" using assms(1) by (simp add: DefaultCmp_def)
  obtain sep where sep: "default_find_shortest_sep a b = Some sep" "bytes_cmp a sep = Less"
      "bytes_cmp sep b = Less \<or> sep = b \<and> b = a @ [0]"
    using default_sep_total [OF lt assms(2)] by blast
  then have "b = a @ [0] \<Longrightarrow> sep = b" using snoc0_least by blast
  with sep show ?thesis by (auto simp: DefaultCmp_def)
qed

theorem default_separator_correct_witness:
  "cmp DefaultCmp [97, 98] [97, 100] = Some Less \<and>
   (\<exists>sep. find_shortest_sep DefaultCmp [97, 98] [97, 100] = Some sep
     \<and> cmp DefaultCmp sep [97, 100] = Some Less)"
proof -
  have h: "cmp DefaultCmp [97, 98] [97, 100] = Some Less" by (simp add: DefaultCmp_def)
  show ?thesis using h default_separator_correct [OF h] by auto
qed

end
