(* ===== verification/Key_Types.thy ===== *)
theory Key_Types
  imports Integer_Encoding Comparator
begin

text \<open>
  The key formats (\<open>src/src/key_types.rs\<close>). A user key is wrapped into an internal key (user key and
  an 8-byte tag holding the sequence number and the entry type) and, in the memtable, into a
  memtable key (length prefix, internal key, value length, value). The comparison functions order
  by the user comparator and, among equal user keys, by descending sequence number.
\<close>

type_synonym sequence_number = u64

datatype value_type = TypeDeletion | TypeValue

definition MAX_SEQUENCE_NUMBER :: sequence_number where
  "MAX_SEQUENCE_NUMBER = push_bit 56 1 - 1"

definition U64_SPACE :: nat where
  "U64_SPACE = 8"

fun value_type_code :: "value_type \<Rightarrow> u64" where
  "value_type_code TypeDeletion = 0"
| "value_type_code TypeValue = 1"

text \<open>\<open>s << 8 | t as u64\<close>: the tag of a key; the upper eight bits of the sequence number are lost.\<close>

definition mk_tag :: "sequence_number \<Rightarrow> value_type \<Rightarrow> u64" where
  "mk_tag s t = push_bit 8 s OR value_type_code t"

record lookup_key =
  lk_key :: bytes
  key_offset :: nat

definition new_full :: "int_codec \<Rightarrow> bytes \<Rightarrow> sequence_number \<Rightarrow> value_type \<Rightarrow> lookup_key run" where
  "new_full ie k s t =
     (let internal_keylen = length k + U64_SPACE in
      do {
        key \<leftarrow> write_parts (length k + required_space ie internal_keylen + U64_SPACE)
                 [encode_var ie internal_keylen, k, encode_fixed64 ie (mk_tag s t)];
        Some \<lparr>lk_key = key, key_offset = required_space ie internal_keylen\<rparr>
      })"

definition lookup_key_new :: "int_codec \<Rightarrow> bytes \<Rightarrow> sequence_number \<Rightarrow> lookup_key run" where
  "lookup_key_new ie k s = new_full ie k s TypeValue"

definition memtable_key :: "lookup_key \<Rightarrow> bytes" where
  "memtable_key lk = lk_key lk"

definition user_key :: "lookup_key \<Rightarrow> bytes run" where
  "user_key lk = do { e \<leftarrow> usub (length (lk_key lk)) 8; slice_range (key_offset lk) e (lk_key lk) }"

definition internal_key :: "lookup_key \<Rightarrow> bytes run" where
  "internal_key lk = slice_from (key_offset lk) (lk_key lk)"

definition parse_tag :: "u64 \<Rightarrow> value_type \<times> u64" where
  "parse_tag tag =
     (let seq = drop_bit 8 tag; typ = tag AND 0xff
      in if typ = 0 then (TypeDeletion, seq) else if typ = 1 then (TypeValue, seq)
         else (TypeValue, seq))"

definition build_memtable_key ::
    "int_codec \<Rightarrow> bytes \<Rightarrow> bytes \<Rightarrow> value_type \<Rightarrow> sequence_number \<Rightarrow> bytes run" where
  "build_memtable_key ie key value t seq =
     (let keysize = length key + U64_SPACE;
          valsize = length value;
          n = keysize + valsize + required_space ie keysize + required_space ie valsize;
          parts = [encode_var ie keysize, key, encode_fixed64 ie (value_type_code t OR push_bit 8 seq),
                   encode_var ie valsize, value]
      in do {
        buf \<leftarrow> write_parts n parts;
        ensure (length (concat parts) = n);
        Some buf
      })"

definition parse_memtable_key :: "int_codec \<Rightarrow> bytes \<Rightarrow> (nat \<times> nat \<times> u64 \<times> nat \<times> nat) run" where
  "parse_memtable_key ie mkey =
     do {
       (keylen, keyoff) \<leftarrow> decode_var ie mkey;
       klen \<leftarrow> usub keylen 8;
       let i = keyoff + klen;
       if length mkey > i then do {
         t \<leftarrow> slice_range i (i + 8) mkey;
         let tag = decode_fixed64 ie t;
         rest \<leftarrow> slice_from (i + 8) mkey;
         (vallen, j) \<leftarrow> decode_var ie rest;
         Some (klen, keyoff, tag, vallen, i + 8 + j)
       }
       else Some (klen, keyoff, 0, 0, 0)
     }"

definition cmp_memtable_key :: "int_codec \<Rightarrow> comparator \<Rightarrow> bytes \<Rightarrow> bytes \<Rightarrow> ordering run" where
  "cmp_memtable_key ie ucmp a b =
     do {
       (alen, aoff) \<leftarrow> decode_var ie a;
       (blen, boff) \<leftarrow> decode_var ie b;
       aend \<leftarrow> usub (aoff + alen) 8;
       bend \<leftarrow> usub (boff + blen) 8;
       userkey_a \<leftarrow> slice_range aoff aend a;
       userkey_b \<leftarrow> slice_range boff bend b;
       r \<leftarrow> cmp ucmp userkey_a userkey_b;
       case r of
         Less \<Rightarrow> Some Less
       | Greater \<Rightarrow> Some Greater
       | Equal \<Rightarrow> do {
           ta \<leftarrow> slice_range aend (aoff + alen) a;
           tb \<leftarrow> slice_range bend (boff + blen) b;
           let aseq = snd (parse_tag (decode_fixed64 ie ta));
           let bseq = snd (parse_tag (decode_fixed64 ie tb));
           Some (ord_cmp bseq aseq)
         }
     }"

definition parse_internal_key :: "int_codec \<Rightarrow> bytes \<Rightarrow> (value_type \<times> sequence_number \<times> bytes) run" where
  "parse_internal_key ie ikey =
     (if ikey = [] then Some (TypeDeletion, 0, [])
      else do {
        ensure (length ikey \<ge> 8);
        t \<leftarrow> slice_from (length ikey - 8) ikey;
        let (typ, seq) = parse_tag (decode_fixed64 ie t);
        k \<leftarrow> slice_range 0 (length ikey - 8) ikey;
        Some (typ, seq, k)
      })"

definition cmp_internal_key :: "int_codec \<Rightarrow> comparator \<Rightarrow> bytes \<Rightarrow> bytes \<Rightarrow> ordering run" where
  "cmp_internal_key ie ucmp a b =
     do {
       na \<leftarrow> usub (length a) 8;
       ka \<leftarrow> slice_range 0 na a;
       nb \<leftarrow> usub (length b) 8;
       kb \<leftarrow> slice_range 0 nb b;
       r \<leftarrow> cmp ucmp ka kb;
       case r of
         Less \<Rightarrow> Some Less
       | Greater \<Rightarrow> Some Greater
       | Equal \<Rightarrow> do {
           ta \<leftarrow> slice_from na a;
           tb \<leftarrow> slice_from nb b;
           let seqa = snd (parse_tag (decode_fixed64 ie ta));
           let seqb = snd (parse_tag (decode_fixed64 ie tb));
           Some (ord_cmp seqb seqa)
         }
     }"

definition truncate_to_userkey :: "bytes \<Rightarrow> bytes run" where
  "truncate_to_userkey ikey = do { ensure (length ikey \<ge> 8); Some (take (length ikey - 8) ikey) }"


section \<open>Abstract views\<close>

text \<open>
  The internal key of an entry, and the user key and sequence number an internal or memtable key
  stands for: what the formats are for, and what the functions above are compared with.
\<close>

definition ikey :: "int_codec \<Rightarrow> bytes \<Rightarrow> sequence_number \<Rightarrow> value_type \<Rightarrow> bytes" where
  "ikey ie k s t = k @ encode_fixed64 ie (mk_tag s t)"

definition ikey_user :: "bytes \<Rightarrow> bytes" where
  "ikey_user k = take (length k - 8) k"

definition ikey_seq :: "int_codec \<Rightarrow> bytes \<Rightarrow> sequence_number" where
  "ikey_seq ie k = snd (parse_tag (decode_fixed64 ie (drop (length k - 8) k)))"

definition ikey_type :: "int_codec \<Rightarrow> bytes \<Rightarrow> value_type" where
  "ikey_type ie k = fst (parse_tag (decode_fixed64 ie (drop (length k - 8) k)))"

definition internal_keys :: "bytes set" where
  "internal_keys = {k. 8 \<le> length k}"

definition mkey_ikey :: "int_codec \<Rightarrow> bytes \<Rightarrow> bytes" where
  "mkey_ikey ie m = (case decode_var ie m of None \<Rightarrow> [] | Some (n, off) \<Rightarrow> take n (drop off m))"

definition memtable_keys :: "int_codec \<Rightarrow> bytes set" where
  "memtable_keys ie =
     {m. \<exists>n off. decode_var ie m = Some (n, off) \<and> 8 \<le> n \<and> off + n \<le> length m}"

definition memtable_entry ::
    "int_codec \<Rightarrow> bytes \<Rightarrow> bytes \<Rightarrow> value_type \<Rightarrow> sequence_number \<Rightarrow> bytes" where
  "memtable_entry ie k v t s =
     encode_var ie (length k + 8) @ ikey ie k s t @ encode_var ie (length v) @ v"

text \<open>Order by the user comparator, ties by descending sequence number.\<close>

definition key_seq_cmp ::
    "comparator \<Rightarrow> bytes \<Rightarrow> sequence_number \<Rightarrow> bytes \<Rightarrow> sequence_number \<Rightarrow> ordering run" where
  "key_seq_cmp ucmp ka sa kb sb =
     do { r \<leftarrow> cmp ucmp ka kb; Some (if r = Equal then ord_cmp sb sa else r) }"


section \<open>Tags\<close>

lemma seq_bits:
  assumes "s \<le> MAX_SEQUENCE_NUMBER" "bit s n"
  shows "n < 56"
proof -
  have "unat s < 2 ^ 56"
    using assms(1) by (simp add: MAX_SEQUENCE_NUMBER_def word_le_nat_alt)
  then have "take_bit 56 s = s"
    by (simp add: word_eq_iff_unsigned [where 'a = nat] unsigned_take_bit_eq take_bit_nat_eq_self)
  with assms(2) show ?thesis by (metis bit_take_bit_iff)
qed

lemma tag_seq: "s \<le> MAX_SEQUENCE_NUMBER \<Longrightarrow> drop_bit 8 (push_bit 8 s OR c) = s OR drop_bit 8 c"
  by (rule bit_word_eqI) (auto simp: bit_simps dest: seq_bits)

lemma tag_low: "(push_bit 8 s OR c) AND 0xff = c AND (0xff :: u64)"
proof -
  have "x AND 0xff = take_bit 8 x" for x :: u64
    by (simp add: take_bit_eq_mask mask_eq_exp_minus_1)
  then show ?thesis by (simp add: take_bit_push_bit)
qed

lemma parse_mk_tag [simp]: "s \<le> MAX_SEQUENCE_NUMBER \<Longrightarrow> parse_tag (mk_tag s t) = (t, s)"
  using tag_seq [of s 0] tag_low [of s 0]
  by (cases t) (simp_all add: parse_tag_def mk_tag_def tag_seq tag_low Let_def)

lemma build_tag: "value_type_code t OR push_bit 8 s = mk_tag s t"
  by (simp add: mk_tag_def or.commute)


section \<open>Layouts and round trips\<close>

lemma parse_internal_key_eq:
  "8 \<le> length k \<Longrightarrow>
     parse_internal_key ie k = Some (ikey_type ie k, ikey_seq ie k, ikey_user k)"
  by (auto simp: parse_internal_key_def ikey_type_def ikey_seq_def ikey_user_def slice_from_def
      slice_range_def split: prod.splits)

lemma truncate_to_userkey_eq: "8 \<le> length k \<Longrightarrow> truncate_to_userkey k = Some (ikey_user k)"
  by (simp add: truncate_to_userkey_def ikey_user_def)

lemma cmp_internal_key_eq:
  assumes "a \<in> internal_keys" "b \<in> internal_keys"
  shows "cmp_internal_key ie U a b =
    key_seq_cmp U (ikey_user a) (ikey_seq ie a) (ikey_user b) (ikey_seq ie b)"
  using assms
  by (auto simp: cmp_internal_key_def key_seq_cmp_def internal_keys_def usub_def slice_range_def
      slice_from_def ikey_user_def ikey_seq_def Let_def split: ordering.splits bind_split)

lemma cmp_memtable_key_eq:
  assumes "a \<in> memtable_keys ie" "b \<in> memtable_keys ie"
  shows "cmp_memtable_key ie U a b = cmp_internal_key ie U (mkey_ikey ie a) (mkey_ikey ie b)"
proof -
  obtain n i m j where d: "decode_var ie a = Some (n, i)" "8 \<le> n" "i + n \<le> length a"
    "decode_var ie b = Some (m, j)" "8 \<le> m" "j + m \<le> length b"
    using assms by (auto simp: memtable_keys_def)
  have slices: "usub (p + q) 8 = Some (p + q - 8)"
      "slice_range p (p + q - 8) c = Some (take (q - 8) (drop p c))"
      "slice_range (p + q - 8) (p + q) c = Some (drop (q - 8) (take q (drop p c)))"
      "usub (length (take q (drop p c))) 8 = Some (q - 8)"
      "slice_range 0 (q - 8) (take q (drop p c)) = Some (take (q - 8) (drop p c))"
      "slice_from (q - 8) (take q (drop p c)) = Some (drop (q - 8) (take q (drop p c)))"
    if "8 \<le> q" "p + q \<le> length c" for p q and c :: bytes
    using that by (auto simp: usub_def slice_range_def slice_from_def drop_take min_def add.commute)
  show ?thesis
    using slices [OF d(2,3)] slices [OF d(5,6)] d(1,4)
    by (simp add: cmp_memtable_key_def cmp_internal_key_def mkey_ikey_def)
qed

context integer_encoding
begin

lemma ikey_facts:
  "length (ikey ie k s t) = length k + 8" "ikey_user (ikey ie k s t) = k"
  "ikey ie k s t \<in> internal_keys"
  by (simp_all add: ikey_def ikey_user_def internal_keys_def codec_laws)

lemma ikey_seq_type:
  assumes "s \<le> MAX_SEQUENCE_NUMBER"
  shows "ikey_seq ie (ikey ie k s t) = s" "ikey_type ie (ikey ie k s t) = t"
  using assms by (simp_all add: ikey_def ikey_seq_def ikey_type_def codec_laws)

lemmas ikey_simps = ikey_facts ikey_seq_type

lemma new_full_eq:
  assumes "length k + 8 < 2 ^ 64"
  shows "new_full ie k s t = Some \<lparr>lk_key = encode_var ie (length k + 8) @ ikey ie k s t,
    key_offset = length (encode_var ie (length k + 8))\<rparr>"
  using assms by (simp add: new_full_def U64_SPACE_def ikey_def codec_laws write_parts_exact Let_def)

lemma internal_key_new:
  assumes "length k + 8 < 2 ^ 64"
  shows "new_full ie k s t \<bind> internal_key = Some (ikey ie k s t)"
    "lookup_key_new ie k s \<bind> internal_key = Some (ikey ie k s TypeValue)"
  using assms by (simp_all add: lookup_key_new_def new_full_eq internal_key_def slice_from_append)

lemma user_key_new:
  assumes "length k + 8 < 2 ^ 64"
  shows "new_full ie k s t \<bind> user_key = Some k"
  using assms
  by (simp add: new_full_eq user_key_def ikey_def usub_def codec_laws slice_range_def)

lemma build_memtable_key_eq:
  assumes "length k + 8 < 2 ^ 64" "length v < 2 ^ 64"
  shows "build_memtable_key ie k v t s = Some (memtable_entry ie k v t s)"
  using assms
  by (simp add: build_memtable_key_def memtable_entry_def ikey_def U64_SPACE_def codec_laws build_tag
      write_parts_exact Let_def)

lemma parse_memtable_entry:
  assumes "length k + 8 < 2 ^ 64" "length v < 2 ^ 64"
  shows "parse_memtable_key ie (memtable_entry ie k v t s) =
    Some (length k, length (encode_var ie (length k + 8)), mk_tag s t, length v,
      length (memtable_entry ie k v t s) - length v)"
proof -
  let ?p = "encode_var ie (length k + 8) @ k"
  have m: "memtable_entry ie k v t s =
      ?p @ encode_fixed64 ie (mk_tag s t) @ encode_var ie (length v) @ v"
    by (simp add: memtable_entry_def ikey_def)
  show ?thesis
    using assms decode_encode_var [OF assms(1), of "k @ encode_fixed64 ie (mk_tag s t) @ _"]
      slice_append_middle [of ?p _ "encode_fixed64 ie (mk_tag s t)"]
      slice_from_append [of "?p @ encode_fixed64 ie (mk_tag s t)"]
    by (simp add: m parse_memtable_key_def usub_def codec_laws Let_def)
qed

lemma memtable_entry_ikey:
  assumes "length k + 8 < 2 ^ 64"
  shows "memtable_entry ie k v t s \<in> memtable_keys ie"
    "mkey_ikey ie (memtable_entry ie k v t s) = ikey ie k s t"
    "encode_var ie (length k + 8) @ ikey ie k s t \<in> memtable_keys ie"
    "mkey_ikey ie (encode_var ie (length k + 8) @ ikey ie k s t) = ikey ie k s t"
  using assms
  by (simp_all add: memtable_entry_def memtable_keys_def mkey_ikey_def decode_encode_var ikey_facts)

end


text \<open>A memtable key built from a user key, a value, an entry type and a sequence number of at
  most 56 bits parses back: the offsets the parser returns cut exactly the user key and the value
  out of the buffer, and the tag parses to the entry type and the sequence number.\<close>

lemma memtable_key_roundtrip:
  assumes "integer_encoding ie" "length k + 8 < 2 ^ 64" "length v < 2 ^ 64"
    "s \<le> MAX_SEQUENCE_NUMBER"
  shows "\<exists>m koff tag voff.
    build_memtable_key ie k v t s = Some m \<and>
    parse_memtable_key ie m = Some (length k, koff, tag, length v, voff) \<and>
    slice_range koff (koff + length k) m = Some k \<and> slice_range voff (voff + length v) m = Some v \<and>
    parse_tag tag = (t, s)"
proof -
  let ?m = "memtable_entry ie k v t s" and ?c = "encode_var ie (length k + 8)"
  have "slice_range (length ?c) (length ?c + length k) ?m = Some k"
    by (simp add: memtable_entry_def ikey_def slice_append_middle)
  moreover have "slice_range (length ?m - length v) (length ?m - length v + length v) ?m = Some v"
    using slice_append_end [of "?c @ ikey ie k s t @ encode_var ie (length v)" _ v]
    by (simp add: memtable_entry_def)
  ultimately show ?thesis
    using assms(2-4) integer_encoding.build_memtable_key_eq [OF assms(1-3)]
      integer_encoding.parse_memtable_entry [OF assms(1-3)]
    by auto
qed

text \<open>A lookup key for a user key and a sequence number is the length prefix followed by the
  internal key: its parts return the user key itself and an internal key that parses to the entry
  type, the sequence number and the user key.\<close>

lemma lookup_key_roundtrip:
  assumes "integer_encoding ie" "length k + 8 < 2 ^ 64" "s \<le> MAX_SEQUENCE_NUMBER"
  shows "\<exists>lk. new_full ie k s t = Some lk \<and> user_key lk = Some k \<and>
    internal_key lk \<bind> parse_internal_key ie = Some (t, s, k) \<and>
    internal_key lk \<bind> truncate_to_userkey = Some k"
  using integer_encoding.new_full_eq [OF assms(1,2)] integer_encoding.user_key_new [OF assms(1,2)]
    integer_encoding.internal_key_new [OF assms(1,2)] integer_encoding.ikey_simps [OF assms(1)] assms(3)
  by (auto simp: parse_internal_key_eq truncate_to_userkey_eq)

end
