(* ===== verification/Key_Cmp.thy ===== *)
theory Key_Cmp
  imports Key_Types
begin

text \<open>
  The two comparators over the key formats (\<open>src/src/cmp.rs\<close>): \<open>InternalKeyCmp\<close> and
  \<open>MemtableKeyCmp\<close> wrap a user comparator. For a user comparator that is an order, both are orders
  on the keys of their format; the interpretations for the default comparator follow. The
  separators of \<open>InternalKeyCmp\<close> are what the index of a table is made of.
\<close>

definition internal_find_shortest_sep :: "int_codec \<Rightarrow> comparator \<Rightarrow> bytes \<Rightarrow> bytes \<Rightarrow> bytes run" where
  "internal_find_shortest_sep ie ucmp a b =
     (if a = b then Some a
      else do {
        (_, seqa, keya) \<leftarrow> parse_internal_key ie a;
        (_, _, keyb) \<leftarrow> parse_internal_key ie b;
        sep \<leftarrow> find_shortest_sep ucmp keya keyb;
        shorter \<leftarrow> (if length sep < length keya
                    then do { r \<leftarrow> cmp ucmp keya sep; Some (r = Less) } else Some False);
        if shorter then lookup_key_new ie sep MAX_SEQUENCE_NUMBER \<bind> internal_key
        else lookup_key_new ie sep seqa \<bind> internal_key
      })"

definition internal_find_short_succ :: "int_codec \<Rightarrow> comparator \<Rightarrow> bytes \<Rightarrow> bytes run" where
  "internal_find_short_succ ie ucmp a =
     do {
       (_, seq, key) \<leftarrow> parse_internal_key ie a;
       succ \<leftarrow> find_short_succ ucmp key;
       lookup_key_new ie succ seq \<bind> internal_key
     }"

definition InternalKeyCmp :: "int_codec \<Rightarrow> comparator \<Rightarrow> comparator" where
  "InternalKeyCmp ie ucmp = \<lparr>
     cmp = cmp_internal_key ie ucmp,
     find_shortest_sep = internal_find_shortest_sep ie ucmp,
     find_short_succ = internal_find_short_succ ie ucmp,
     cmp_id = cmp_id ucmp\<rparr>"

definition cmp_inner :: "comparator \<Rightarrow> bytes \<Rightarrow> bytes \<Rightarrow> ordering run" where
  "cmp_inner ucmp a b = cmp ucmp a b"

definition MemtableKeyCmp :: "int_codec \<Rightarrow> comparator \<Rightarrow> comparator" where
  "MemtableKeyCmp ie ucmp = \<lparr>
     cmp = cmp_memtable_key ie ucmp,
     find_shortest_sep = (\<lambda>_ _. None),
     find_short_succ = (\<lambda>_. None),
     cmp_id = cmp_id ucmp\<rparr>"


section \<open>The order of the wrapped comparators\<close>

locale user_cmp = user: cmp_order "cmp U" UNIV for U :: comparator
begin

lemma user_total: "\<exists>r. cmp U a b = Some r"
  by (rule user.cmp_total) auto

lemma key_seq_cmp_cases:
  "key_seq_cmp U ka sa kb sb = Some Less \<longleftrightarrow>
     cmp U ka kb = Some Less \<or> cmp U ka kb = Some Equal \<and> sb < sa"
  "key_seq_cmp U ka sa kb sb = Some Equal \<longleftrightarrow> cmp U ka kb = Some Equal \<and> sb = sa"
  using user_total [of ka kb] by (auto simp: key_seq_cmp_def split: if_splits)

lemma key_seq_cmp_flip:
  "key_seq_cmp U kb sb ka sa = map_option flip_ordering (key_seq_cmp U ka sa kb sb)"
  using user_total [of ka kb] user.cmp_flip [of ka kb] by (auto simp: key_seq_cmp_def ord_cmp_flip)

lemma key_seq_cmp_trans:
  assumes "key_seq_cmp U ka sa kb sb = Some Less" "key_seq_cmp U kb sb kc sc = Some Less"
  shows "key_seq_cmp U ka sa kc sc = Some Less"
  using assms user.cmp_less_trans [of ka kb kc] user.cmp_equal_cong [of ka kb kc]
    user.lt_eq_trans [of ka kb kc]
  by (auto simp: key_seq_cmp_cases cmp_lt_def cmp_eq_def)

lemma key_seq_cmp_cong:
  assumes "key_seq_cmp U ka sa kb sb = Some Equal"
  shows "key_seq_cmp U ka sa kc sc = key_seq_cmp U kb sb kc sc"
proof -
  have "cmp U ka kb = Some Equal" "sb = sa" using assms by (simp_all add: key_seq_cmp_cases)
  then show ?thesis using user.cmp_equal_cong [of ka kb kc] by (simp add: key_seq_cmp_def)
qed

text \<open>A comparison that reads a user key and a sequence number out of its arguments is an order.\<close>

lemma key_seq_cmp_order:
  assumes "\<And>a b. a \<in> K \<Longrightarrow> b \<in> K \<Longrightarrow> cm a b = key_seq_cmp U (uk a) (sq a) (uk b) (sq b)"
  shows "cmp_order cm K"
proof
  fix a b c
  assume K: "a \<in> K" "b \<in> K"
  show "\<exists>r. cm a b = Some r"
    using user_total [of "uk a" "uk b"] unfolding assms [OF K] key_seq_cmp_def by fastforce
  show "cm b a = map_option flip_ordering (cm a b)"
    unfolding assms [OF K] assms [OF K(2,1)] by (rule key_seq_cmp_flip)
  show "cm a a = Some Equal"
    unfolding assms [OF K(1,1)] using user.cmp_refl [of "uk a"] by (simp add: key_seq_cmp_cases)
  assume c: "c \<in> K"
  show "cm a b = Some Less \<Longrightarrow> cm b c = Some Less \<Longrightarrow> cm a c = Some Less"
    unfolding assms [OF K] assms [OF K(1) c] assms [OF K(2) c] by (rule key_seq_cmp_trans)
  show "cm a b = Some Equal \<Longrightarrow> cm a c = cm b c"
    unfolding assms [OF K] assms [OF K(1) c] assms [OF K(2) c] by (rule key_seq_cmp_cong)
qed

end

locale key_orders = user_cmp U for U :: comparator +
  fixes ie :: int_codec

sublocale key_orders \<subseteq> ik: cmp_order "cmp (InternalKeyCmp ie U)" internal_keys
  by (rule key_seq_cmp_order [where uk = ikey_user and sq = "ikey_seq ie"])
    (simp add: InternalKeyCmp_def cmp_internal_key_eq)

sublocale key_orders \<subseteq> mk: cmp_order "cmp (MemtableKeyCmp ie U)" "memtable_keys ie"
proof (rule key_seq_cmp_order [where uk = "\<lambda>m. ikey_user (mkey_ikey ie m)"
      and sq = "\<lambda>m. ikey_seq ie (mkey_ikey ie m)"])
  fix a b
  assume "a \<in> memtable_keys ie" "b \<in> memtable_keys ie"
  moreover from this have "mkey_ikey ie a \<in> internal_keys" "mkey_ikey ie b \<in> internal_keys"
    by (auto simp: memtable_keys_def mkey_ikey_def internal_keys_def)
  ultimately show "cmp (MemtableKeyCmp ie U) a b = key_seq_cmp U (ikey_user (mkey_ikey ie a))
      (ikey_seq ie (mkey_ikey ie a)) (ikey_user (mkey_ikey ie b)) (ikey_seq ie (mkey_ikey ie b))"
    by (simp add: MemtableKeyCmp_def cmp_memtable_key_eq cmp_internal_key_eq)
qed

context key_orders
begin

lemma internal_order: "cmp_order (cmp (InternalKeyCmp ie U)) internal_keys"
  by (rule ik.cmp_order_axioms)

lemma memtable_order: "cmp_order (cmp (MemtableKeyCmp ie U)) (memtable_keys ie)"
  by (rule mk.cmp_order_axioms)

end

lemma internal_key_order:
  "cmp_order (cmp U) UNIV \<Longrightarrow> cmp_order (cmp (InternalKeyCmp ie U)) internal_keys"
  by (rule key_orders.internal_order) (simp add: key_orders_def user_cmp_def)

lemma memtable_key_order:
  "cmp_order (cmp U) UNIV \<Longrightarrow> cmp_order (cmp (MemtableKeyCmp ie U)) (memtable_keys ie)"
  by (rule key_orders.memtable_order) (simp add: key_orders_def user_cmp_def)

interpretation bytewise: key_orders DefaultCmp ie for ie
  by unfold_locales

lemma InternalKeyCmp_sel [simp]:
  "cmp (InternalKeyCmp ie U) = cmp_internal_key ie U"
  "find_shortest_sep (InternalKeyCmp ie U) = internal_find_shortest_sep ie U"
  "find_short_succ (InternalKeyCmp ie U) = internal_find_short_succ ie U"
  "cmp (MemtableKeyCmp ie U) = cmp_memtable_key ie U"
  by (simp_all add: InternalKeyCmp_def MemtableKeyCmp_def)

context integer_encoding
begin

lemma cmp_ikeys:
  assumes "s \<le> MAX_SEQUENCE_NUMBER" "s' \<le> MAX_SEQUENCE_NUMBER"
  shows "cmp_internal_key ie U (ikey ie k s t) (ikey ie k' s' t') = key_seq_cmp U k s k' s'"
  using assms by (simp add: cmp_internal_key_eq ikey_simps)

lemma cmp_ikey_left:
  assumes "s \<le> MAX_SEQUENCE_NUMBER" "8 \<le> length b"
  shows "cmp_internal_key ie U (ikey ie k s t) b = key_seq_cmp U k s (ikey_user b) (ikey_seq ie b)"
    "cmp_internal_key ie U b (ikey ie k s t) = key_seq_cmp U (ikey_user b) (ikey_seq ie b) k s"
  using assms by (simp_all add: cmp_internal_key_eq ikey_simps internal_keys_def)

end

lemma ikey_seq_bound: "ikey_seq ie k \<le> MAX_SEQUENCE_NUMBER"
proof -
  have "drop_bit 8 x \<le> MAX_SEQUENCE_NUMBER" for x :: u64
  proof -
    have "unat x < 2 ^ 64" using unsigned_less [of x, where 'a = nat] by simp
    then have "unat x div 2 ^ 8 \<le> 2 ^ 56 - 1" by simp
    then show ?thesis
      by (simp add: MAX_SEQUENCE_NUMBER_def word_le_nat_alt drop_bit_eq_div unat_div)
  qed
  then show ?thesis by (simp add: ikey_seq_def parse_tag_def Let_def)
qed

text \<open>C21: For every user comparator, the comparator of internal keys and the comparator of memtable
  keys order entries the same way: by the user comparator on the user keys and, for user keys it
  calls equal, by descending sequence number. The stored value and the entry type do not matter.\<close>

theorem key_comparators_agree:
  assumes "integer_encoding ie" "length k + 8 < 2 ^ 64" "length k' + 8 < 2 ^ 64"
    "length v < 2 ^ 64" "length v' < 2 ^ 64"
    "s \<le> MAX_SEQUENCE_NUMBER" "s' \<le> MAX_SEQUENCE_NUMBER"
  shows "do { a \<leftarrow> build_memtable_key ie k v t s; b \<leftarrow> build_memtable_key ie k' v' t' s';
      cmp (MemtableKeyCmp ie U) a b } =
      do { r \<leftarrow> cmp U k k'; Some (if r = Equal then ord_cmp s' s else r) } \<and>
    do { a \<leftarrow> new_full ie k s t \<bind> internal_key; b \<leftarrow> new_full ie k' s' t' \<bind> internal_key;
      cmp (InternalKeyCmp ie U) a b } =
      do { r \<leftarrow> cmp U k k'; Some (if r = Equal then ord_cmp s' s else r) }"
proof
  note laws = integer_encoding.build_memtable_key_eq [OF assms(1)]
    integer_encoding.memtable_entry_ikey [OF assms(1)] integer_encoding.cmp_ikeys [OF assms(1)]
  show "do { a \<leftarrow> build_memtable_key ie k v t s; b \<leftarrow> build_memtable_key ie k' v' t' s';
      cmp (MemtableKeyCmp ie U) a b } =
      do { r \<leftarrow> cmp U k k'; Some (if r = Equal then ord_cmp s' s else r) }"
    using assms(2-) by (simp add: laws cmp_memtable_key_eq key_seq_cmp_def)
  show "do { a \<leftarrow> new_full ie k s t \<bind> internal_key; b \<leftarrow> new_full ie k' s' t' \<bind> internal_key;
      cmp (InternalKeyCmp ie U) a b } =
      do { r \<leftarrow> cmp U k k'; Some (if r = Equal then ord_cmp s' s else r) }"
    using assms(6-) integer_encoding.internal_key_new [OF assms(1,2)]
      integer_encoding.internal_key_new [OF assms(1,3)]
    by (simp add: laws key_seq_cmp_def del: bind_assoc)
qed

theorem key_comparators_agree_witness:
  "do { a \<leftarrow> build_memtable_key wire_codec [97] [1] TypeValue 5;
        b \<leftarrow> build_memtable_key wire_codec [97] [] TypeDeletion 4;
        cmp (MemtableKeyCmp wire_codec DefaultCmp) a b } = Some Less"
proof -
  have "(5 :: u64) \<le> MAX_SEQUENCE_NUMBER" "(4 :: u64) \<le> MAX_SEQUENCE_NUMBER"
    by (simp_all add: MAX_SEQUENCE_NUMBER_def word_le_nat_alt)
  from key_comparators_agree [OF wire.integer_encoding_axioms _ _ _ _ this, of "[97]" "[97]" "[1]"
      "[]" TypeValue TypeDeletion DefaultCmp]
  show ?thesis by simp
qed


section \<open>Separators of internal keys\<close>

lemma internal_sep_eq:
  assumes "integer_encoding ie" "8 \<le> length a" "8 \<le> length b" "a \<noteq> b"
    "find_shortest_sep U (ikey_user a) (ikey_user b) = Some sep" "length sep + 8 < 2 ^ 64"
    "\<exists>r. cmp U (ikey_user a) sep = Some r"
  shows "internal_find_shortest_sep ie U a b = Some (ikey ie sep
    (if length sep < length (ikey_user a) \<and> cmp U (ikey_user a) sep = Some Less
     then MAX_SEQUENCE_NUMBER else ikey_seq ie a) TypeValue)"
  using assms integer_encoding.internal_key_new(2) [OF assms(1,6)]
  by (auto simp: internal_find_shortest_sep_def parse_internal_key_eq)

lemma default_sep_length:
  "default_find_shortest_sep a b = Some sep \<Longrightarrow> length sep \<le> length a + 1"
proof -
  have "sep_short a b i = Some (Some r) \<Longrightarrow> length r \<le> length a" for i r
    by (induction a b i rule: sep_short.induct)
      (subst (asm) (2) sep_short.simps, auto simp: Let_def split: if_splits)
  then show "default_find_shortest_sep a b = Some sep \<Longrightarrow> length sep \<le> length a + 1"
    by (fastforce simp: default_find_shortest_sep_def usub_eq_Some Let_def
        split: if_splits option.splits bind_splits)
qed



text \<open>C28: The separator search of the internal comparator fails when the second user key is the
  first one with a zero byte appended and carries a sequence number at least as high: the key
  returned is not below the second key, so an index entry made of it would cover the first key of
  the next block.\<close>

theorem internal_separator_reaches_next:
  assumes "integer_encoding ie" "k \<noteq> []" "length k + 17 < 2 ^ 64"
    "s \<le> s'" "s' \<le> MAX_SEQUENCE_NUMBER"
  shows "\<exists>sep. find_shortest_sep (InternalKeyCmp ie DefaultCmp) (ikey ie k s t) (ikey ie (k @ [0]) s' t')
      = Some sep \<and>
    cmp (InternalKeyCmp ie DefaultCmp) (ikey ie k s t) (ikey ie (k @ [0]) s' t') = Some Less \<and>
    cmp (InternalKeyCmp ie DefaultCmp) sep (ikey ie (k @ [0]) s' t') \<noteq> Some Less"
proof -
  have less: "bytes_cmp k (k @ [0]) = Less" by (simp add: bytes_less_snoc)
  obtain sep where sep: "default_find_shortest_sep k (k @ [0]) = Some sep" "bytes_cmp k sep = Less"
      "bytes_cmp sep (k @ [0]) = Less \<or> sep = k @ [0]"
    using default_sep_total [OF less assms(2)] by blast
  then have sep0: "sep = k @ [0]" using snoc0_least by blast
  have s: "s \<le> MAX_SEQUENCE_NUMBER" using assms(4,5) by simp
  note ik = integer_encoding.ikey_simps [OF assms(1)]
  have "ikey ie k s t \<noteq> ikey ie (k @ [0]) s' t'"
    using ik(1) [of k s t] ik(1) [of "k @ [0]" s' t'] by (auto dest: arg_cong [where f = length])
  then have "internal_find_shortest_sep ie DefaultCmp (ikey ie k s t) (ikey ie (k @ [0]) s' t')
      = Some (ikey ie (k @ [0]) s TypeValue)"
    using internal_sep_eq [OF assms(1), of "ikey ie k s t" "ikey ie (k @ [0]) s' t'" DefaultCmp sep]
      sep(1) sep0 assms(3) ik s by (simp add: DefaultCmp_def)
  then show ?thesis
    using integer_encoding.cmp_ikeys [OF assms(1)] s assms(4,5) less
    by (simp add: key_seq_cmp_def)
qed

theorem internal_separator_reaches_next_witness:
  "\<exists>sep. find_shortest_sep (InternalKeyCmp wire_codec DefaultCmp)
      (ikey wire_codec [97] 1 TypeValue) (ikey wire_codec ([97] @ [0]) 2 TypeValue) = Some sep \<and>
    cmp (InternalKeyCmp wire_codec DefaultCmp) sep (ikey wire_codec ([97] @ [0]) 2 TypeValue) \<noteq> Some Less"
proof -
  have "(2 :: u64) \<le> MAX_SEQUENCE_NUMBER" by (simp add: MAX_SEQUENCE_NUMBER_def word_le_nat_alt)
  from internal_separator_reaches_next [OF wire.integer_encoding_axioms _ _ _ this, of "[97]" 1]
  show ?thesis by (auto simp: word_le_nat_alt)
qed

end
