(* ===== verification/Byte_Io.thy ===== *)
theory Byte_Io
  imports Errors
begin

text \<open>
  The byte sinks and sources the components are generic over: \<open>Write\<close> and \<open>Read\<close> of the standard
  library. A sink or source is given by its \<open>write\<close> or \<open>read\<close> function, which may fail or transfer
  fewer bytes than asked for; \<open>write_all\<close> and \<open>read_exact\<close> are the standard library's loops over
  them. I/O errors are the statuses the \<open>?\<close> operator turns them into.

  The locales state the contract of the sinks and sources that never fail and transfer what they
  can: a \<open>Vec<u8>\<close> or a file in memory, and a byte slice. What the clients prove about whole files
  is proved in these locales.
\<close>

type_synonym 'w write_fun = "'w \<Rightarrow> bytes \<Rightarrow> 'w \<times> nat result"
type_synonym 'r read_fun = "'r \<Rightarrow> nat \<Rightarrow> 'r \<times> bytes result"

function write_all :: "'w write_fun \<Rightarrow> 'w \<Rightarrow> bytes \<Rightarrow> ('w \<times> unit result) run" where
  "write_all wr w buf =
     (if buf = [] then Some (w, Inr ())
      else case wr w buf of
          (w', Inl e) \<Rightarrow> Some (w', Inl e)
        | (w', Inr n) \<Rightarrow>
            if n = 0 then Some (w', err IOError ''failed to write whole buffer'')
            else if n \<le> length buf then write_all wr w' (drop n buf) else None)"
  by pat_completeness auto
termination
  by (relation "measure (\<lambda>(wr, w, buf). length buf)") auto

function read_exact :: "'r read_fun \<Rightarrow> 'r \<Rightarrow> nat \<Rightarrow> ('r \<times> bytes result) run" where
  "read_exact rd r n =
     (if n = 0 then Some (r, Inr [])
      else case rd r n of
          (r', Inl e) \<Rightarrow> Some (r', Inl e)
        | (r', Inr got) \<Rightarrow>
            if got = [] then Some (r', Inl (status_of_io IoUnexpectedEof ''failed to fill whole buffer''))
            else if length got \<le> n then
              do { (r'', rest) \<leftarrow> read_exact rd r' (n - length got);
                   Some (r'', map_sum id (\<lambda>x. got @ x) rest) }
            else None)"
  by pat_completeness auto
termination
  by (relation "measure (\<lambda>(rd, r, n). n)") auto

declare write_all.simps [simp del] read_exact.simps [simp del]

locale byte_sink =
  fixes wr :: "'w write_fun" and contents :: "'w \<Rightarrow> bytes"
  assumes write_ok: "\<exists>w'. wr w bs = (w', Inr (length bs)) \<and> contents w' = contents w @ bs"
begin

lemma write_cases:
  obtains w' where "wr w bs = (w', Inr (length bs))" "contents w' = contents w @ bs"
  using write_ok by blast

lemma write_all_ok:
  obtains w' where "write_all wr w bs = Some (w', Inr ())" "contents w' = contents w @ bs"
proof (cases "bs = []")
  case True
  then show ?thesis using that [of w] by (simp add: write_all.simps)
next
  case False
  obtain w' where "wr w bs = (w', Inr (length bs))" "contents w' = contents w @ bs"
    by (rule write_cases)
  then show ?thesis using that [of w'] False by (simp add: write_all.simps)
qed

end

locale byte_source =
  fixes rd :: "'r read_fun" and remaining :: "'r \<Rightarrow> bytes"
  assumes read_ok:
    "\<exists>r'. rd r n = (r', Inr (take n (remaining r))) \<and> remaining r' = drop n (remaining r)"
begin

lemma read_cases:
  obtains r' where "rd r n = (r', Inr (take n (remaining r)))" "remaining r' = drop n (remaining r)"
  using read_ok by blast

lemma read_exact_ok:
  assumes "n \<le> length (remaining r)"
  obtains r' where "read_exact rd r n = Some (r', Inr (take n (remaining r)))"
    "remaining r' = drop n (remaining r)"
proof (cases "n = 0")
  case True
  then show ?thesis using that [of r] by (simp add: read_exact.simps)
next
  case False
  obtain r' where r': "rd r n = (r', Inr (take n (remaining r)))" "remaining r' = drop n (remaining r)"
    by (rule read_cases)
  moreover have "remaining r \<noteq> []" using False assms by auto
  ultimately show ?thesis
    using that [of r'] False assms
    by (simp add: read_exact.simps [of rd r n] read_exact.simps [of rd r' 0])
qed

lemma read_exact_eof:
  assumes "n > length (remaining r)"
  shows "\<exists>r' e. read_exact rd r n = Some (r', Inl e)"
proof -
  obtain r' where r': "rd r n = (r', Inr (take n (remaining r)))" "remaining r' = drop n (remaining r)"
    by (rule read_cases)
  let ?m = "n - length (remaining r)"
  obtain r'' where r'': "rd r' ?m = (r'', Inr [])"
    using read_ok [of r' ?m] r'(2) assms by auto
  show ?thesis
    using assms r' r'' by (auto simp: read_exact.simps [of rd r n] read_exact.simps [of rd r' ?m])
qed

end


text \<open>
  Files that are read at random (the trait \<open>RandomAccess\<close> of \<open>src/src/env.rs\<close>). Every caller passes a buffer
  of zeros to \<open>read_at\<close>, so the function takes the offset and the length of the buffer and returns the
  filled buffer with the number of bytes read.
\<close>

type_synonym random_access = "nat \<Rightarrow> nat \<Rightarrow> (bytes \<times> nat) result"

locale random_file =
  fixes read_at :: random_access and content :: bytes
  assumes read_at_inside: "off + n \<le> length content \<Longrightarrow> read_at off n = Inr (take n (drop off content), n)"
begin

lemma read_at_middle:
  assumes "content = pre @ mid @ post" "off = length pre" "n = length mid"
  shows "read_at off n = Inr (mid, n)"
  using assms read_at_inside [of off n] by simp

end


section \<open>The standard library's sink and source\<close>

definition vec_write :: "bytes write_fun" where
  "vec_write v bs = (v @ bs, Inr (length bs))"

definition slice_read :: "bytes read_fun" where
  "slice_read s n = (drop n s, Inr (take n s))"

interpretation vec: byte_sink vec_write id
  by unfold_locales (simp add: vec_write_def)

interpretation slice: byte_source slice_read id
  by unfold_locales (simp add: slice_read_def)

end
