(* ===== verification/Log_File.thy ===== *)
theory Log_File
  imports Integer_Encoding Byte_Io
begin

text \<open>
  The write-ahead log (\<open>src/src/log.rs\<close>): records are cut into fragments that never cross a block
  boundary, each with a checksum, a length and a type. \<open>add_record\<close> writes one record, \<open>read\<close>
  returns the next one.

  The crc crate is the parameter \<open>crc\<close>, the checksum of a byte string (the code resets its digest
  before every use). The loops of the writer and the reader are generic in the sink and the
  source, which may transfer nothing, so they are partial functions: \<open>None\<close> is a panic or a loop
  that does not end, and the theorems show that on the sinks and sources of the library they return.
\<close>

definition BLOCK_SIZE :: nat where
  "BLOCK_SIZE = 32 * 1024"

definition HEADER_SIZE :: nat where
  "HEADER_SIZE = 4 + 2 + 1"

datatype record_type = Full | First | Middle | Last

fun record_type_code :: "record_type \<Rightarrow> byte" where
  "record_type_code Full = 1"
| "record_type_code First = 2"
| "record_type_code Middle = 3"
| "record_type_code Last = 4"

definition MASK_DELTA :: u32 where
  "MASK_DELTA = 0xa282ead8"

definition mask_crc :: "u32 \<Rightarrow> u32" where
  "mask_crc c = (drop_bit 15 c OR push_bit 17 c) + MASK_DELTA"

definition unmask_crc :: "u32 \<Rightarrow> u32" where
  "unmask_crc mc = (let rot = mc - MASK_DELTA in drop_bit 17 rot OR push_bit 15 rot)"

record 'w log_writer =
  dst :: 'w
  current_block_offset :: nat
  block_size :: nat

definition log_writer_new :: "'w \<Rightarrow> 'w log_writer" where
  "log_writer_new w = \<lparr>dst = w, current_block_offset = 0, block_size = BLOCK_SIZE\<rparr>"

definition log_writer_new_with_off :: "'w \<Rightarrow> nat \<Rightarrow> 'w log_writer" where
  "log_writer_new_with_off w off = (log_writer_new w)\<lparr>current_block_offset := off mod BLOCK_SIZE\<rparr>"

text \<open>
  The successive writes of \<open>emit_record\<close>, each followed by \<open>?\<close>; the result is the number of bytes
  the sink accepted, which the sink may choose.
\<close>

fun write_seq :: "'w write_fun \<Rightarrow> 'w \<Rightarrow> bytes list \<Rightarrow> nat \<Rightarrow> 'w \<times> nat result" where
  "write_seq wr w [] s = (w, Inr s)"
| "write_seq wr w (b # bs) s =
     (case wr w b of (w', Inl e) \<Rightarrow> (w', Inl e) | (w', Inr n) \<Rightarrow> write_seq wr w' bs (s + n))"

definition emit_record ::
    "int_codec \<Rightarrow> (bytes \<Rightarrow> u32) \<Rightarrow> 'w write_fun \<Rightarrow> 'w log_writer \<Rightarrow> record_type \<Rightarrow> bytes \<Rightarrow> nat
     \<Rightarrow> ('w log_writer \<times> nat result) run" where
  "emit_record ie crc wr lw t data len =
     do {
       ensure (len < 256 * 256);
       frag \<leftarrow> slice_range 0 len data;
       let chksum = mask_crc (crc (record_type_code t # frag));
       let (w, res) = write_seq wr (dst lw)
             [encode_fixed32 ie chksum, encode_fixed16 ie (of_nat len), [record_type_code t], frag] 0;
       case res of
         Inl e \<Rightarrow> Some (lw\<lparr>dst := w\<rparr>, Inl e)
       | Inr s \<Rightarrow> Some (lw\<lparr>dst := w, current_block_offset := current_block_offset lw + s\<rparr>, Inr s)
     }"

definition fragment_type :: "bool \<Rightarrow> bool \<Rightarrow> record_type" where
  "fragment_type first_frag complete =
     (if first_frag \<and> complete then Full else if first_frag then First
      else if complete then Last else Middle)"

partial_function (option) add_record_loop ::
    "int_codec \<Rightarrow> (bytes \<Rightarrow> u32) \<Rightarrow> 'w write_fun \<Rightarrow> 'w log_writer \<Rightarrow> bytes \<Rightarrow> bool \<Rightarrow> nat result
     \<Rightarrow> ('w log_writer \<times> nat result) option" where
  "add_record_loop ie crc wr lw record first_frag result =
     (if is_ok result \<and> record \<noteq> [] then
        do {
          ensure (block_size lw > HEADER_SIZE);
          space_left \<leftarrow> usub (block_size lw) (current_block_offset lw);
          (lw, filled) \<leftarrow>
            (if space_left < HEADER_SIZE then
               do { (w, r) \<leftarrow> write_all wr (dst lw) (take space_left [0, 0, 0, 0, 0, 0]);
                    Some (case r of Inl e \<Rightarrow> (lw\<lparr>dst := w\<rparr>, Inl e)
                          | Inr _ \<Rightarrow> (lw\<lparr>dst := w, current_block_offset := 0\<rparr>, Inr ())) }
             else Some (lw, Inr ()));
          if is_ok filled then
            do {
              space \<leftarrow> usub (block_size lw) (current_block_offset lw);
              avail_for_data \<leftarrow> usub space HEADER_SIZE;
              let data_frag_len =
                    (if length record < avail_for_data then length record else avail_for_data);
              (lw, result) \<leftarrow> emit_record ie crc wr lw
                  (fragment_type first_frag (data_frag_len = length record)) record data_frag_len;
              add_record_loop ie crc wr lw (drop data_frag_len record) False result
            }
          else Some (lw, map_sum id (\<lambda>_. 0) filled)
        }
      else Some (lw, result))"

definition add_record ::
    "int_codec \<Rightarrow> (bytes \<Rightarrow> u32) \<Rightarrow> 'w write_fun \<Rightarrow> 'w log_writer \<Rightarrow> bytes
     \<Rightarrow> ('w log_writer \<times> nat result) run" where
  "add_record ie crc wr lw r = add_record_loop ie crc wr lw r True (Inr 0)"

record 'r log_reader =
  src :: 'r
  blk_off :: nat
  blocksize :: nat
  head_scratch :: bytes
  checksums :: bool

definition log_reader_new :: "'r \<Rightarrow> bool \<Rightarrow> 'r log_reader" where
  "log_reader_new r chksum =
     \<lparr>src = r, blk_off = 0, blocksize = BLOCK_SIZE, head_scratch = replicate 7 0, checksums = chksum\<rparr>"

definition check_integrity :: "(bytes \<Rightarrow> u32) \<Rightarrow> byte \<Rightarrow> bytes \<Rightarrow> u32 \<Rightarrow> bool" where
  "check_integrity crc typ data expected \<longleftrightarrow> unmask_crc expected = crc (typ # data)"

text \<open>
  The skip to the next block at the head of the reader's loop, and one pass of the loop after it:
  it ends the read (\<open>Inl\<close>, with the result) or goes on with the record assembled so far (\<open>Inr\<close>).
\<close>

definition skip_to_next_block ::
    "'r read_fun \<Rightarrow> 'r log_reader \<Rightarrow> ('r log_reader \<times> unit result) run" where
  "skip_to_next_block rd lr =
     do {
       space \<leftarrow> usub (blocksize lr) (blk_off lr);
       if space < HEADER_SIZE then
         do { (r, got) \<leftarrow> read_exact rd (src lr) space;
              Some (case got of
                Inl e \<Rightarrow> (lr\<lparr>src := r\<rparr>, Inl e)
              | Inr bs \<Rightarrow> (lr\<lparr>src := r, blk_off := 0,
                              head_scratch := overwrite 0 bs (head_scratch lr)\<rparr>, Inr ())) }
       else Some (lr, Inr ())
     }"

definition read_fragment ::
    "int_codec \<Rightarrow> (bytes \<Rightarrow> u32) \<Rightarrow> 'r read_fun \<Rightarrow> 'r log_reader \<Rightarrow> bytes \<Rightarrow> nat
     \<Rightarrow> ('r log_reader \<times> bytes \<times> (nat result + nat)) run" where
  "read_fragment ie crc rd lr out dst_offset =
     (case rd (src lr) 7 of
        (r, Inl e) \<Rightarrow> Some (lr\<lparr>src := r\<rparr>, out, Inl (Inl e))
      | (r, Inr got) \<Rightarrow>
          let lr = lr\<lparr>src := r, head_scratch := overwrite 0 got (head_scratch lr)\<rparr> in
          if length got = 0 then Some (lr, out, Inl (Inr 0))
          else do {
            let lr = lr\<lparr>blk_off := blk_off lr + length got\<rparr>;
            ck \<leftarrow> slice_range 0 4 (head_scratch lr);
            le \<leftarrow> slice_range 4 6 (head_scratch lr);
            typ \<leftarrow> index (head_scratch lr) 6;
            let checksum = decode_fixed32 ie ck;
            let len = unat (decode_fixed16 ie le);
            let out = resize (dst_offset + len) 0 out;
            (case rd (src lr) len of
               (r, Inl e) \<Rightarrow> Some (lr\<lparr>src := r\<rparr>, out, Inl (Inl e))
             | (r, Inr data) \<Rightarrow>
                 let lr = lr\<lparr>src := r, blk_off := blk_off lr + length data\<rparr>;
                     out = overwrite dst_offset data out
                 in if checksums lr \<and> \<not> check_integrity crc typ data checksum
                    then Some (lr, out, Inl (err Corruption ''Invalid Checksum''))
                    else if typ = record_type_code Full \<or> typ = record_type_code Last
                    then Some (lr, out, Inl (Inr (dst_offset + len)))
                    else Some (lr, out, Inr (dst_offset + len)))
          })"

partial_function (option) read_loop ::
    "int_codec \<Rightarrow> (bytes \<Rightarrow> u32) \<Rightarrow> 'r read_fun \<Rightarrow> 'r log_reader \<Rightarrow> bytes \<Rightarrow> nat
     \<Rightarrow> ('r log_reader \<times> bytes \<times> nat result) option" where
  "read_loop ie crc rd lr out dst_offset =
     do {
       (lr, skipped) \<leftarrow> skip_to_next_block rd lr;
       if is_ok skipped then
         do {
           (lr, out, outcome) \<leftarrow> read_fragment ie crc rd lr out dst_offset;
           (case outcome of
              Inl result \<Rightarrow> Some (lr, out, result)
            | Inr off \<Rightarrow> read_loop ie crc rd lr out off)
         }
       else Some (lr, out, map_sum id (\<lambda>_. 0) skipped)
     }"

definition log_read ::
    "int_codec \<Rightarrow> (bytes \<Rightarrow> u32) \<Rightarrow> 'r read_fun \<Rightarrow> 'r log_reader \<Rightarrow> ('r log_reader \<times> bytes \<times> nat result) run"
where
  "log_read ie crc rd lr = read_loop ie crc rd lr [] 0"


section \<open>Checksum masks\<close>

text \<open>The two shifts rotate by 15 bits, the two shifts of the inverse rotate back.\<close>

lemma unmask_mask [simp]: "unmask_crc (mask_crc c) = c"
proof -
  have "drop_bit 17 (drop_bit 15 c OR push_bit 17 c) OR push_bit 15 (drop_bit 15 c OR push_bit 17 c) = c"
  proof (rule bit_word_eqI)
    fix n
    assume "n < LENGTH(32)"
    then show "bit (drop_bit 17 (drop_bit 15 c OR push_bit 17 c) OR
        push_bit 15 (drop_bit 15 c OR push_bit 17 c)) n = bit c n"
      by (cases "n < 15") (auto simp: bit_simps)
  qed
  then show ?thesis by (simp add: unmask_crc_def mask_crc_def Let_def)
qed


section \<open>The format of the log\<close>

text \<open>
  The bytes of one fragment, and the bytes of a record that starts at an offset of a block together
  with the offset after it. This is the format itself; the writer and the reader are compared with it.
\<close>

definition fragment :: "int_codec \<Rightarrow> (bytes \<Rightarrow> u32) \<Rightarrow> record_type \<Rightarrow> bytes \<Rightarrow> bytes" where
  "fragment ie crc t data =
     encode_fixed32 ie (mask_crc (crc (record_type_code t # data))) @
     encode_fixed16 ie (of_nat (length data)) @ [record_type_code t] @ data"

definition frame_pad :: "nat \<Rightarrow> nat \<Rightarrow> nat" where
  "frame_pad bsz off = (if bsz - off < HEADER_SIZE then bsz - off else 0)"

definition frame_start :: "nat \<Rightarrow> nat \<Rightarrow> nat" where
  "frame_start bsz off = (if bsz - off < HEADER_SIZE then 0 else off)"

definition frame_len :: "nat \<Rightarrow> nat \<Rightarrow> bytes \<Rightarrow> nat" where
  "frame_len bsz off data = min (length data) (bsz - frame_start bsz off - HEADER_SIZE)"

definition frame_next :: "nat \<Rightarrow> nat \<Rightarrow> bytes \<Rightarrow> nat" where
  "frame_next bsz off data = frame_start bsz off + HEADER_SIZE + frame_len bsz off data"

lemmas frame_defs = frame_pad_def frame_start_def frame_len_def frame_next_def HEADER_SIZE_def

function frames ::
    "int_codec \<Rightarrow> (bytes \<Rightarrow> u32) \<Rightarrow> nat \<Rightarrow> nat \<Rightarrow> bytes \<Rightarrow> bool \<Rightarrow> bytes \<times> nat" where
  "frames ie crc bsz off data first =
     (if data = [] \<or> bsz \<le> HEADER_SIZE then ([], off)
      else
        let n = frame_len bsz off data;
            r = frames ie crc bsz (frame_next bsz off data) (drop n data) False
        in (replicate (frame_pad bsz off) 0 @
              fragment ie crc (fragment_type first (n = length data)) (take n data) @ fst r,
            snd r))"
  by pat_completeness auto
termination
  by (relation "measures [\<lambda>(_, _, _, _, data, _). length data,
      \<lambda>(_, _, bsz, off, _, _). if bsz - off = HEADER_SIZE then 1 else 0]")
    (auto simp: frame_defs min_def split: if_splits)

declare frames.simps [simp del]

lemma frames_Nil [simp]: "frames ie crc bsz off [] first = ([], off)"
  by (simp add: frames.simps)

lemma frames_step:
  assumes "data \<noteq> []" "HEADER_SIZE < bsz"
  shows "frames ie crc bsz off data first = (let n = frame_len bsz off data;
      r = frames ie crc bsz (frame_next bsz off data) (drop n data) False in
      (replicate (frame_pad bsz off) 0 @
       fragment ie crc (fragment_type first (n = length data)) (take n data) @ fst r, snd r))"
  using assms by (subst frames.simps) simp

lemma frames_induct [consumes 1, case_names Nil step]:
  assumes "HEADER_SIZE < bsz"
    and "\<And>off first. P off [] first"
    and "\<And>off data first. data \<noteq> [] \<Longrightarrow>
      P (frame_next bsz off data) (drop (frame_len bsz off data) data) False \<Longrightarrow> P off data first"
  shows "P off data first"
proof -
  have "bsz' = bsz \<Longrightarrow> P off data first" for bsz' and ie :: int_codec and crc :: "bytes \<Rightarrow> u32"
  proof (induction ie crc bsz' off data first rule: frames.induct)
    case (1 ie crc bsz' off data first)
    then show ?case using assms by (cases "data = []") auto
  qed
  then show ?thesis by blast
qed

lemma frames_offset:
  assumes "HEADER_SIZE < bsz" "off \<le> bsz"
  shows "snd (frames ie crc bsz off data first) \<le> bsz"
  using assms
proof (induction off data first rule: frames_induct)
  case (step off data first)
  moreover have "frame_next bsz off data \<le> bsz"
    using step assms(1) by (auto simp: frame_defs)
  ultimately show ?case using assms(1) by (simp add: frames_step Let_def)
qed simp

lemma length_fragment [simp]:
  "integer_encoding ie \<Longrightarrow> length (fragment ie crc t data) = HEADER_SIZE + length data"
  by (simp add: fragment_def HEADER_SIZE_def integer_encoding.codec_laws)


section \<open>The writer writes the format\<close>

definition log_writer_wf :: "'w log_writer \<Rightarrow> bool" where
  "log_writer_wf lw \<longleftrightarrow> HEADER_SIZE < block_size lw \<and> block_size lw \<le> 65535 + HEADER_SIZE
     \<and> current_block_offset lw \<le> block_size lw"

context byte_sink
begin

lemma write_seq_ok:
  obtains w' where "write_seq wr w bss s = (w', Inr (s + length (concat bss)))"
    "contents w' = contents w @ concat bss"
proof (induction bss arbitrary: w s thesis)
  case Nil
  then show ?case by simp
next
  case (Cons b bss)
  obtain w1 where w1: "wr w b = (w1, Inr (length b))" "contents w1 = contents w @ b"
    by (rule write_cases)
  obtain w' where "write_seq wr w1 bss (s + length b) = (w', Inr (s + length b + length (concat bss)))"
      "contents w' = contents w1 @ concat bss"
    by (rule Cons.IH)
  with w1 show ?case by (intro Cons.prems [of w']) (simp_all add: add.assoc)
qed

lemma emit_record_ok:
  assumes "integer_encoding ie" "len \<le> length data" "len < 65536"
  obtains w' where "emit_record ie crc wr lw t data len = Some (lw\<lparr>dst := w',
      current_block_offset := current_block_offset lw + HEADER_SIZE + len\<rparr>, Inr (HEADER_SIZE + len))"
    "contents w' = contents (dst lw) @ fragment ie crc t (take len data)"
proof -
  let ?parts = "[encode_fixed32 ie (mask_crc (crc (record_type_code t # take len data))),
      encode_fixed16 ie (of_nat len), [record_type_code t], take len data]"
  obtain w' where w': "write_seq wr (dst lw) ?parts 0 = (w', Inr (0 + length (concat ?parts)))"
      "contents w' = contents (dst lw) @ concat ?parts"
    by (rule write_seq_ok)
  have len: "length (concat ?parts) = HEADER_SIZE + len"
    using assms(2) integer_encoding.codec_laws [OF assms(1)] by (simp add: HEADER_SIZE_def)
  show ?thesis
  proof (rule that [of w'])
    show "emit_record ie crc wr lw t data len = Some (lw\<lparr>dst := w',
        current_block_offset := current_block_offset lw + HEADER_SIZE + len\<rparr>, Inr (HEADER_SIZE + len))"
      using assms(2,3) w'(1) unfolding len
      by (simp add: emit_record_def slice_range_def add.assoc)
    show "contents w' = contents (dst lw) @ fragment ie crc t (take len data)"
      using w'(2) assms(2) by (simp add: fragment_def min_absorb2)
  qed
qed

lemma add_record_step:
  assumes "integer_encoding ie" "log_writer_wf lw" "data \<noteq> []"
  defines "b \<equiv> block_size lw" and "off \<equiv> current_block_offset lw"
  defines "n \<equiv> frame_len b off data"
  obtains lw' where "add_record_loop ie crc wr lw data first (Inr m) =
      add_record_loop ie crc wr lw' (drop n data) False (Inr (HEADER_SIZE + n))"
    "block_size lw' = b" "current_block_offset lw' = frame_next b off data"
    "contents (dst lw') = contents (dst lw) @ replicate (frame_pad b off) 0 @
      fragment ie crc (fragment_type first (n = length data)) (take n data)"
proof -
  let ?t = "fragment_type first (n = length data)"
  have wf: "HEADER_SIZE < b" "b \<le> 65535 + HEADER_SIZE" "off \<le> b"
    using assms(2) by (simp_all add: log_writer_wf_def b_def off_def)
  have n: "n \<le> length data" "n < 65536"
      "n = (if length data < b - frame_start b off - HEADER_SIZE then length data
            else b - frame_start b off - HEADER_SIZE)"
    using wf by (auto simp: n_def frame_defs min_def)
  define pad where "pad = (if b - off < HEADER_SIZE then take (b - off) [0, 0, 0, 0, 0, 0] else [] :: bytes)"
  have pad: "pad = replicate (frame_pad b off) 0"
    by (auto simp: pad_def frame_pad_def HEADER_SIZE_def less_Suc_eq numeral_eq_Suc)
  obtain w1 where w1: "write_all wr (dst lw) pad = Some (w1, Inr ())"
      "contents w1 = contents (dst lw) @ pad"
    by (rule write_all_ok)
  define lw1 where "lw1 = (if b - off < HEADER_SIZE then lw\<lparr>dst := w1, current_block_offset := 0\<rparr> else lw)"
  have lw1: "block_size lw1 = b" "current_block_offset lw1 = frame_start b off"
      "contents (dst lw1) = contents (dst lw) @ pad"
    using w1 by (auto simp: lw1_def b_def off_def frame_start_def pad_def)
  obtain w2 where w2: "emit_record ie crc wr lw1 ?t data n = Some (lw1\<lparr>dst := w2,
        current_block_offset := current_block_offset lw1 + HEADER_SIZE + n\<rparr>, Inr (HEADER_SIZE + n))"
      "contents w2 = contents (dst lw1) @ fragment ie crc ?t (take n data)"
    by (rule emit_record_ok [OF assms(1) n(1,2)])
  let ?lw2 = "lw1\<lparr>dst := w2, current_block_offset := current_block_offset lw1 + HEADER_SIZE + n\<rparr>"
  have "add_record_loop ie crc wr lw data first (Inr m) =
      add_record_loop ie crc wr ?lw2 (drop n data) False (Inr (HEADER_SIZE + n))"
  proof (cases "b - off < HEADER_SIZE")
    case True
    then have "(if length data < b - HEADER_SIZE then length data else b - HEADER_SIZE) = n"
      using n(3) by (simp add: frame_start_def)
    with True show ?thesis
      using assms(3) wf w1(1) w2(1) lw1(1,2)
      by (subst add_record_loop.simps)
        (simp add: usub_def lw1_def pad_def frame_start_def Let_def flip: b_def off_def)
  next
    case False
    then have "(if length data < b - (off + HEADER_SIZE) then length data
        else b - (off + HEADER_SIZE)) = n"
      using n(3) by (simp add: frame_start_def)
    with False show ?thesis
      using assms(3) wf w2(1) lw1(1,2)
      by (subst add_record_loop.simps)
        (simp add: usub_def lw1_def pad_def frame_start_def Let_def flip: b_def off_def)
  qed
  then show ?thesis
    using that [of ?lw2] lw1 w2(2) by (simp add: pad frame_next_def n_def)
qed

lemma add_record_loop_frames:
  assumes "integer_encoding ie" "log_writer_wf lw"
  shows "\<exists>lw' n. add_record_loop ie crc wr lw data first (Inr m) = Some (lw', Inr n) \<and>
    block_size lw' = block_size lw \<and>
    contents (dst lw') = contents (dst lw) @
      fst (frames ie crc (block_size lw) (current_block_offset lw) data first) \<and>
    current_block_offset lw' = snd (frames ie crc (block_size lw) (current_block_offset lw) data first)"
proof -
  have b: "HEADER_SIZE < block_size lw" using assms(2) by (simp add: log_writer_wf_def)
  from b have "\<forall>lw' m. log_writer_wf lw' \<and> block_size lw' = block_size lw \<and> current_block_offset lw' = off
      \<longrightarrow> (\<exists>lw'' n. add_record_loop ie crc wr lw' data first (Inr m) = Some (lw'', Inr n) \<and>
        block_size lw'' = block_size lw \<and>
        contents (dst lw'') = contents (dst lw') @ fst (frames ie crc (block_size lw) off data first) \<and>
        current_block_offset lw'' = snd (frames ie crc (block_size lw) off data first))" for off
  proof (induction off data first rule: frames_induct)
    case (Nil off first)
    then show ?case by (auto simp: add_record_loop.simps)
  next
    case (step off data first)
    show ?case
    proof (intro allI impI, elim conjE)
      fix lw0 :: "'w log_writer" and m
      assume lw0: "log_writer_wf lw0" "block_size lw0 = block_size lw" "current_block_offset lw0 = off"
      let ?n = "frame_len (block_size lw) off data"
      obtain lw1 where lw1: "add_record_loop ie crc wr lw0 data first (Inr m) =
          add_record_loop ie crc wr lw1 (drop ?n data) False (Inr (HEADER_SIZE + ?n))"
        "block_size lw1 = block_size lw" "current_block_offset lw1 = frame_next (block_size lw) off data"
        "contents (dst lw1) = contents (dst lw0) @ replicate (frame_pad (block_size lw) off) 0 @
          fragment ie crc (fragment_type first (?n = length data)) (take ?n data)"
        using add_record_step [OF assms(1) lw0(1) step(1), of crc first m] lw0(2,3) by auto
      have "log_writer_wf lw1"
        using lw0 lw1(2,3) by (auto simp: log_writer_wf_def frame_defs)
      then show "\<exists>lw'' n. add_record_loop ie crc wr lw0 data first (Inr m) = Some (lw'', Inr n) \<and>
          block_size lw'' = block_size lw \<and>
          contents (dst lw'') = contents (dst lw0) @ fst (frames ie crc (block_size lw) off data first) \<and>
          current_block_offset lw'' = snd (frames ie crc (block_size lw) off data first)"
        using step(2) [rule_format, of lw1 "HEADER_SIZE + ?n"] lw1
        by (auto simp: frames_step [OF step(1) b] Let_def)
    qed
  qed
  then show ?thesis using assms(2) by simp
qed

end


section \<open>The reader reads the format\<close>

definition log_reader_wf :: "'r log_reader \<Rightarrow> bool" where
  "log_reader_wf lr \<longleftrightarrow> HEADER_SIZE < blocksize lr \<and> blocksize lr \<le> 65535 + HEADER_SIZE
     \<and> blk_off lr \<le> blocksize lr \<and> length (head_scratch lr) = 7"

lemma overwrite_full: "length bs = length xs \<Longrightarrow> overwrite 0 bs xs = bs"
  by (simp add: overwrite_def)

lemma overwrite_resized: "length data = n \<Longrightarrow> overwrite (length out) data (resize (length out + n) 0 out) = out @ data"
  by (simp add: overwrite_def resize_def)

context byte_source
begin

lemma skip_ok:
  assumes "log_reader_wf lr"
    and "remaining (src lr) = replicate (frame_pad (blocksize lr) (blk_off lr)) 0 @ rest"
  obtains lr' where "skip_to_next_block rd lr = Some (lr', Inr ())" "log_reader_wf lr'"
    "remaining (src lr') = rest" "blocksize lr' = blocksize lr" "checksums lr' = checksums lr"
    "blk_off lr' = frame_start (blocksize lr) (blk_off lr)"
proof (cases "blocksize lr - blk_off lr < HEADER_SIZE")
  case True
  let ?n = "blocksize lr - blk_off lr"
  obtain r where r: "read_exact rd (src lr) ?n = Some (r, Inr (replicate ?n 0))" "remaining r = rest"
    using read_exact_ok [of ?n "src lr"] True assms(2) by (auto simp: frame_pad_def)
  show ?thesis
    using assms(1) True r
    by (intro that [of "lr\<lparr>src := r, blk_off := 0,
          head_scratch := overwrite 0 (replicate ?n 0) (head_scratch lr)\<rparr>"])
      (auto simp: skip_to_next_block_def log_reader_wf_def usub_def frame_start_def HEADER_SIZE_def)
next
  case False
  with assms show ?thesis
    by (intro that [of lr])
      (auto simp: skip_to_next_block_def log_reader_wf_def usub_def frame_pad_def frame_start_def)
qed

lemma read_fragment_ok:
  assumes "integer_encoding ie" "length (head_scratch lr) = 7"
    "remaining (src lr) = fragment ie crc t data @ rest" "length data < 65536"
  obtains lr' where "read_fragment ie crc rd lr out (length out) = Some (lr', out @ data,
      if t = Full \<or> t = Last then Inl (Inr (length out + length data))
      else Inr (length out + length data))"
    "remaining (src lr') = rest" "blocksize lr' = blocksize lr" "checksums lr' = checksums lr"
    "blk_off lr' = blk_off lr + HEADER_SIZE + length data" "length (head_scratch lr') = 7"
proof -
  note laws = integer_encoding.codec_laws [OF assms(1)]
  let ?c = "encode_fixed32 ie (mask_crc (crc (record_type_code t # data)))"
  let ?l = "encode_fixed16 ie (of_nat (length data))"
  let ?h = "?c @ ?l @ [record_type_code t]"
  have len: "unat (of_nat (length data) :: u16) = length data"
    using assms(4) by (simp add: unat_of_nat)
  have frag: "fragment ie crc t data = ?h @ data" "length ?h = 7"
    by (simp_all add: fragment_def laws)
  obtain r1 where r1: "rd (src lr) 7 = (r1, Inr ?h)" "remaining r1 = data @ rest"
    using read_ok [of "src lr" 7] assms(3) frag by auto
  obtain r2 where r2: "rd r1 (length data) = (r2, Inr data)" "remaining r2 = rest"
    using read_ok [of r1 "length data"] r1(2) by auto
  have hd: "slice_range 0 4 ?h = Some ?c" "slice_range 4 6 ?h = Some ?l" "index ?h 6 = Some (record_type_code t)"
    using laws by (simp_all add: slice_range_def index_def nth_append)
  have codes: "record_type_code t = record_type_code Full \<longleftrightarrow> t = Full"
      "record_type_code t = record_type_code Last \<longleftrightarrow> t = Last"
    by (cases t; simp)+
  have hs: "overwrite 0 ?h (head_scratch lr) = ?h" using assms(2) frag(2) by (simp only: overwrite_full)
  show ?thesis
    using r1 r2 hd frag(2) assms(2)
    by (intro that [of "lr\<lparr>src := r2, blk_off := blk_off lr + HEADER_SIZE + length data, head_scratch := ?h\<rparr>"])
      (simp_all add: read_fragment_def hs len laws codes check_integrity_def overwrite_resized
        HEADER_SIZE_def Let_def del: record_type_code.simps)
qed

lemma read_loop_frames:
  assumes "integer_encoding ie" "log_reader_wf lr" "data \<noteq> []"
    "remaining (src lr) = fst (frames ie crc (blocksize lr) (blk_off lr) data first) @ rest"
  shows "\<exists>lr'. read_loop ie crc rd lr out (length out) = Some (lr', out @ data, Inr (length out + length data)) \<and>
    log_reader_wf lr' \<and> remaining (src lr') = rest \<and> blocksize lr' = blocksize lr \<and>
    blk_off lr' = snd (frames ie crc (blocksize lr) (blk_off lr) data first)"
proof -
  define b where "b = blocksize lr"
  have b: "HEADER_SIZE < b" using assms(2) by (simp add: log_reader_wf_def b_def)
  from b have "\<lbrakk>data \<noteq> []; log_reader_wf lr; blocksize lr = b; blk_off lr = off;
      remaining (src lr) = fst (frames ie crc b off data first) @ rest\<rbrakk>
    \<Longrightarrow> \<exists>lr'. read_loop ie crc rd lr out (length out) = Some (lr', out @ data, Inr (length out + length data)) \<and>
      log_reader_wf lr' \<and> remaining (src lr') = rest \<and> blocksize lr' = b \<and>
      blk_off lr' = snd (frames ie crc b off data first)" for off out lr
  proof (induction off data first arbitrary: lr out rule: frames_induct)
    case (step off data first)
    let ?n = "frame_len b off data" and ?next = "frame_next b off data"
    let ?t = "fragment_type first (?n = length data)"
    let ?fs = "frames ie crc b ?next (drop ?n data) False"
    have wf: "off \<le> b" "b \<le> 65535 + HEADER_SIZE" using step.prems by (auto simp: log_reader_wf_def)
    have n: "?n \<le> length data" "?n < 65536" using wf by (auto simp: frame_defs)
    have nxt: "?next \<le> b" using wf b by (auto simp: frame_defs)
    have rem: "remaining (src lr) = replicate (frame_pad b off) 0 @ fragment ie crc ?t (take ?n data) @ fst ?fs @ rest"
      using step.prems by (simp add: frames_step [OF step(1) b] Let_def)
    obtain lr1 where lr1: "skip_to_next_block rd lr = Some (lr1, Inr ())" "log_reader_wf lr1"
        "remaining (src lr1) = fragment ie crc ?t (take ?n data) @ fst ?fs @ rest"
        "blocksize lr1 = b" "blk_off lr1 = frame_start b off"
      using skip_ok [OF step.prems(2)] rem step.prems(3,4) by blast
    have take: "length (take ?n data) = ?n" "length (take ?n data) < 65536" using n by simp_all
    have hs: "length (head_scratch lr1) = 7" using lr1(2) by (simp add: log_reader_wf_def)
    obtain lr2 where lr2: "read_fragment ie crc rd lr1 out (length out) = Some (lr2, out @ take ?n data,
          if ?t = Full \<or> ?t = Last then Inl (Inr (length out + ?n)) else Inr (length out + ?n))"
        "remaining (src lr2) = fst ?fs @ rest" "blocksize lr2 = b" "blk_off lr2 = ?next"
        "length (head_scratch lr2) = 7"
      by (rule read_fragment_ok [OF assms(1) hs lr1(3) take(2), of out, unfolded take(1) lr1(4,5)])
        (simp add: frame_next_def)
    have wf2: "log_reader_wf lr2" using lr2(3-5) nxt wf(2) b by (simp add: log_reader_wf_def)
    have unfold: "read_loop ie crc rd lr out (length out) =
        (if ?t = Full \<or> ?t = Last then Some (lr2, out @ take ?n data, Inr (length out + ?n))
         else read_loop ie crc rd lr2 (out @ take ?n data) (length out + ?n))"
      using lr1(1) lr2(1) by (subst read_loop.simps) simp
    have t: "?t = Full \<or> ?t = Last \<longleftrightarrow> ?n = length data" by (simp add: fragment_type_def)
    show ?case
    proof (cases "?n = length data")
      case True
      then show ?thesis
        using unfold t lr2 wf2 by (simp add: frames_step [OF step(1) b] Let_def)
    next
      case False
      then have "drop ?n data \<noteq> []" using n(1) by simp
      from step.IH [OF this wf2 lr2(3,4,2), of "out @ take ?n data"]
      show ?thesis
        using unfold t False n(1) by (auto simp: frames_step [OF step(1) b] Let_def min_absorb2)
    qed
  qed simp
  then show ?thesis using assms by (simp add: b_def)
qed

end


section \<open>Whole logs\<close>

text \<open>A sequence of records written one after the other, and a number of records read in sequence.\<close>

fun add_records ::
    "int_codec \<Rightarrow> (bytes \<Rightarrow> u32) \<Rightarrow> 'w write_fun \<Rightarrow> 'w log_writer \<Rightarrow> bytes list \<Rightarrow> 'w log_writer run" where
  "add_records ie crc wr lw [] = Some lw"
| "add_records ie crc wr lw (r # rs) =
     do { (lw, res) \<leftarrow> add_record ie crc wr lw r; ensure (is_ok res); add_records ie crc wr lw rs }"

fun read_records ::
    "int_codec \<Rightarrow> (bytes \<Rightarrow> u32) \<Rightarrow> 'r read_fun \<Rightarrow> 'r log_reader \<Rightarrow> nat \<Rightarrow> ('r log_reader \<times> bytes list) run"
where
  "read_records ie crc rd lr 0 = Some (lr, [])"
| "read_records ie crc rd lr (Suc n) =
     do { (lr, r, res) \<leftarrow> log_read ie crc rd lr;
          ensure (res = Inr (length r));
          (lr, rs) \<leftarrow> read_records ie crc rd lr n;
          Some (lr, r # rs) }"

fun log_image ::
    "int_codec \<Rightarrow> (bytes \<Rightarrow> u32) \<Rightarrow> nat \<Rightarrow> nat \<Rightarrow> bytes list \<Rightarrow> bytes \<times> nat" where
  "log_image ie crc b off [] = ([], off)"
| "log_image ie crc b off (r # rs) =
     (let (x, off) = frames ie crc b off r True; (y, off) = log_image ie crc b off rs in (x @ y, off))"

context byte_sink
begin

lemma add_record_frames:
  assumes "integer_encoding ie" "log_writer_wf lw"
  obtains lw' n where "add_record ie crc wr lw r = Some (lw', Inr n)" "log_writer_wf lw'"
    "block_size lw' = block_size lw"
    "contents (dst lw') = contents (dst lw) @
      fst (frames ie crc (block_size lw) (current_block_offset lw) r True)"
    "current_block_offset lw' = snd (frames ie crc (block_size lw) (current_block_offset lw) r True)"
  using add_record_loop_frames [OF assms, of crc r True 0] assms(2) frames_offset
  by (auto simp: add_record_def log_writer_wf_def)

lemma add_records_image:
  assumes "integer_encoding ie" "log_writer_wf lw"
  shows "\<exists>lw'. add_records ie crc wr lw rs = Some lw' \<and> log_writer_wf lw' \<and>
    block_size lw' = block_size lw \<and>
    contents (dst lw') = contents (dst lw) @
      fst (log_image ie crc (block_size lw) (current_block_offset lw) rs) \<and>
    current_block_offset lw' = snd (log_image ie crc (block_size lw) (current_block_offset lw) rs)"
  using assms(2)
proof (induction rs arbitrary: lw)
  case (Cons r rs)
  obtain lw1 n where lw1: "add_record ie crc wr lw r = Some (lw1, Inr n)" "log_writer_wf lw1"
    "block_size lw1 = block_size lw"
    "contents (dst lw1) = contents (dst lw) @
      fst (frames ie crc (block_size lw) (current_block_offset lw) r True)"
    "current_block_offset lw1 = snd (frames ie crc (block_size lw) (current_block_offset lw) r True)"
    by (rule add_record_frames [OF assms(1) Cons.prems])
  from Cons.IH [OF lw1(2)] lw1 show ?case by (auto split: prod.splits)
qed simp

end

context byte_source
begin

lemma read_records_image:
  assumes "integer_encoding ie" "log_reader_wf lr" "\<forall>r \<in> set rs. r \<noteq> []"
    "remaining (src lr) = fst (log_image ie crc (blocksize lr) (blk_off lr) rs) @ rest"
  shows "\<exists>lr'. read_records ie crc rd lr (length rs) = Some (lr', rs) \<and> log_reader_wf lr' \<and>
    remaining (src lr') = rest \<and> blocksize lr' = blocksize lr \<and>
    blk_off lr' = snd (log_image ie crc (blocksize lr) (blk_off lr) rs)"
  using assms(2-)
proof (induction rs arbitrary: lr)
  case (Cons r rs)
  obtain x off y off' where im: "frames ie crc (blocksize lr) (blk_off lr) r True = (x, off)"
      "log_image ie crc (blocksize lr) off rs = (y, off')"
    by fastforce
  obtain lr1 where lr1: "log_read ie crc rd lr = Some (lr1, r, Inr (length r))" "log_reader_wf lr1"
      "remaining (src lr1) = y @ rest" "blocksize lr1 = blocksize lr" "blk_off lr1 = off"
    using read_loop_frames [OF assms(1) Cons.prems(1), of r crc True "y @ rest" "[]"] Cons.prems im
    by (auto simp: log_read_def)
  from Cons.IH [OF lr1(2)] Cons.prems lr1 im show ?case by auto
qed simp

lemma read_eof:
  assumes "log_reader_wf lr" "remaining (src lr) = []"
  shows "\<exists>lr' res. log_read ie crc rd lr = Some (lr', [], res) \<and>
    (res = Inr 0 \<longleftrightarrow> HEADER_SIZE \<le> blocksize lr - blk_off lr \<or> blk_off lr = blocksize lr) \<and>
    (is_ok res \<longrightarrow> res = Inr 0)"
proof (cases "HEADER_SIZE \<le> blocksize lr - blk_off lr \<or> blk_off lr = blocksize lr")
  case True
  then have "frame_pad (blocksize lr) (blk_off lr) = 0" by (auto simp: frame_pad_def)
  then obtain lr1 where lr1: "skip_to_next_block rd lr = Some (lr1, Inr ())" "remaining (src lr1) = []"
    using skip_ok [OF assms(1), of "[]"] assms(2) by auto
  then obtain r where "rd (src lr1) 7 = (r, Inr [])" using read_ok [of "src lr1" 7] by auto
  with lr1 True show ?thesis by (simp add: log_read_def read_loop.simps read_fragment_def)
next
  case False
  let ?n = "blocksize lr - blk_off lr"
  have n: "0 < ?n" "?n < HEADER_SIZE" using False assms(1) by (auto simp: log_reader_wf_def)
  then obtain r e where "read_exact rd (src lr) ?n = Some (r, Inl e)"
    using read_exact_eof [of "src lr" ?n] assms(2) by auto
  with n False assms(1) show ?thesis
    by (simp add: log_read_def read_loop.simps skip_to_next_block_def usub_def log_reader_wf_def)
qed

end


lemma new_writer_wf [simp]: "log_writer_wf (log_writer_new w)" "log_writer_wf (log_writer_new_with_off w n)"
  and new_reader_wf [simp]: "log_reader_wf (log_reader_new r c)"
  by (simp_all add: log_writer_wf_def log_writer_new_def log_writer_new_with_off_def log_reader_wf_def
      log_reader_new_def HEADER_SIZE_def BLOCK_SIZE_def less_imp_le)

lemma new_log_sel [simp]:
  "block_size (log_writer_new w) = BLOCK_SIZE" "current_block_offset (log_writer_new w) = 0"
  "dst (log_writer_new w) = w" "block_size (log_writer_new_with_off w n) = BLOCK_SIZE"
  "current_block_offset (log_writer_new_with_off w n) = n mod BLOCK_SIZE"
  "dst (log_writer_new_with_off w n) = w" "blocksize (log_reader_new r c) = BLOCK_SIZE"
  "blk_off (log_reader_new r c) = 0" "src (log_reader_new r c) = r"
  by (simp_all add: log_writer_new_def log_writer_new_with_off_def log_reader_new_def)

text \<open>C7: Whatever non-empty records are written to a new log, of any length and with any fragmentation
  over blocks, the writer succeeds and a reader that verifies checksums reads exactly these
  records back, in order, and consumes the whole log.\<close>

theorem log_roundtrip:
  assumes "integer_encoding ie" "\<forall>r \<in> set rs. r \<noteq> []"
  shows "\<exists>lw lr. add_records ie crc vec_write (log_writer_new []) rs = Some lw \<and>
    read_records ie crc slice_read (log_reader_new (dst lw) True) (length rs) = Some (lr, rs) \<and>
    src lr = []"
proof -
  obtain lw where lw: "add_records ie crc vec_write (log_writer_new []) rs = Some lw"
      "dst lw = fst (log_image ie crc BLOCK_SIZE 0 rs)"
    using vec.add_records_image [OF assms(1) new_writer_wf(1) [of "[]"], of crc rs] by auto
  then show ?thesis
    using slice.read_records_image [OF assms(1) new_reader_wf [of "dst lw" True] assms(2), of crc "[]"]
    by auto
qed

theorem log_roundtrip_witness:
  "\<exists>lw lr. add_records wire_codec (\<lambda>_. 7) vec_write (log_writer_new []) [[1, 2, 3], [4]] = Some lw \<and>
    read_records wire_codec (\<lambda>_. 7) slice_read (log_reader_new (dst lw) True) 2 = Some (lr, [[1, 2, 3], [4]])"
  using log_roundtrip [OF wire.integer_encoding_axioms, of "[[1, 2, 3], [4]]" "\<lambda>_. 7"]
  by (auto simp: numeral_2_eq_2)

lemma frames_length_mod:
  assumes "integer_encoding ie" "HEADER_SIZE < b" "off \<le> b"
  shows "(off + length (fst (frames ie crc b off data first))) mod b
    = snd (frames ie crc b off data first) mod b"
  using assms(2,3)
proof (induction off data first rule: frames_induct)
  case (step off data first)
  let ?n = "frame_len b off data" and ?next = "frame_next b off data"
  let ?r = "frames ie crc b ?next (drop ?n data) False"
  have nxt: "?next \<le> b" using step.prems assms(2) by (auto simp: frame_defs)
  have n: "length (take ?n data) = ?n" by (simp add: frame_len_def)
  have "(off + (frame_pad b off + (HEADER_SIZE + ?n))) mod b = ?next mod b"
    using step.prems by (auto simp: frame_pad_def frame_start_def frame_next_def add.assoc)
  then have "(off + (frame_pad b off + (HEADER_SIZE + ?n)) + length (fst ?r)) mod b
      = (?next + length (fst ?r)) mod b"
    by (metis mod_add_left_eq)
  then show ?case
    using step.IH [OF nxt] n by (simp add: frames_step [OF step(1) assms(2)] Let_def
        length_fragment [OF assms(1)] add.assoc)
qed simp

lemma log_image_mod:
  assumes "integer_encoding ie" "HEADER_SIZE < b" "off \<le> b"
  shows "(off + length (fst (log_image ie crc b off rs))) mod b = snd (log_image ie crc b off rs) mod b"
  using assms(3)
proof (induction rs arbitrary: off)
  case (Cons r rs)
  obtain x o1 where x: "frames ie crc b off r True = (x, o1)" by fastforce
  have o1: "o1 \<le> b" "(off + length x) mod b = o1 mod b"
    using frames_offset [OF assms(2) Cons.prems, of ie crc r True]
      frames_length_mod [OF assms(1,2) Cons.prems, of crc r True] x by simp_all
  have "(off + length x + length (fst (log_image ie crc b o1 rs))) mod b =
      (o1 + length (fst (log_image ie crc b o1 rs))) mod b"
    using o1(2) by (metis mod_add_left_eq)
  then show ?case using Cons.IH [OF o1(1)] x by (simp add: split_beta Let_def add.assoc)
qed simp

lemma frames_at_end:
  "HEADER_SIZE < b \<Longrightarrow> data \<noteq> [] \<Longrightarrow> frames ie crc b b data first = frames ie crc b 0 data first"
  by (simp add: frames_step frame_defs)

lemma log_image_at_end:
  "HEADER_SIZE < b \<Longrightarrow> \<forall>r \<in> set rs. r \<noteq> [] \<Longrightarrow>
    fst (log_image ie crc b b rs) = fst (log_image ie crc b 0 rs)"
  by (cases rs) (simp_all add: frames_at_end)



text \<open>C29: A single record whose fragment ends one to six bytes before the end of the first block makes the
  end of the log unreadable as such: after that record the next read skips the rest of the block,
  finds no bytes there and returns an error, where the end of the log should be signalled by zero.\<close>

theorem log_eof_near_block_end:
  assumes "integer_encoding ie" "0 < k" "k < HEADER_SIZE" "length r + HEADER_SIZE + k = BLOCK_SIZE"
  shows "\<exists>lw n lr lr' e. add_record ie crc vec_write (log_writer_new []) r = Some (lw, Inr n) \<and>
    log_read ie crc slice_read (log_reader_new (dst lw) True) = Some (lr, r, Inr (length r)) \<and>
    log_read ie crc slice_read lr = Some (lr', [], Inl e)"
proof -
  have b: "HEADER_SIZE < BLOCK_SIZE" by (simp add: HEADER_SIZE_def BLOCK_SIZE_def)
  have r: "r \<noteq> []" using assms(3,4) by (auto simp: HEADER_SIZE_def BLOCK_SIZE_def)
  have "frame_len BLOCK_SIZE 0 r = length r" "frame_next BLOCK_SIZE 0 r = HEADER_SIZE + length r"
    using assms(4) b by (auto simp: frame_len_def frame_start_def frame_next_def)
  then have snd: "snd (frames ie crc BLOCK_SIZE 0 r True) = HEADER_SIZE + length r"
    by (simp add: frames_step [OF r b] Let_def)
  obtain lw n where lw: "add_record ie crc vec_write (log_writer_new []) r = Some (lw, Inr n)"
      "dst lw = fst (frames ie crc BLOCK_SIZE 0 r True)"
    by (rule vec.add_record_frames [OF assms(1) new_writer_wf(1) [of "[]"], of crc r]) simp
  obtain lr where lr: "log_read ie crc slice_read (log_reader_new (dst lw) True) = Some (lr, r, Inr (length r))"
      "log_reader_wf lr" "src lr = []" "blocksize lr = BLOCK_SIZE" "blk_off lr = HEADER_SIZE + length r"
    using slice.read_loop_frames [OF assms(1) new_reader_wf [of "dst lw" True] r, of crc True "[]" "[]"]
      lw(2) snd by (auto simp: log_read_def)
  obtain lr' res where "log_read ie crc slice_read lr = Some (lr', [], res)" "\<not> is_ok res"
    using slice.read_eof [OF lr(2), of ie crc] lr(3-5) assms(2-4) by (auto split: if_splits)
  then show ?thesis using lw(1) lr(1) by (cases res) auto
qed

theorem log_eof_near_block_end_witness:
  "\<exists>lw n lr lr' e.
    add_record wire_codec (\<lambda>_. 7) vec_write (log_writer_new []) (replicate 32758 0) = Some (lw, Inr n) \<and>
    log_read wire_codec (\<lambda>_. 7) slice_read (log_reader_new (dst lw) True) =
      Some (lr, replicate 32758 0, Inr (length (replicate 32758 (0 :: byte)))) \<and>
    log_read wire_codec (\<lambda>_. 7) slice_read lr = Some (lr', [], Inl e)"
  by (rule log_eof_near_block_end [OF wire.integer_encoding_axioms, of 3])
    (simp_all add: HEADER_SIZE_def BLOCK_SIZE_def)



end
