(* ===== verification/Ldb_Iterator.thy ===== *)
theory Ldb_Iterator
  imports Prelude
begin

text \<open>
  The \<open>LdbIterator\<close> trait (\<open>src/src/types.rs\<close>) as a record of functions on the iterator's state, its
  default methods, and its contract as locales: an iterator walks over a fixed list of entries and
  is at one of them or at none (not valid). Iterators that support more of the trait as documented
  satisfy the larger locales: \<open>ldb_forward\<close>, \<open>ldb_seek\<close> and \<open>ldb_iterator\<close>.
\<close>

record 's iter_ops =
  it_advance :: "'s \<Rightarrow> (bool \<times> 's) run"
  it_current :: "'s \<Rightarrow> (bytes \<times> bytes) option run"
  it_seek :: "bytes \<Rightarrow> 's \<Rightarrow> 's run"
  it_reset :: "'s \<Rightarrow> 's run"
  it_valid :: "'s \<Rightarrow> bool"
  it_prev :: "'s \<Rightarrow> (bool \<times> 's) run"

definition it_next :: "'s iter_ops \<Rightarrow> 's \<Rightarrow> ((bytes \<times> bytes) option \<times> 's) run" where
  "it_next ops s =
     do { (moved, s) \<leftarrow> it_advance ops s;
          if \<not> moved then Some (None, s)
          else do { c \<leftarrow> it_current ops s; Some (c, s) } }"

definition seek_to_first :: "'s iter_ops \<Rightarrow> 's \<Rightarrow> 's run" where
  "seek_to_first ops s = do { s \<leftarrow> it_reset ops s; (_, s) \<leftarrow> it_advance ops s; Some s }"

definition current_key_val :: "'s iter_ops \<Rightarrow> 's \<Rightarrow> (bytes \<times> bytes) option run" where
  "current_key_val ops s = it_current ops s"


section \<open>The contract\<close>

text \<open>
  Positions: \<open>None\<close> is before the first entry, which is also where an iterator is put when it runs
  off either end.
\<close>

fun pos_advance :: "nat \<Rightarrow> nat option \<Rightarrow> nat option" where
  "pos_advance n None = (if 0 < n then Some 0 else None)"
| "pos_advance n (Some i) = (if i + 1 < n then Some (i + 1) else None)"

fun pos_prev :: "nat option \<Rightarrow> nat option" where
  "pos_prev None = None"
| "pos_prev (Some i) = (if 0 < i then Some (i - 1) else None)"

text \<open>The position of the first element that satisfies a predicate.\<close>

definition pos_find :: "('a \<Rightarrow> bool) \<Rightarrow> 'a list \<Rightarrow> nat option" where
  "pos_find P xs = (let n = length (takeWhile (\<lambda>x. \<not> P x) xs) in if n < length xs then Some n else None)"

locale ldb_forward =
  fixes ops :: "'s iter_ops" and inv :: "'s \<Rightarrow> bool"
    and entries :: "'s \<Rightarrow> (bytes \<times> bytes) list" and pos :: "'s \<Rightarrow> nat option"
  assumes pos_bound: "inv s \<Longrightarrow> pos s = Some i \<Longrightarrow> i < length (entries s)"
    and valid_pos: "inv s \<Longrightarrow> it_valid ops s \<longleftrightarrow> pos s \<noteq> None"
    and current_pos: "inv s \<Longrightarrow> it_current ops s = Some (map_option ((!) (entries s)) (pos s))"
    and advance_pos: "inv s \<Longrightarrow> \<exists>s'. it_advance ops s = Some (pos s' \<noteq> None, s') \<and> inv s' \<and>
      entries s' = entries s \<and> pos s' = pos_advance (length (entries s)) (pos s)"
    and reset_pos: "inv s \<Longrightarrow> \<exists>s'. it_reset ops s = Some s' \<and> inv s' \<and>
      entries s' = entries s \<and> pos s' = None"
begin

lemma seek_to_first_pos:
  assumes "inv s"
  obtains s' where "seek_to_first ops s = Some s'" "inv s'" "entries s' = entries s"
    "pos s' = (if entries s = [] then None else Some 0)"
proof -
  obtain s1 where s1: "it_reset ops s = Some s1" "inv s1" "entries s1 = entries s" "pos s1 = None"
    using reset_pos [OF assms] by blast
  obtain s2 where "it_advance ops s1 = Some (pos s2 \<noteq> None, s2)" "inv s2" "entries s2 = entries s1"
      "pos s2 = pos_advance (length (entries s1)) (pos s1)"
    using advance_pos [OF s1(2)] by blast
  with s1 show ?thesis by (intro that [of s2]) (auto simp: seek_to_first_def)
qed

lemma next_pos:
  assumes "inv s"
  obtains s' where "it_next ops s = Some (map_option ((!) (entries s)) (pos s'), s')" "inv s'"
    "entries s' = entries s" "pos s' = pos_advance (length (entries s)) (pos s)"
proof -
  obtain s' where "it_advance ops s = Some (pos s' \<noteq> None, s')" "inv s'" "entries s' = entries s"
      "pos s' = pos_advance (length (entries s)) (pos s)"
    using advance_pos [OF assms] by blast
  then show ?thesis using that [of s'] current_pos [of s'] by (auto simp: it_next_def)
qed

end

text \<open>All entries an iterator returns by repeated \<open>next\<close>, at most \<open>n\<close> of them.\<close>

fun collect :: "'s iter_ops \<Rightarrow> nat \<Rightarrow> 's \<Rightarrow> (bytes \<times> bytes) list run" where
  "collect ops 0 s = Some []"
| "collect ops (Suc n) s =
     do { (e, s) \<leftarrow> it_next ops s;
          case e of None \<Rightarrow> Some [] | Some x \<Rightarrow> do { xs \<leftarrow> collect ops n s; Some (x # xs) } }"

context ldb_forward
begin

lemma collect_from:
  assumes "inv s" "length (entries s) < n + k"
    "k = (case pos s of None \<Rightarrow> 0 | Some i \<Rightarrow> i + 1)"
  shows "collect ops n s = Some (drop k (entries s))"
  using assms
proof (induction n arbitrary: s k)
  case 0
  then show ?case by simp
next
  case (Suc n)
  obtain s' where s': "it_next ops s = Some (map_option ((!) (entries s)) (pos s'), s')" "inv s'"
      "entries s' = entries s" "pos s' = pos_advance (length (entries s)) (pos s)"
    using next_pos [OF Suc.prems(1)] by blast
  have k: "pos s' = (if k < length (entries s) then Some k else None)"
    using s'(4) Suc.prems(3) by (auto split: option.splits)
  show ?case
  proof (cases "k < length (entries s)")
    case True
    then show ?thesis
      using Suc.IH [OF s'(2), of "k + 1"] Suc.prems(2) s'(1-3) k by (simp add: Cons_nth_drop_Suc)
  next
    case False
    then show ?thesis using s'(1-3) k by simp
  qed
qed

text \<open>Iterating from the start returns every entry once, in order.\<close>

lemma collect_all:
  assumes "inv s" "pos s = None" "length (entries s) < n"
  shows "collect ops n s = Some (entries s)"
  using collect_from [OF assms(1), of n 0] assms(2,3) by simp

end

locale ldb_seek = ldb_forward +
  fixes below :: "'s \<Rightarrow> bytes \<Rightarrow> bytes \<Rightarrow> bool" and seekable :: "'s \<Rightarrow> bytes \<Rightarrow> bool"
  assumes seek_pos: "inv s \<Longrightarrow> seekable s k \<Longrightarrow> \<exists>s'. it_seek ops k s = Some s' \<and> inv s' \<and>
      entries s' = entries s \<and> pos s' = pos_find (\<lambda>(k', v). \<not> below s k' k) (entries s)"

locale ldb_iterator = ldb_seek +
  assumes prev_pos: "inv s \<Longrightarrow> \<exists>s'. it_prev ops s = Some (pos s' \<noteq> None, s') \<and> inv s' \<and>
      entries s' = entries s \<and> pos s' = pos_prev (pos s)"

lemma pos_find_Some:
  assumes "pos_find P xs = Some i"
  shows "i < length xs" "P (xs ! i)" "\<forall>j < i. \<not> P (xs ! j)"
proof -
  let ?n = "length (takeWhile (\<lambda>x. \<not> P x) xs)"
  have i: "i = ?n" "?n < length xs" using assms by (auto simp: pos_find_def Let_def split: if_splits)
  then show "i < length xs" by simp
  show "P (xs ! i)" using i nth_length_takeWhile [of "\<lambda>x. \<not> P x" xs] by simp
  show "\<forall>j < i. \<not> P (xs ! j)"
    using i by (metis (no_types, lifting) nth_mem set_takeWhileD takeWhile_nth)
qed

lemma pos_find_None: "pos_find P xs = None \<longleftrightarrow> (\<forall>x \<in> set xs. \<not> P x)"
proof -
  have "length (takeWhile (\<lambda>x. \<not> P x) xs) \<ge> length xs \<longleftrightarrow> takeWhile (\<lambda>x. \<not> P x) xs = xs"
    by (metis le_refl length_takeWhile_le nth_length_takeWhile order_antisym_conv takeWhile_eq_all_conv
        takeWhile_eq_take take_all)
  then show ?thesis by (auto simp: pos_find_def Let_def not_less takeWhile_eq_all_conv)
qed

lemma pos_find_simps [simp]:
  "pos_find P [] = None"
  "pos_find P (x # xs) = (if P x then Some 0 else map_option Suc (pos_find P xs))"
  by (auto simp: pos_find_def Let_def)

lemma pos_find_map: "pos_find P (map f xs) = pos_find (\<lambda>x. P (f x)) xs"
  by (induction xs) auto

lemma pos_find_drop:
  "\<forall>x \<in> set (take j xs). \<not> P x \<Longrightarrow> pos_find P xs = map_option ((+) j) (pos_find P (drop j xs))"
proof (induction xs arbitrary: j)
  case (Cons x xs)
  then show ?case by (cases j) (auto simp: option.map_comp o_def option.map_id [unfolded id_def])
qed simp

end
