(* ===== verification/Skip_Map.thy ===== *)
theory Skip_Map
  imports Key_Cmp Ldb_Iterator
begin

text \<open>
  The skip map (\<open>src/src/skipmap.rs\<close>), the backing store of the memtable. Nodes are owned by their
  predecessor and linked by raw pointers, so the model keeps them in an explicit store: a list of
  nodes in which a pointer is an index, the head has index 0 and an allocation appends. Following a
  pointer that is not in the store, or indexing a skip list out of range, is \<open>None\<close>, as is a loop
  that does not end; the theorems show that neither happens.

  The rand crate is the parameter \<open>next_u32\<close> on a generator state of any type. Sizes of types are
  those of a 64-bit target.

  The invariant says that the store is a skip list over one chain of nodes: every skip pointer of
  level \<open>l\<close> leads to the next node of the chain that is higher than \<open>l\<close>, and the keys of the chain
  ascend. Under it each search equals the search in the chain, and an insertion into the chain.
\<close>

definition MAX_HEIGHT :: nat where
  "MAX_HEIGHT = 12"

definition BRANCHING_FACTOR :: u32 where
  "BRANCHING_FACTOR = 4"

record node =
  skips :: "nat option list"
  next_node :: "nat option"
  node_key :: bytes
  node_value :: bytes

record 'g skip_map =
  nodes :: "node list"
  rand :: 'g
  map_len :: nat
  approx_mem :: nat
  map_cmp :: comparator

definition size_of_node :: nat where
  "size_of_node = 80"

definition size_of_skip :: nat where
  "size_of_skip = 16"

definition size_of_skip_map :: nat where
  "size_of_skip_map = 8"

definition skip_map_new :: "'g \<Rightarrow> comparator \<Rightarrow> 'g skip_map" where
  "skip_map_new g cm = \<lparr>
     nodes = [\<lparr>skips = replicate MAX_HEIGHT None, next_node = None, node_key = [], node_value = []\<rparr>],
     rand = g, map_len = 0, approx_mem = size_of_skip_map + MAX_HEIGHT * size_of_skip, map_cmp = cm\<rparr>"

definition new_memtable_map :: "int_codec \<Rightarrow> 'g \<Rightarrow> comparator \<Rightarrow> 'g skip_map" where
  "new_memtable_map ie g cm = skip_map_new g (MemtableKeyCmp ie cm)"

text \<open>\<open>random_height\<close>: its loop ends at the maximal height.\<close>

function random_height_loop :: "('g \<Rightarrow> u32 \<times> 'g) \<Rightarrow> 'g \<Rightarrow> nat \<Rightarrow> nat \<times> 'g" where
  "random_height_loop next_u32 g height =
     (if height < MAX_HEIGHT then
        let (x, g) = next_u32 g in
        if x mod BRANCHING_FACTOR = 0 then random_height_loop next_u32 g (height + 1) else (height, g)
      else (height, g))"
  by pat_completeness auto
termination
  by (relation "measure (\<lambda>(_, _, height). MAX_HEIGHT - height)") auto

declare random_height_loop.simps [simp del]

definition random_height :: "('g \<Rightarrow> u32 \<times> 'g) \<Rightarrow> 'g \<Rightarrow> nat \<times> 'g" where
  "random_height next_u32 g = random_height_loop next_u32 g 1"

text \<open>
  The search loops. \<open>ge_loop\<close> returns \<open>Inl\<close> the node it returns early, or \<open>Inr\<close> the node it stops at.
\<close>

partial_function (option) ge_loop ::
    "(bytes \<Rightarrow> bytes \<Rightarrow> ordering run) \<Rightarrow> node list \<Rightarrow> bytes \<Rightarrow> nat \<Rightarrow> nat \<Rightarrow> (nat + nat) option" where
  "ge_loop cm ns key current level =
     do {
       n \<leftarrow> index ns current;
       s \<leftarrow> index (skips n) level;
       (case s of
          None \<Rightarrow> if level = 0 then Some (Inr current) else ge_loop cm ns key current (level - 1)
        | Some next \<Rightarrow> do {
            nn \<leftarrow> index ns next;
            ord \<leftarrow> cm (node_key nn) key;
            (case ord of
               Less \<Rightarrow> ge_loop cm ns key next level
             | Equal \<Rightarrow> Some (Inl next)
             | Greater \<Rightarrow>
                 if level = 0 then Some (Inl next) else ge_loop cm ns key current (level - 1))
          })
     }"

definition get_greater_or_equal :: "'g skip_map \<Rightarrow> bytes \<Rightarrow> nat option run" where
  "get_greater_or_equal sm key =
     do {
       head \<leftarrow> index (nodes sm) 0;
       level \<leftarrow> usub (length (skips head)) 1;
       r \<leftarrow> ge_loop (cmp (map_cmp sm)) (nodes sm) key 0 level;
       (case r of
          Inl found \<Rightarrow> Some (Some found)
        | Inr current \<Rightarrow>
            if current = 0 then Some None
            else do {
              n \<leftarrow> index (nodes sm) current;
              ord \<leftarrow> cmp (map_cmp sm) (node_key n) key;
              Some (if ord = Less then None else Some current)
            })
     }"

partial_function (option) lt_loop ::
    "(bytes \<Rightarrow> bytes \<Rightarrow> ordering run) \<Rightarrow> node list \<Rightarrow> bytes \<Rightarrow> nat \<Rightarrow> nat \<Rightarrow> nat option" where
  "lt_loop cm ns key current level =
     do {
       n \<leftarrow> index ns current;
       s \<leftarrow> index (skips n) level;
       (case s of
          None \<Rightarrow> if level = 0 then Some current else lt_loop cm ns key current (level - 1)
        | Some next \<Rightarrow> do {
            nn \<leftarrow> index ns next;
            ord \<leftarrow> cm (node_key nn) key;
            if ord = Less then lt_loop cm ns key next level
            else if level = 0 then Some current else lt_loop cm ns key current (level - 1)
          })
     }"

definition get_next_smaller :: "'g skip_map \<Rightarrow> bytes \<Rightarrow> nat option run" where
  "get_next_smaller sm key =
     do {
       head \<leftarrow> index (nodes sm) 0;
       level \<leftarrow> usub (length (skips head)) 1;
       current \<leftarrow> lt_loop (cmp (map_cmp sm)) (nodes sm) key 0 level;
       if current = 0 then Some None
       else do {
         n \<leftarrow> index (nodes sm) current;
         ord \<leftarrow> cmp (map_cmp sm) (node_key n) key;
         Some (if ord \<noteq> Less then None else Some current)
       }
     }"

text \<open>\<open>n.key.starts_with(&key)\<close>\<close>

definition contains :: "'g skip_map \<Rightarrow> bytes \<Rightarrow> bool run" where
  "contains sm key =
     do {
       r \<leftarrow> get_greater_or_equal sm key;
       (case r of
          None \<Rightarrow> Some False
        | Some a \<Rightarrow> do { n \<leftarrow> index (nodes sm) a; Some (prefix key (node_key n)) })
     }"

partial_function (option) insert_loop ::
    "(bytes \<Rightarrow> bytes \<Rightarrow> ordering run) \<Rightarrow> node list \<Rightarrow> bytes \<Rightarrow> nat \<Rightarrow> nat \<Rightarrow> nat \<Rightarrow> nat list \<Rightarrow> (nat \<times> nat list) option" where
  "insert_loop cm ns key height current level prevs =
     do {
       n \<leftarrow> index ns current;
       s \<leftarrow> index (skips n) level;
       advance \<leftarrow> (case s of
          None \<Rightarrow> Some None
        | Some next \<Rightarrow> do {
            nn \<leftarrow> index ns next;
            ord \<leftarrow> cm (node_key nn) key;
            ensure (ord \<noteq> Equal);
            Some (if ord = Less then Some next else None)
          });
       (case advance of
          Some next \<Rightarrow> insert_loop cm ns key height next level prevs
        | None \<Rightarrow>
            let prevs = (if level < height then prevs[level := current] else prevs) in
            if level = 0 then Some (current, prevs)
            else insert_loop cm ns key height current (level - 1) prevs)
     }"

text \<open>The links of the new node and of its predecessors, level by level.\<close>

fun link_levels :: "nat list \<Rightarrow> nat \<Rightarrow> nat \<Rightarrow> node list \<Rightarrow> node list run" where
  "link_levels [] newp i ns = Some ns"
| "link_levels (prev # prevs) newp i ns =
     do {
       p \<leftarrow> index ns prev;
       s \<leftarrow> index (skips p) i;
       new \<leftarrow> index ns newp;
       ensure (i < length (skips new));
       let ns = ns[newp := new\<lparr>skips := (skips new)[i := s]\<rparr>];
       p \<leftarrow> index ns prev;
       link_levels prevs newp (i + 1) (ns[prev := p\<lparr>skips := (skips p)[i := Some newp]\<rparr>])
     }"

definition skip_map_insert ::
    "('g \<Rightarrow> u32 \<times> 'g) \<Rightarrow> 'g skip_map \<Rightarrow> bytes \<Rightarrow> bytes \<Rightarrow> 'g skip_map run" where
  "skip_map_insert next_u32 sm key val =
     do {
       ensure (key \<noteq> []);
       let (new_height, g) = random_height next_u32 (rand sm);
       (current, prevs) \<leftarrow> insert_loop (cmp (map_cmp sm)) (nodes sm) key new_height 0 (MAX_HEIGHT - 1)
                              (replicate new_height 0);
       let newp = length (nodes sm);
       let new = \<lparr>skips = replicate new_height None, next_node = None, node_key = key, node_value = val\<rparr>;
       ns \<leftarrow> link_levels prevs newp 0 (nodes sm @ [new]);
       let added_mem = size_of_node + size_of_skip * new_height + length key + length val;
       cur \<leftarrow> index ns current;
       nw \<leftarrow> index ns newp;
       let ns = ns[newp := nw\<lparr>next_node := next_node cur\<rparr>];
       cur \<leftarrow> index ns current;
       let ns = ns[current := cur\<lparr>next_node := Some newp\<rparr>];
       Some (sm\<lparr>nodes := ns, rand := g, map_len := map_len sm + 1,
                approx_mem := approx_mem sm + added_mem\<rparr>)
     }"


section \<open>The iterator\<close>

record 'g skip_map_iter =
  it_map :: "'g skip_map"
  it_cur :: nat

definition skip_map_iter_new :: "'g skip_map \<Rightarrow> 'g skip_map_iter" where
  "skip_map_iter_new sm = \<lparr>it_map = sm, it_cur = 0\<rparr>"

definition smi_reset :: "'g skip_map_iter \<Rightarrow> 'g skip_map_iter" where
  "smi_reset it = it\<lparr>it_cur := 0\<rparr>"

definition smi_valid :: "'g skip_map_iter \<Rightarrow> bool" where
  "smi_valid it \<longleftrightarrow> it_cur it \<noteq> 0"

definition smi_advance :: "'g skip_map_iter \<Rightarrow> (bool \<times> 'g skip_map_iter) run" where
  "smi_advance it =
     do {
       n \<leftarrow> index (nodes (it_map it)) (it_cur it);
       Some (case next_node n of
          Some next \<Rightarrow> (True, it\<lparr>it_cur := next\<rparr>)
        | None \<Rightarrow> (False, smi_reset it))
     }"

definition smi_seek :: "bytes \<Rightarrow> 'g skip_map_iter \<Rightarrow> 'g skip_map_iter run" where
  "smi_seek key it =
     do {
       r \<leftarrow> get_greater_or_equal (it_map it) key;
       Some (case r of Some a \<Rightarrow> it\<lparr>it_cur := a\<rparr> | None \<Rightarrow> smi_reset it)
     }"

definition smi_current :: "'g skip_map_iter \<Rightarrow> (bytes \<times> bytes) option run" where
  "smi_current it =
     (if smi_valid it
      then do { n \<leftarrow> index (nodes (it_map it)) (it_cur it); Some (Some (node_key n, node_value n)) }
      else Some None)"

definition smi_prev :: "'g skip_map_iter \<Rightarrow> (bool \<times> 'g skip_map_iter) run" where
  "smi_prev it =
     (if smi_valid it then
        do {
          n \<leftarrow> index (nodes (it_map it)) (it_cur it);
          r \<leftarrow> get_next_smaller (it_map it) (node_key n);
          (case r of
             None \<Rightarrow> Some (False, smi_reset it)
           | Some prev \<Rightarrow> do {
               p \<leftarrow> index (nodes (it_map it)) prev;
               Some (if node_key p \<noteq> [] then (True, it\<lparr>it_cur := prev\<rparr>) else (False, smi_reset it))
             })
        }
      else Some (False, smi_reset it))"

definition skip_map_iter_ops :: "'g skip_map_iter iter_ops" where
  "skip_map_iter_ops = \<lparr>
     it_advance = smi_advance, it_current = smi_current, it_seek = smi_seek,
     it_reset = (\<lambda>it. Some (smi_reset it)), it_valid = smi_valid, it_prev = smi_prev\<rparr>"


section \<open>The chain of nodes\<close>

definition height :: "node list \<Rightarrow> nat \<Rightarrow> nat" where
  "height ns a = length (skips (ns ! a))"

definition key_at :: "node list \<Rightarrow> nat \<Rightarrow> bytes" where
  "key_at ns a = node_key (ns ! a)"

fun linked :: "node list \<Rightarrow> nat list \<Rightarrow> bool" where
  "linked ns [] = True"
| "linked ns (a # rest) \<longleftrightarrow> a < length ns \<and> 0 < height ns a \<and> height ns a \<le> MAX_HEIGHT \<and>
     (\<forall>l < height ns a. skips (ns ! a) ! l = find (\<lambda>b. l < height ns b) rest) \<and>
     next_node (ns ! a) = (case rest of [] \<Rightarrow> None | b # _ \<Rightarrow> Some b) \<and> linked ns rest"

fun follow :: "node list \<Rightarrow> nat \<Rightarrow> nat \<Rightarrow> nat list" where
  "follow ns 0 a = []"
| "follow ns (Suc k) a = (case next_node (ns ! a) of None \<Rightarrow> [] | Some b \<Rightarrow> b # follow ns k b)"

lemma linked_follow: "linked ns (a # rest) \<Longrightarrow> length rest \<le> k \<Longrightarrow> follow ns k a = rest"
proof (induction rest arbitrary: a k)
  case Nil
  then show ?case by (cases k) auto
next
  case (Cons b rest)
  then show ?case by (cases k) auto
qed

lemma linked_append: "linked ns (xs @ ys) \<Longrightarrow> linked ns ys"
  by (induction xs) auto

lemma linked_bounds: "linked ns xs \<Longrightarrow> a \<in> set xs \<Longrightarrow> a < length ns \<and> 0 < height ns a"
  by (induction xs) auto

lemma linked_skip:
  "linked ns (a # rest) \<Longrightarrow> l < height ns a \<Longrightarrow>
    index ns a = Some (ns ! a) \<and> index (skips (ns ! a)) l = Some (find (\<lambda>b. l < height ns b) rest)"
  by (simp add: index_def height_def)

lemma find_split:
  assumes "find P xs = Some b"
  obtains ys zs where "xs = ys @ b # zs" "\<forall>y \<in> set ys. \<not> P y" "P b"
proof -
  have "xs = takeWhile (\<lambda>x. \<not> P x) xs @ b # tl (dropWhile (\<lambda>x. \<not> P x) xs) \<and> P b"
    using assms by (induction xs) (auto split: if_splits)
  then show ?thesis using that set_takeWhileD by metis
qed

lemma find_append: "\<forall>y \<in> set ys. \<not> P y \<Longrightarrow> find P (ys @ zs) = find P zs"
  by (induction ys) auto

lemma linked_no_successor:
  assumes "linked ns (a # rest)" "find (\<lambda>b. 0 < height ns b) rest = None"
  shows "rest = []"
  using assms by (cases rest) auto

lemma linked_successor:
  assumes "linked ns (a # rest)" "find (\<lambda>b. 0 < height ns b) rest = Some b"
  shows "\<exists>rest'. rest = b # rest'"
  using assms by (cases rest) (auto split: if_splits)

definition chain_sorted :: "(bytes \<Rightarrow> bytes \<Rightarrow> ordering run) \<Rightarrow> bytes set \<Rightarrow> node list \<Rightarrow> nat list \<Rightarrow> bool" where
  "chain_sorted cm K ns as \<longleftrightarrow> (\<forall>a \<in> set as. key_at ns a \<in> K) \<and>
     sorted_wrt (\<lambda>a b. cmp_lt cm (key_at ns a) (key_at ns b)) as"

lemma chain_sorted_append: "chain_sorted cm K ns (xs @ ys) \<Longrightarrow> chain_sorted cm K ns ys"
  by (auto simp: chain_sorted_def sorted_wrt_append)

locale bytes_order = cmp_order cm K for cm :: "bytes \<Rightarrow> bytes \<Rightarrow> ordering run" and K :: "bytes set"
begin

lemma chain_below:
  assumes "chain_sorted cm K ns (xs @ b # ys)" "t \<in> K" "\<not> cmp_lt cm t (key_at ns b)"
  shows "\<forall>x \<in> set xs. cmp_lt cm (key_at ns x) t"
proof
  fix x
  assume "x \<in> set xs"
  with assms(1) have k: "key_at ns x \<in> K" "key_at ns b \<in> K" "cmp_lt cm (key_at ns x) (key_at ns b)"
    by (auto simp: chain_sorted_def sorted_wrt_append)
  then show "cmp_lt cm (key_at ns x) t"
    using lt_le_trans [of _ "key_at ns b" t] assms(2,3) not_lt [of t "key_at ns b"] by blast
qed

lemma chain_above:
  assumes "chain_sorted cm K ns (b # ys)" "t \<in> K" "\<not> cmp_lt cm (key_at ns b) t"
  shows "\<forall>y \<in> set ys. cmp_lt cm t (key_at ns y)"
proof
  fix y
  assume "y \<in> set ys"
  with assms(1) have k: "key_at ns y \<in> K" "key_at ns b \<in> K" "cmp_lt cm (key_at ns b) (key_at ns y)"
    by (auto simp: chain_sorted_def)
  then show "cmp_lt cm t (key_at ns y)"
    using le_lt_trans [of t "key_at ns b"] assms(2,3) not_lt [of "key_at ns b" t] by blast
qed

lemma cmp_keys:
  assumes "k \<in> K" "t \<in> K"
  obtains (less) "cm k t = Some Less" "cmp_lt cm k t" "\<not> cmp_lt cm t k"
  | (equal) "cm k t = Some Equal" "\<not> cmp_lt cm k t" "\<not> cmp_lt cm t k"
  | (greater) "cm k t = Some Greater" "cmp_lt cm t k" "\<not> cmp_lt cm k t"
proof -
  obtain r where r: "cm k t = Some r" using cmp_total [OF assms] by blast
  have "cm t k = Some (flip_ordering r)" by (rule flipI [OF assms r])
  with r that show ?thesis by (cases r) (auto simp: cmp_lt_def)
qed

text \<open>
  The walk all searches share: along the skip pointers of a level while they stay below the target,
  then down a level. It visits the pairs of a node and a level in this order.
\<close>

lemma skip_walk_induct [consumes 4, case_names bottom down forward stop]:
  assumes "linked ns (a # rest)" "chain_sorted cm K ns rest" "t \<in> K" "l < height ns a"
    and bottom: "\<And>a. linked ns [a] \<Longrightarrow> P a [] 0"
    and down: "\<And>a rest l. linked ns (a # rest) \<Longrightarrow> chain_sorted cm K ns rest \<Longrightarrow> Suc l < height ns a \<Longrightarrow>
        (\<And>b. find (\<lambda>b. Suc l < height ns b) rest = Some b \<Longrightarrow> \<not> cmp_lt cm (key_at ns b) t) \<Longrightarrow>
        P a rest l \<Longrightarrow> P a rest (Suc l)"
    and forward: "\<And>a ys b zs l. linked ns (a # ys @ b # zs) \<Longrightarrow> chain_sorted cm K ns (ys @ b # zs) \<Longrightarrow>
        l < height ns a \<Longrightarrow> find (\<lambda>b. l < height ns b) (ys @ b # zs) = Some b \<Longrightarrow>
        cmp_lt cm (key_at ns b) t \<Longrightarrow> \<forall>y \<in> set ys. cmp_lt cm (key_at ns y) t \<and> \<not> l < height ns y \<Longrightarrow>
        P b zs l \<Longrightarrow> P a (ys @ b # zs) l"
    and stop: "\<And>a b zs. linked ns (a # b # zs) \<Longrightarrow> chain_sorted cm K ns (b # zs) \<Longrightarrow>
        \<not> cmp_lt cm (key_at ns b) t \<Longrightarrow> P a (b # zs) 0"
  shows "P a rest l"
  using assms(1,2,4)
proof (induction "length rest" arbitrary: rest a l rule: less_induct)
  case (less rest a l)
  have forward': "P a rest l"
    if l: "l < height ns a" "find (\<lambda>b. l < height ns b) rest = Some b" "cmp_lt cm (key_at ns b) t" for l b
  proof -
    obtain ys zs where rest: "rest = ys @ b # zs" "\<forall>y \<in> set ys. \<not> l < height ns y" "l < height ns b"
      using l(2) by (elim find_split)
    have bz: "linked ns (b # zs)" "chain_sorted cm K ns zs"
      using less.prems(1,2) rest(1) linked_append [of ns "a # ys" "b # zs"]
        chain_sorted_append [of cm K ns "ys @ [b]" zs] by auto
    have kb: "key_at ns b \<in> K" using less.prems(2) rest(1) by (simp add: chain_sorted_def)
    have "\<not> cmp_lt cm t (key_at ns b)" using l(3) kb assms(3) by (cases rule: cmp_keys [OF kb assms(3)]) auto
    then have ys: "\<forall>y \<in> set ys. cmp_lt cm (key_at ns y) t \<and> \<not> l < height ns y"
      using chain_below less.prems(2) assms(3) rest by blast
    have "P b zs l" using less.hyps [of zs b l] bz rest by simp
    then show ?thesis using forward [OF _ _ l(1) _ l(3) ys] less.prems(1,2) l(2) rest(1) by simp
  qed
  from less.prems(3) show ?case
  proof (induction l)
    case 0
    show ?case
    proof (cases rest)
      case Nil
      then show ?thesis using bottom less.prems(1) by simp
    next
      case (Cons b zs)
      then have "find (\<lambda>b. 0 < height ns b) rest = Some b" using less.prems(1) by simp
      then show ?thesis
        using forward' [OF 0] stop [of a b zs] less.prems(1,2) Cons by (cases "cmp_lt cm (key_at ns b) t") auto
    qed
  next
    case (Suc l)
    then show ?case
      using forward' [OF Suc.prems] down [OF less.prems(1,2) Suc.prems] Suc_lessD [OF Suc.prems] by blast
  qed
qed

lemma index_key:
  "linked ns xs \<Longrightarrow> b \<in> set xs \<Longrightarrow> index ns b = Some (ns ! b) \<and> node_key (ns ! b) = key_at ns b"
  using linked_bounds [of ns xs b] by (simp add: index_def key_at_def)

lemma ge_loop_ok:
  assumes "linked ns (a # rest)" "chain_sorted cm K ns rest" "t \<in> K" "l < height ns a"
  shows "ge_loop cm ns t a l = Some (case find (\<lambda>b. \<not> cmp_lt cm (key_at ns b) t) rest of
      Some b \<Rightarrow> Inl b | None \<Rightarrow> Inr (last (a # rest)))"
  using assms
proof (induction a rest l rule: skip_walk_induct)
  case (bottom a)
  then show ?case using linked_skip [of ns a "[]" 0] by (subst ge_loop.simps) simp
next
  case (down a rest l)
  show ?case
  proof (cases "find (\<lambda>b. Suc l < height ns b) rest")
    case None
    then show ?thesis
      using linked_skip [OF down(1,3)] down.IH by (subst ge_loop.simps) simp
  next
    case (Some b)
    then obtain ys zs where rest: "rest = ys @ b # zs" by (elim find_split)
    have nb: "\<not> cmp_lt cm (key_at ns b) t" by (rule down(4) [OF Some])
    have kb: "key_at ns b \<in> K" using down(2) rest by (simp add: chain_sorted_def)
    have idx: "index ns b = Some (ns ! b)" "node_key (ns ! b) = key_at ns b"
      using index_key [OF down(1), of b] rest by simp_all
    have eq: "cm (key_at ns b) t = Some Equal \<Longrightarrow> find (\<lambda>b. \<not> cmp_lt cm (key_at ns b) t) rest = Some b"
      using chain_below [of ns ys b zs t] down(2) assms(3) rest nb
        find_append [of ys "\<lambda>b. \<not> cmp_lt cm (key_at ns b) t" "b # zs"]
        Greater_iff [OF kb assms(3)] by auto
    from cmp_keys [OF kb assms(3)] show ?thesis
      using linked_skip [OF down(1,3)] Some idx nb eq down.IH by cases (subst ge_loop.simps, simp)+
  qed
next
  case (forward a ys b zs l)
  have b: "index ns b = Some (ns ! b)" "node_key (ns ! b) = key_at ns b" "cm (key_at ns b) t = Some Less"
    using index_key [OF forward(1), of b] forward(5) by (simp_all add: cmp_lt_def)
  show ?case
    using linked_skip [OF forward(1,3)] forward(4-) b
      find_append [of "ys @ [b]" "\<lambda>b. \<not> cmp_lt cm (key_at ns b) t" zs]
    by (subst ge_loop.simps) (simp split: option.splits)
next
  case (stop a b zs)
  have b: "index ns b = Some (ns ! b)" "node_key (ns ! b) = key_at ns b" "key_at ns b \<in> K"
    using index_key [OF stop(1), of b] stop(2) by (simp_all add: chain_sorted_def)
  from cmp_keys [OF b(3) assms(3)] show ?case
    using linked_skip [OF stop(1), of 0] stop b by cases (subst ge_loop.simps, simp)+
qed

lemma lt_loop_ok:
  assumes "linked ns (a # rest)" "chain_sorted cm K ns rest" "t \<in> K" "l < height ns a"
  shows "lt_loop cm ns t a l = Some (last (a # takeWhile (\<lambda>b. cmp_lt cm (key_at ns b) t) rest))"
  using assms
proof (induction a rest l rule: skip_walk_induct)
  case (bottom a)
  then show ?case using linked_skip [of ns a "[]" 0] by (subst lt_loop.simps) simp
next
  case (down a rest l)
  show ?case
  proof (cases "find (\<lambda>b. Suc l < height ns b) rest")
    case None
    then show ?thesis
      using linked_skip [OF down(1,3)] down.IH by (subst lt_loop.simps) simp
  next
    case (Some b)
    then have "b \<in> set rest" by (auto elim: find_split)
    then have idx: "index ns b = Some (ns ! b)" "node_key (ns ! b) = key_at ns b" "key_at ns b \<in> K"
      using index_key [OF down(1), of b] down(2) by (simp_all add: chain_sorted_def)
    from cmp_keys [OF idx(3) assms(3)] show ?thesis
      using linked_skip [OF down(1,3)] Some idx down(4) [OF Some] down.IH
      by cases (subst lt_loop.simps, simp)+
  qed
next
  case (forward a ys b zs l)
  have b: "index ns b = Some (ns ! b)" "node_key (ns ! b) = key_at ns b" "cm (key_at ns b) t = Some Less"
    using index_key [OF forward(1), of b] forward(5) by (simp_all add: cmp_lt_def)
  show ?case
    using linked_skip [OF forward(1,3)] forward(4-) b by (subst lt_loop.simps) simp
next
  case (stop a b zs)
  have b: "index ns b = Some (ns ! b)" "node_key (ns ! b) = key_at ns b" "key_at ns b \<in> K"
    using index_key [OF stop(1), of b] stop(2) by (simp_all add: chain_sorted_def)
  from cmp_keys [OF b(3) assms(3)] show ?case
    using linked_skip [OF stop(1), of 0] stop b by cases (subst lt_loop.simps, simp)+
qed

text \<open>
  The insertion walk stops at the last node below the new key and collects, for every level of the
  new node, the last node below the new key that is higher than the level.
\<close>

lemma set_prev:
  assumes "length prevs = h"
  shows "(if l < h then prevs[l := a] else prevs) = map (\<lambda>i. if i = l then a else prevs ! i) [0..<h]"
  using assms by (cases "l < h") (auto simp: nth_list_update intro!: nth_equalityI)

lemma insert_loop_ok:
  assumes "linked ns (a # rest)" "chain_sorted cm K ns rest" "t \<in> K" "l < height ns a"
    and "\<forall>b \<in> set rest. cm (key_at ns b) t \<noteq> Some Equal" "length prevs = h"
  defines "tw \<equiv> \<lambda>xs. takeWhile (\<lambda>b. cmp_lt cm (key_at ns b) t) xs"
  shows "insert_loop cm ns t h a l prevs = Some (last (a # tw rest),
    map (\<lambda>i. if i \<le> l then last (filter (\<lambda>x. i < height ns x) (a # tw rest)) else prevs ! i) [0..<h])"
  using assms(1-6)
proof (induction a rest l arbitrary: prevs rule: skip_walk_induct)
  case (bottom a)
  then show ?case
    using linked_skip [of ns a "[]" 0] set_prev [of prevs h 0 a]
    by (subst insert_loop.simps) (simp add: tw_def Let_def cong: map_cong)
next
  case (down a rest l)
  let ?prevs = "if Suc l < h then prevs[Suc l := a] else prevs"
  have low: "\<not> Suc l < height ns x" if "x \<in> set (tw rest)" for x
  proof (cases "find (\<lambda>b. Suc l < height ns b) rest")
    case None
    then show ?thesis using that by (auto simp: find_None_iff tw_def dest: set_takeWhileD)
  next
    case (Some b)
    then obtain ys zs where rest: "rest = ys @ b # zs" "\<forall>y \<in> set ys. \<not> Suc l < height ns y"
      by (elim find_split)
    have "set (tw rest) \<subseteq> set ys"
      using down(4) [OF Some] by (auto simp: rest(1) tw_def takeWhile_append dest: set_takeWhileD split: if_splits)
    then show ?thesis using that rest(2) by blast
  qed
  have step: "insert_loop cm ns t h a (Suc l) prevs = insert_loop cm ns t h a l ?prevs"
  proof (cases "find (\<lambda>b. Suc l < height ns b) rest")
    case None
    then show ?thesis
      using linked_skip [OF down(1,3)] by (subst insert_loop.simps) (simp add: Let_def)
  next
    case (Some b)
    then have "b \<in> set rest" by (auto elim: find_split)
    then have idx: "index ns b = Some (ns ! b)" "node_key (ns ! b) = key_at ns b" "key_at ns b \<in> K"
        "cm (key_at ns b) t \<noteq> Some Equal"
      using index_key [OF down(1), of b] down(2) down.prems(1) by (simp_all add: chain_sorted_def)
    from cmp_keys [OF idx(3) assms(3)] show ?thesis
      using linked_skip [OF down(1,3)] Some idx down(4) [OF Some]
      by cases (subst insert_loop.simps, simp add: Let_def)+
  qed
  have "filter (\<lambda>x. Suc l < height ns x) (tw rest) = []" using low by (simp add: filter_empty_conv)
  then have "last (filter (\<lambda>x. Suc l < height ns x) (a # tw rest)) = a" using down(3) by simp
  then show ?case
    using down.IH [OF down.prems(1), of ?prevs] down.prems(2) step set_prev [OF down.prems(2), of "Suc l" a]
    by (auto simp: le_Suc_eq intro!: map_cong)
next
  case (forward a ys b zs l)
  have b: "index ns b = Some (ns ! b)" "node_key (ns ! b) = key_at ns b" "cm (key_at ns b) t = Some Less"
    using index_key [OF forward(1), of b] forward(5) by (simp_all add: cmp_lt_def)
  have tw: "tw (ys @ b # zs) = ys @ b # tw zs" using forward(5,6) by (simp add: tw_def takeWhile_append2)
  have lb: "l < height ns b" using forward(4) by (auto elim: find_split)
  have step: "insert_loop cm ns t h a l prevs = insert_loop cm ns t h b l prevs"
    using linked_skip [OF forward(1,3)] forward(4) b by (subst insert_loop.simps) simp
  show ?case
    using forward.IH [of prevs] forward.prems lb unfolding tw step
    by (auto simp: last_append intro!: map_cong)
next
  case (stop a b zs)
  have b: "index ns b = Some (ns ! b)" "node_key (ns ! b) = key_at ns b" "key_at ns b \<in> K"
      "cm (key_at ns b) t \<noteq> Some Equal"
    using index_key [OF stop(1), of b] stop(2) stop.prems(1) by (simp_all add: chain_sorted_def)
  have sk: "index ns a = Some (ns ! a)" "index (skips (ns ! a)) 0 = Some (Some b)"
    using linked_skip [OF stop(1), of 0] stop(1) by auto
  from cmp_keys [OF b(3) assms(3)] have "insert_loop cm ns t h a 0 prevs =
      Some (a, if 0 < h then prevs[0 := a] else prevs)"
    using sk stop(3) b by cases (subst insert_loop.simps, simp add: Let_def)+
  then show ?case
    using set_prev [OF stop.prems(2), of 0 a] stop(1,3) by (auto simp: tw_def intro!: map_cong)
qed

lemma insert_loop_duplicate:
  assumes "linked ns (a # rest)" "chain_sorted cm K ns rest" "t \<in> K" "l < height ns a"
    and "b \<in> set rest" "cm (key_at ns b) t = Some Equal"
  shows "insert_loop cm ns t h a l prevs = None"
  using assms
proof (induction a rest l arbitrary: prevs rule: skip_walk_induct)
  case (down a rest l)
  show ?case
  proof (cases "find (\<lambda>b. Suc l < height ns b) rest")
    case None
    then show ?thesis
      using linked_skip [OF down(1,3)] down.IH down.prems by (subst insert_loop.simps) (simp add: Let_def)
  next
    case (Some c)
    then have "c \<in> set rest" by (auto elim: find_split)
    then have idx: "index ns c = Some (ns ! c)" "node_key (ns ! c) = key_at ns c" "key_at ns c \<in> K"
      using index_key [OF down(1), of c] down(2) by (simp_all add: chain_sorted_def)
    from cmp_keys [OF idx(3) assms(3)] show ?thesis
      using linked_skip [OF down(1,3)] Some idx down(4) [OF Some] down.IH down.prems
      by cases (subst insert_loop.simps, simp add: Let_def)+
  qed
next
  case (forward a ys c zs l)
  have c: "index ns c = Some (ns ! c)" "node_key (ns ! c) = key_at ns c" "cm (key_at ns c) t = Some Less"
    using index_key [OF forward(1), of c] forward(5) by (simp_all add: cmp_lt_def)
  have "b \<in> set zs" using forward(6) forward.prems c(3) by (auto simp: cmp_lt_def)
  then show ?case
    using linked_skip [OF forward(1,3)] forward(4) c forward.IH forward.prems
    by (subst insert_loop.simps) simp
next
  case (stop a c zs)
  have c: "index ns c = Some (ns ! c)" "node_key (ns ! c) = key_at ns c" "key_at ns c \<in> K"
    using index_key [OF stop(1), of c] stop(2) by (simp_all add: chain_sorted_def)
  have "\<not> cmp_lt cm t (key_at ns b)"
    using Greater_iff [of "key_at ns b" t] stop(2) stop.prems assms(3) by (auto simp: chain_sorted_def)
  then have "b = c" using chain_above [OF stop(2) assms(3) stop(3)] stop.prems(1) by auto
  then show ?case
    using linked_skip [OF stop(1), of 0] stop(1) c stop.prems by (subst insert_loop.simps) simp
qed simp

end

text \<open>The two comparators skip maps are built with.\<close>

interpretation default_map: bytes_order "cmp DefaultCmp" UNIV
  by (simp add: bytes_order_def default_cmp.cmp_order_axioms)

interpretation memtable_map: bytes_order "cmp (MemtableKeyCmp ie DefaultCmp)" "memtable_keys ie" for ie
  unfolding bytes_order_def by (rule memtable_key_order [OF default_cmp.cmp_order_axioms])


section \<open>Linking a node into the chain\<close>

lemma link_levels_ok:
  assumes "\<forall>j < length prevs. prevs ! j < length ns \<and> i + j < height ns (prevs ! j)"
    "newp \<notin> set prevs" "newp < length ns" "i + length prevs \<le> height ns newp"
  shows "\<exists>ns'. link_levels prevs newp i ns = Some ns' \<and> length ns' = length ns \<and>
    (\<forall>x < length ns. next_node (ns' ! x) = next_node (ns ! x) \<and> node_key (ns' ! x) = node_key (ns ! x) \<and>
      node_value (ns' ! x) = node_value (ns ! x) \<and> height ns' x = height ns x \<and>
      (\<forall>l. skips (ns' ! x) ! l =
        (if i \<le> l \<and> l < i + length prevs \<and> l < height ns x
         then if x = newp then skips (ns ! (prevs ! (l - i))) ! l
              else if x = prevs ! (l - i) then Some newp else skips (ns ! x) ! l
         else skips (ns ! x) ! l)))"
  using assms
proof (induction prevs arbitrary: i ns)
  case (Cons prev prevs)
  let ?s = "skips (ns ! prev) ! i"
  define ns1 where "ns1 = ns[newp := (ns ! newp)\<lparr>skips := (skips (ns ! newp))[i := ?s]\<rparr>]"
  define ns2 where "ns2 = ns1[prev := (ns1 ! prev)\<lparr>skips := (skips (ns1 ! prev))[i := Some newp]\<rparr>]"
  have p: "prev < length ns" "i < height ns prev" "prev \<noteq> newp" "i < height ns newp" "newp < length ns"
    using Cons.prems by auto
  have h: "height ns2 x = height ns x" if "x < length ns" for x
    using p that by (auto simp: height_def ns2_def ns1_def nth_list_update)
  have len: "length ns2 = length ns" by (simp add: ns2_def ns1_def)
  have "\<exists>ns'. link_levels prevs newp (i + 1) ns2 = Some ns' \<and> length ns' = length ns2 \<and>
    (\<forall>x < length ns2. next_node (ns' ! x) = next_node (ns2 ! x) \<and> node_key (ns' ! x) = node_key (ns2 ! x) \<and>
      node_value (ns' ! x) = node_value (ns2 ! x) \<and> height ns' x = height ns2 x \<and>
      (\<forall>l. skips (ns' ! x) ! l =
        (if i + 1 \<le> l \<and> l < i + 1 + length prevs \<and> l < height ns2 x
         then if x = newp then skips (ns2 ! (prevs ! (l - (i + 1)))) ! l
              else if x = prevs ! (l - (i + 1)) then Some newp else skips (ns2 ! x) ! l
         else skips (ns2 ! x) ! l)))"
  proof (rule Cons.IH)
    show "\<forall>j < length prevs. prevs ! j < length ns2 \<and> i + 1 + j < height ns2 (prevs ! j)"
      using Cons.prems(1) by (auto simp: len h)
  qed (use Cons.prems in \<open>auto simp: len h\<close>)
  then obtain ns' where ns': "link_levels prevs newp (i + 1) ns2 = Some ns'" "length ns' = length ns"
    "\<And>x. x < length ns \<Longrightarrow> next_node (ns' ! x) = next_node (ns2 ! x) \<and> node_key (ns' ! x) = node_key (ns2 ! x) \<and>
      node_value (ns' ! x) = node_value (ns2 ! x) \<and> height ns' x = height ns x"
    "\<And>x l. x < length ns \<Longrightarrow> skips (ns' ! x) ! l =
        (if i + 1 \<le> l \<and> l < i + 1 + length prevs \<and> l < height ns x
         then if x = newp then skips (ns2 ! (prevs ! (l - (i + 1)))) ! l
              else if x = prevs ! (l - (i + 1)) then Some newp else skips (ns2 ! x) ! l
         else skips (ns2 ! x) ! l)"
    by (auto simp: len h)
  have "link_levels (prev # prevs) newp i ns = Some ns'"
    using p ns'(1) by (simp add: index_def height_def ns2_def ns1_def Let_def)
  moreover have other: "next_node (ns2 ! x) = next_node (ns ! x) \<and> node_key (ns2 ! x) = node_key (ns ! x) \<and>
      node_value (ns2 ! x) = node_value (ns ! x)" if "x < length ns" for x
    using p that by (auto simp: ns2_def ns1_def nth_list_update)
  moreover have "skips (ns' ! x) ! l = (if i \<le> l \<and> l < i + length (prev # prevs) \<and> l < height ns x
         then if x = newp then skips (ns ! ((prev # prevs) ! (l - i))) ! l
              else if x = (prev # prevs) ! (l - i) then Some newp else skips (ns ! x) ! l
         else skips (ns ! x) ! l)" if x: "x < length ns" for x l
  proof -
    have skips2: "skips (ns2 ! y) ! l = (if l = i \<and> l < height ns y then if y = newp then ?s
        else if y = prev then Some newp else skips (ns ! y) ! l else skips (ns ! y) ! l)"
      if "y < length ns" for y
      using p that by (auto simp: ns2_def ns1_def nth_list_update height_def)
    have "l > i \<Longrightarrow> l < i + length (prev # prevs) \<Longrightarrow> prevs ! (l - (i + 1)) < length ns"
      using Cons.prems(1) by (auto dest: spec [of _ "l - i"] simp: Suc_diff_Suc)
    then show ?thesis
      using ns'(4) [OF x, of l] skips2 [OF x] skips2 [of "prevs ! (l - (i + 1))"] x
      by (cases "l = i"; cases "l > i") (auto simp: nth_Cons')
  qed
  ultimately show ?case using ns'(2,3) by (intro exI [of _ ns']) (simp add: h)
qed auto

definition node_ok :: "node list \<Rightarrow> nat \<Rightarrow> nat list \<Rightarrow> bool" where
  "node_ok ns a rest \<longleftrightarrow> a < length ns \<and> 0 < height ns a \<and> height ns a \<le> MAX_HEIGHT \<and>
     (\<forall>l < height ns a. skips (ns ! a) ! l = find (\<lambda>b. l < height ns b) rest) \<and>
     next_node (ns ! a) = (case rest of [] \<Rightarrow> None | b # _ \<Rightarrow> Some b)"

lemma linked_iff: "linked ns xs \<longleftrightarrow> (\<forall>pre a rest. xs = pre @ a # rest \<longrightarrow> node_ok ns a rest)"
proof (induction xs)
  case (Cons x xs)
  have "linked ns (x # xs) \<longleftrightarrow> node_ok ns x xs \<and> linked ns xs" by (auto simp: node_ok_def)
  also have "\<dots> \<longleftrightarrow> (\<forall>pre a rest. x # xs = pre @ a # rest \<longrightarrow> node_ok ns a rest)"
    unfolding Cons.IH by (auto simp: Cons_eq_append_conv)
  finally show ?case .
qed simp

lemma last_filter_split:
  assumes "distinct (p1 @ a # p2)" "P a"
  shows "last (filter P (p1 @ a # p2)) = a \<longleftrightarrow> (\<forall>x \<in> set p2. \<not> P x)"
proof (cases "filter P p2 = []")
  case True
  then show ?thesis using assms(2) by (simp add: filter_empty_conv)
next
  case False
  then have "last (filter P p2) \<in> set (filter P p2)" by (rule last_in_set)
  then have "last (filter P p2) \<noteq> a" using assms(1) by auto
  then show ?thesis using False assms(2) by (auto simp: filter_empty_conv)
qed

lemma find_append_first: "\<exists>x \<in> set xs. P x \<Longrightarrow> find P (xs @ ys) = find P xs"
  by (induction xs) auto

text \<open>
  The store after an insertion: the new node \<open>newp\<close> of height \<open>h\<close> goes between \<open>pre\<close> and \<open>post\<close>.
  Level by level, the last node of \<open>pre\<close> that is high enough points to the new node, and the new
  node points to where that node pointed.
\<close>

definition last_taller :: "node list \<Rightarrow> nat \<Rightarrow> nat list \<Rightarrow> nat" where
  "last_taller ns l pre = last (filter (\<lambda>x. l < height ns x) pre)"

definition inserted :: "node list \<Rightarrow> node list \<Rightarrow> nat \<Rightarrow> nat \<Rightarrow> nat list \<Rightarrow> nat list \<Rightarrow> bool" where
  "inserted ns ns' newp h pre post \<longleftrightarrow>
     newp < length ns' \<and> length ns \<le> length ns' \<and> height ns' newp = h \<and>
     next_node (ns' ! newp) = next_node (ns ! last pre) \<and>
     (\<forall>l < h. skips (ns' ! newp) ! l = skips (ns ! last_taller ns l pre) ! l) \<and>
     (\<forall>x \<in> set (pre @ post). height ns' x = height ns x \<and>
        next_node (ns' ! x) = (if x = last pre then Some newp else next_node (ns ! x)) \<and>
        (\<forall>l < height ns x. skips (ns' ! x) ! l =
          (if l < h \<and> x = last_taller ns l pre then Some newp else skips (ns ! x) ! l)))"

lemma last_taller:
  assumes "pre \<noteq> []" "l < height ns (hd pre)"
  shows "last_taller ns l pre \<in> set pre" "l < height ns (last_taller ns l pre)"
proof -
  have "hd pre \<in> set (filter (\<lambda>x. l < height ns x) pre)" using assms by auto
  then have "filter (\<lambda>x. l < height ns x) pre \<noteq> []" by (metis list.set(1) empty_iff)
  from last_in_set [OF this] show "last_taller ns l pre \<in> set pre" "l < height ns (last_taller ns l pre)"
    by (auto simp: last_taller_def)
qed

lemma inserted_find:
  assumes "inserted ns ns' newp h pre post" "set xs \<subseteq> set (pre @ post)"
  shows "find (\<lambda>b. l < height ns' b) xs = find (\<lambda>b. l < height ns b) xs"
  using assms by (intro find_cong) (auto simp: inserted_def)

lemma inserted_pre:
  assumes ins: "inserted ns ns' newp h (p1 @ a # p2) post" "distinct (p1 @ a # p2)"
    and a: "node_ok ns a (p2 @ post)"
  shows "node_ok ns' a (p2 @ newp # post)"
proof -
  let ?pre = "p1 @ a # p2"
  have last: "a = last ?pre \<longleftrightarrow> p2 = []" using ins(2) by (cases p2 rule: rev_cases) auto
  have f2: "find (\<lambda>b. l < height ns' b) p2 = find (\<lambda>b. l < height ns b) p2"
      "find (\<lambda>b. l < height ns' b) post = find (\<lambda>b. l < height ns b) post" for l
    by (auto intro!: inserted_find [OF ins(1)])
  have h2: "x \<in> set p2 \<Longrightarrow> height ns' x = height ns x" for x using ins(1) by (simp add: inserted_def)
  have "skips (ns' ! a) ! l = find (\<lambda>b. l < height ns' b) (p2 @ newp # post)" if l: "l < height ns a" for l
  proof -
    have lf: "a = last_taller ns l ?pre \<longleftrightarrow> (\<forall>x \<in> set p2. \<not> l < height ns x)"
      using last_filter_split [OF ins(2), of "\<lambda>x. l < height ns x"] l unfolding last_taller_def by metis
    have sk: "skips (ns ! a) ! l = find (\<lambda>b. l < height ns b) (p2 @ post)"
        "skips (ns' ! a) ! l = (if l < h \<and> a = last_taller ns l ?pre then Some newp else skips (ns ! a) ! l)"
      using a ins(1) l by (simp_all add: node_ok_def inserted_def)
    show ?thesis
    proof (cases "\<forall>x \<in> set p2. \<not> l < height ns x")
      case True
      then have "find (\<lambda>b. l < height ns b) (p2 @ post) = find (\<lambda>b. l < height ns b) post"
          "find (\<lambda>b. l < height ns' b) (p2 @ newp # post) = find (\<lambda>b. l < height ns' b) (newp # post)"
        using h2 find_append [of p2] by simp_all
      moreover have "height ns' newp = h" using ins(1) by (simp add: inserted_def)
      ultimately show ?thesis using lf sk f2 True by simp
    next
      case False
      then have "find (\<lambda>b. l < height ns b) (p2 @ post) = find (\<lambda>b. l < height ns b) p2"
          "find (\<lambda>b. l < height ns' b) (p2 @ newp # post) = find (\<lambda>b. l < height ns' b) p2"
        using h2 find_append_first [of p2] by auto
      then show ?thesis using lf sk f2 False by simp
    qed
  qed
  then show ?thesis using a ins(1) last by (cases p2) (auto simp: node_ok_def inserted_def)
qed

lemma inserted_new:
  assumes ins: "inserted ns ns' newp h pre post" "distinct pre" "pre \<noteq> []"
    and h: "0 < h" "h \<le> MAX_HEIGHT" "h \<le> height ns (hd pre)"
    and ok: "\<And>p1 a p2. pre = p1 @ a # p2 \<Longrightarrow> node_ok ns a (p2 @ post)"
  shows "node_ok ns' newp post"
proof -
  have lp: "node_ok ns (last pre) post" using ok [of "butlast pre" "last pre" "[]"] ins(3) by simp
  have "skips (ns' ! newp) ! l = find (\<lambda>b. l < height ns' b) post" if l: "l < h" for l
  proof -
    let ?p = "last_taller ns l pre"
    have lt: "?p \<in> set pre" "l < height ns ?p" using last_taller [OF ins(3), of l ns] h(3) l by auto
    then obtain p1 p2 where pre: "pre = p1 @ ?p # p2" by (meson split_list)
    have "distinct (p1 @ ?p # p2)" using ins(2) pre by simp
    then have none: "\<forall>x \<in> set p2. \<not> l < height ns x"
      using last_filter_split [of p1 ?p p2 "\<lambda>x. l < height ns x"] lt(2) pre
      unfolding last_taller_def by metis
    have "node_ok ns ?p (p2 @ post)" by (rule ok [OF pre])
    then show ?thesis
      using ins(1) l lt(2) find_append [OF none] inserted_find [OF ins(1), of post l]
      by (simp add: node_ok_def inserted_def)
  qed
  then show ?thesis using ins(1) h lp by (simp add: node_ok_def inserted_def)
qed

lemma inserted_post:
  assumes ins: "inserted ns ns' newp h pre (xs @ a # rest)" "distinct (pre @ xs @ a # rest)" "pre \<noteq> []"
    and h: "h \<le> height ns (hd pre)" and a: "node_ok ns a rest"
  shows "node_ok ns' a rest"
proof -
  have "a \<noteq> last_taller ns l pre" if "l < h" for l
    using last_taller(1) [OF ins(3), of l ns] h that ins(2) by auto
  moreover have "a \<noteq> last pre" using ins(2,3) by auto
  moreover have "find (\<lambda>b. l < height ns' b) rest = find (\<lambda>b. l < height ns b) rest" for l
    by (rule inserted_find [OF ins(1)]) auto
  ultimately show ?thesis using a ins(1) by (auto simp: node_ok_def inserted_def)
qed

lemma linked_insert:
  assumes ns: "linked ns (pre @ post)" "distinct (pre @ post)" "pre \<noteq> []"
    and h: "0 < h" "h \<le> MAX_HEIGHT" "h \<le> height ns (hd pre)"
    and ins: "inserted ns ns' newp h pre post"
  shows "linked ns' (pre @ newp # post)"
  unfolding linked_iff
proof (intro allI impI)
  fix xs a rest
  assume "pre @ newp # post = xs @ a # rest"
  then consider (pre) p2 where "pre = xs @ a # p2" "rest = p2 @ newp # post"
    | (new) "a = newp" "rest = post" | (post) ys where "post = ys @ a # rest"
    by (fastforce simp: append_eq_append_conv2 Cons_eq_append_conv append_eq_Cons_conv)
  moreover have ok: "pre @ post = xs @ a # rest \<Longrightarrow> node_ok ns a rest" for xs a rest
    using ns(1) by (auto simp: linked_iff)
  ultimately show "node_ok ns' a rest"
  proof cases
    case pre
    then show ?thesis using inserted_pre [of ns ns' newp h xs a p2 post] ins ns(2) ok [of xs a "p2 @ post"]
      by (auto simp: Int_Un_distrib)
  next
    case new
    then show ?thesis using inserted_new [OF ins _ ns(3) h] ns(2) ok by simp
  next
    case post
    then show ?thesis using inserted_post [of ns ns' newp h pre ys a rest] ins ns(2,3) h(3) ok [of "pre @ ys" a rest] by simp
  qed
qed


section \<open>The skip map as a sorted list\<close>

definition sm_chain :: "'g skip_map \<Rightarrow> nat list" where
  "sm_chain sm = follow (nodes sm) (length (nodes sm)) 0"

definition sm_entries :: "'g skip_map \<Rightarrow> (bytes \<times> bytes) list" where
  "sm_entries sm = map (\<lambda>a. (node_key (nodes sm ! a), node_value (nodes sm ! a))) (sm_chain sm)"

definition skip_map_inv :: "bytes set \<Rightarrow> 'g skip_map \<Rightarrow> bool" where
  "skip_map_inv K sm \<longleftrightarrow> cmp_order (cmp (map_cmp sm)) K \<and> linked (nodes sm) (0 # sm_chain sm) \<and>
     distinct (0 # sm_chain sm) \<and> height (nodes sm) 0 = MAX_HEIGHT \<and>
     chain_sorted (cmp (map_cmp sm)) K (nodes sm) (sm_chain sm) \<and>
     (\<forall>a \<in> set (sm_chain sm). key_at (nodes sm) a \<noteq> []) \<and> map_len sm = length (sm_chain sm)"

text \<open>What an insertion means for the sorted list of entries.\<close>

definition insert_entry ::
    "(bytes \<Rightarrow> bytes \<Rightarrow> ordering run) \<Rightarrow> bytes \<Rightarrow> bytes \<Rightarrow> (bytes \<times> bytes) list \<Rightarrow> (bytes \<times> bytes) list" where
  "insert_entry cm k v es =
     takeWhile (\<lambda>(k', _). cmp_lt cm k' k) es @ (k, v) # dropWhile (\<lambda>(k', _). cmp_lt cm k' k) es"

lemma chain_follow:
  assumes "linked ns (0 # as)" "distinct (0 # as)"
  shows "follow ns (length ns) 0 = as"
proof (rule linked_follow [OF assms(1)])
  have "set as \<subseteq> {..<length ns}" using assms(1) linked_bounds [OF assms(1)] by auto
  then have "card (set as) \<le> length ns" using card_mono [of "{..<length ns}"] by simp
  then show "length as \<le> length ns" using assms(2) distinct_card [of as] by simp
qed

lemma skip_map_new_inv:
  assumes "cmp_order (cmp cm) K"
  shows "skip_map_inv K (skip_map_new g cm)" "sm_entries (skip_map_new g cm) = []"
  using assms
  by (simp_all add: skip_map_inv_def sm_entries_def sm_chain_def skip_map_new_def MAX_HEIGHT_def height_def
      chain_sorted_def)

lemma sm_index:
  assumes "skip_map_inv K sm" "a \<in> set (0 # sm_chain sm)"
  shows "index (nodes sm) a = Some (nodes sm ! a)"
  using assms linked_bounds [of "nodes sm" "0 # sm_chain sm" a] by (simp add: skip_map_inv_def index_def)

lemma get_greater_or_equal_eq:
  assumes "skip_map_inv K sm" "t \<in> K"
  shows "get_greater_or_equal sm t =
    Some (find (\<lambda>a. \<not> cmp_lt (cmp (map_cmp sm)) (key_at (nodes sm) a) t) (sm_chain sm))"
proof -
  let ?ns = "nodes sm" and ?cm = "cmp (map_cmp sm)" and ?as = "sm_chain sm"
  let ?P = "\<lambda>a. \<not> cmp_lt ?cm (key_at ?ns a) t"
  have i: "bytes_order ?cm K" "linked ?ns (0 # ?as)" "height ?ns 0 = MAX_HEIGHT" "chain_sorted ?cm K ?ns ?as"
      "distinct (0 # ?as)"
    using assms(1) by (simp_all add: skip_map_inv_def bytes_order_def)
  have loop: "ge_loop ?cm ?ns t 0 11 = Some (case find ?P ?as of Some b \<Rightarrow> Inl b | None \<Rightarrow> Inr (last (0 # ?as)))"
    by (rule bytes_order.ge_loop_ok [OF i(1,2,4) assms(2)]) (simp add: i(3) MAX_HEIGHT_def)
  have head: "index ?ns 0 = Some (?ns ! 0)" "length (skips (?ns ! 0)) = 12"
    using sm_index [OF assms(1), of 0] i(3) by (simp_all add: height_def MAX_HEIGHT_def)
  show ?thesis
  proof (cases "find ?P ?as")
    case None
    then have "a \<in> set ?as \<Longrightarrow> ?cm (node_key (?ns ! a)) t = Some Less" for a
      by (auto simp: find_None_iff cmp_lt_def key_at_def)
    with None loop head i(5) show ?thesis
      by (auto simp: get_greater_or_equal_def usub_def sm_index [OF assms(1)])
  next
    case (Some b)
    with loop head show ?thesis by (simp add: get_greater_or_equal_def usub_def)
  qed
qed

lemma get_next_smaller_eq:
  assumes "skip_map_inv K sm" "t \<in> K"
  defines "below \<equiv> takeWhile (\<lambda>a. cmp_lt (cmp (map_cmp sm)) (key_at (nodes sm) a) t) (sm_chain sm)"
  shows "get_next_smaller sm t = Some (if below = [] then None else Some (last below))"
proof -
  let ?ns = "nodes sm" and ?cm = "cmp (map_cmp sm)" and ?as = "sm_chain sm"
  have i: "bytes_order ?cm K" "linked ?ns (0 # ?as)" "height ?ns 0 = MAX_HEIGHT" "chain_sorted ?cm K ?ns ?as"
      "distinct (0 # ?as)"
    using assms(1) by (simp_all add: skip_map_inv_def bytes_order_def)
  have loop: "lt_loop ?cm ?ns t 0 11 = Some (last (0 # below))"
    unfolding below_def
    by (rule bytes_order.lt_loop_ok [OF i(1,2,4) assms(2)]) (simp add: i(3) MAX_HEIGHT_def)
  have head: "index ?ns 0 = Some (?ns ! 0)" "length (skips (?ns ! 0)) = 12"
    using sm_index [OF assms(1), of 0] i(3) by (simp_all add: height_def MAX_HEIGHT_def)
  show ?thesis
  proof (cases "below = []")
    case True
    with loop head show ?thesis by (simp add: get_next_smaller_def usub_def)
  next
    case False
    then have "last below \<in> set below" by (rule last_in_set)
    then have "last below \<in> set ?as" "?cm (node_key (?ns ! last below)) t = Some Less"
      by (auto simp: below_def cmp_lt_def key_at_def dest: set_takeWhileD)
    moreover from this(1) have "last below \<noteq> 0" using i(5) by (metis distinct.simps(2))
    ultimately show ?thesis
      using False loop head by (simp add: get_next_smaller_def usub_def sm_index [OF assms(1)])
  qed
qed

lemma random_height_bounds:
  assumes "random_height next_u32 g = (h, g')"
  shows "0 < h" "h \<le> MAX_HEIGHT"
proof -
  have "random_height_loop next_u32 g n = (h, g') \<Longrightarrow> 0 < n \<Longrightarrow> n \<le> MAX_HEIGHT \<Longrightarrow> 0 < h \<and> h \<le> MAX_HEIGHT" for n
  proof (induction next_u32 g n rule: random_height_loop.induct)
    case (1 next_u32 g n)
    then show ?case
      by (cases "next_u32 g") (auto simp: random_height_loop.simps [of next_u32 g n] split: if_splits)
  qed
  from this [of 1] assms show "0 < h" "h \<le> MAX_HEIGHT" by (simp_all add: random_height_def MAX_HEIGHT_def)
qed

lemma link_node:
  assumes "linked ns (pre @ post)" "distinct (pre @ post)" "pre \<noteq> []" "0 < h" "h \<le> height ns (hd pre)"
    and "prevs = map (\<lambda>l. last_taller ns l pre) [0..<h]" "newp = length ns"
    and "length (skips new) = h"
  shows "\<exists>ns1. link_levels prevs newp 0 (ns @ [new]) = Some ns1 \<and> length ns1 = Suc (length ns) \<and>
    last pre < length ns \<and>
    inserted ns (ns1[newp := (ns1 ! newp)\<lparr>next_node := next_node (ns1 ! last pre)\<rparr>,
                     last pre := (ns1 ! last pre)\<lparr>next_node := Some newp\<rparr>]) newp h pre post \<and>
    (\<forall>x < length ns. node_key (ns1 ! x) = node_key (ns ! x) \<and> node_value (ns1 ! x) = node_value (ns ! x)) \<and>
    node_key (ns1 ! newp) = node_key new \<and> node_value (ns1 ! newp) = node_value new"
proof -
  have bnd: "x < length ns" if "x \<in> set (pre @ post)" for x using linked_bounds [OF assms(1) that] by simp
  have tall: "last_taller ns l pre \<in> set pre" "l < height ns (last_taller ns l pre)" if "l < h" for l
    using last_taller [OF assms(3), of l ns] assms(5) that by auto
  have lt: "last pre < length ns" "last pre \<noteq> newp" using bnd [of "last pre"] assms(3,7) by auto
  have old: "(ns @ [new]) ! x = ns ! x" "height (ns @ [new]) x = height ns x" if "x < length ns" for x
    using that by (simp_all add: nth_append height_def)
  have pl: "prevs ! j < length ns" "j < height ns (prevs ! j)" if "j < length prevs" for j
    using tall [of j] bnd that assms(6) by auto
  have np: "newp \<notin> set prevs" using pl(1) assms(7) by (metis in_set_conv_nth less_irrefl)
  have "\<exists>ns'. link_levels prevs newp 0 (ns @ [new]) = Some ns' \<and> length ns' = length (ns @ [new]) \<and>
    (\<forall>x < length (ns @ [new]). next_node (ns' ! x) = next_node ((ns @ [new]) ! x) \<and>
      node_key (ns' ! x) = node_key ((ns @ [new]) ! x) \<and> node_value (ns' ! x) = node_value ((ns @ [new]) ! x) \<and>
      height ns' x = height (ns @ [new]) x \<and>
      (\<forall>l. skips (ns' ! x) ! l =
        (if 0 \<le> l \<and> l < 0 + length prevs \<and> l < height (ns @ [new]) x
         then if x = newp then skips ((ns @ [new]) ! (prevs ! (l - 0))) ! l
              else if x = prevs ! (l - 0) then Some newp else skips ((ns @ [new]) ! x) ! l
         else skips ((ns @ [new]) ! x) ! l)))"
    using pl np assms(6-8) by (intro link_levels_ok) (simp_all add: old less_SucI height_def)
  then obtain ns1 where ns1: "link_levels prevs newp 0 (ns @ [new]) = Some ns1" "length ns1 = Suc (length ns)"
    "\<And>x. x < Suc (length ns) \<Longrightarrow> next_node (ns1 ! x) = next_node ((ns @ [new]) ! x) \<and>
      node_key (ns1 ! x) = node_key ((ns @ [new]) ! x) \<and> node_value (ns1 ! x) = node_value ((ns @ [new]) ! x) \<and>
      height ns1 x = height (ns @ [new]) x"
    "\<And>x l. x < Suc (length ns) \<Longrightarrow> skips (ns1 ! x) ! l =
        (if l < h \<and> l < height (ns @ [new]) x
         then if x = newp then skips ((ns @ [new]) ! (prevs ! l)) ! l
              else if x = prevs ! l then Some newp else skips ((ns @ [new]) ! x) ! l
         else skips ((ns @ [new]) ! x) ! l)"
    using assms(6) by auto
  let ?ns2 = "ns1[newp := (ns1 ! newp)\<lparr>next_node := next_node (ns1 ! last pre)\<rparr>,
                  last pre := (ns1 ! last pre)\<lparr>next_node := Some newp\<rparr>]"
  have nth2: "skips (?ns2 ! x) = skips (ns1 ! x)" "height ?ns2 x = height ns1 x" if "x < Suc (length ns)" for x
    using lt that ns1(2) assms(7) by (auto simp: nth_list_update height_def)
  have nx2: "next_node (?ns2 ! x) = (if x = last pre then Some newp else if x = newp
      then next_node (ns1 ! last pre) else next_node (ns1 ! x))" if "x < Suc (length ns)" for x
    using lt that ns1(2) assms(7) by (auto simp: nth_list_update)
  have prevs: "prevs ! l = last_taller ns l pre" if "l < h" for l using assms(6) that by simp
  have newf: "height ns1 newp = h"
      "skips (ns1 ! newp) ! l = skips (ns ! last_taller ns l pre) ! l" if "l < h" for l
    using ns1(3) [of newp] ns1(4) [of newp l] assms(7,8) that old(1) [OF pl(1)] assms(6)
    by (simp_all add: height_def)
  have oldf: "next_node (ns1 ! x) = next_node (ns ! x)" "height ns1 x = height ns x"
      "skips (ns1 ! x) ! l = (if l < h \<and> x = last_taller ns l pre then Some newp else skips (ns ! x) ! l)"
    if "x \<in> set (pre @ post)" "l < height ns x" for x l
    using ns1(3,4) [of x] bnd [OF that(1)] that(2) prevs assms(7) by (simp_all add: old less_SucI)
  have hx: "0 < height ns x" if "x \<in> set (pre @ post)" for x using linked_bounds [OF assms(1) that] by simp
  have "inserted ns ?ns2 newp h pre post"
    unfolding inserted_def
  proof (intro conjI allI impI ballI)
    show "height ?ns2 newp = h" using nth2(2) [of newp] newf(1) [OF assms(4)] assms(7) by simp
    show "next_node (?ns2 ! newp) = next_node (ns ! last pre)"
      using nx2 [of newp] lt oldf(1) [of "last pre" 0] hx [of "last pre"] assms(3,7) by simp
  next
    fix x
    assume x: "x \<in> set (pre @ post)"
    show "height ?ns2 x = height ns x" using nth2(2) [of x] oldf(2) [OF x hx [OF x]] bnd [OF x] by simp
    show "next_node (?ns2 ! x) = (if x = last pre then Some newp else next_node (ns ! x))"
      using nx2 [of x] oldf(1) [OF x hx [OF x]] bnd [OF x] assms(7) by simp
  qed (use nth2(1) newf(2) oldf(3) bnd ns1(2) assms(7) in \<open>simp_all add: less_SucI\<close>)
  then show ?thesis using ns1 lt(1) assms(7) by (intro exI [of _ ns1]) (simp add: old less_SucI)
qed

lemma insert_chain_sorted:
  assumes ord: "cmp_order cm K" and as: "chain_sorted cm K ns as" and key: "key \<in> K"
    and ne: "\<forall>b \<in> set as. cm (key_at ns b) key \<noteq> Some Equal"
    and ns': "\<And>a. a \<in> set as \<Longrightarrow> key_at ns' a = key_at ns a" "key_at ns' newp = key"
  defines "below \<equiv> \<lambda>a. cmp_lt cm (key_at ns a) key"
  shows "chain_sorted cm K ns' (takeWhile below as @ newp # dropWhile below as)"
proof -
  let ?tw = "takeWhile below as" and ?dw = "dropWhile below as"
  have bo: "bytes_order cm K" using ord by (simp add: bytes_order_def)
  have split: "chain_sorted cm K ns (?tw @ ?dw)" using as by simp
  have dw: "cmp_lt cm key (key_at ns y)" if y: "y \<in> set ?dw" for y
  proof -
    obtain d ds where d: "?dw = d # ds" using y by (cases ?dw) auto
    have nd: "\<not> cmp_lt cm (key_at ns d) key" using d hd_dropWhile [of below as] by (simp add: below_def)
    have sd: "chain_sorted cm K ns (d # ds)" using split chain_sorted_append d by metis
    have "d \<in> set as" using d by (metis list.set_intros(1) set_dropWhileD)
    then have "cmp_lt cm key (key_at ns d)"
      using bytes_order.cmp_keys [OF bo, of "key_at ns d" key] ne nd as key by (auto simp: chain_sorted_def)
    then show ?thesis using bytes_order.chain_above [OF bo sd key nd] y d by auto
  qed
  have tw: "cmp_lt cm (key_at ns x) key" if "x \<in> set ?tw" for x
    using that by (auto simp: below_def dest: set_takeWhileD)
  have keys: "a \<in> set ?tw \<Longrightarrow> key_at ns' a = key_at ns a" "a \<in> set ?dw \<Longrightarrow> key_at ns' a = key_at ns a" for a
    using ns'(1) by (auto dest: set_takeWhileD set_dropWhileD)
  have "map (key_at ns') (?tw @ newp # ?dw) = map (key_at ns) ?tw @ key # map (key_at ns) ?dw"
    using keys ns'(2) by simp
  moreover have "sorted_wrt (cmp_lt cm) (map (key_at ns) ?tw @ key # map (key_at ns) ?dw)"
    using split tw dw unfolding chain_sorted_def sorted_wrt_append by (auto simp: sorted_wrt_append sorted_wrt_map)
  ultimately have "sorted_wrt (\<lambda>a b. cmp_lt cm (key_at ns' a) (key_at ns' b)) (?tw @ newp # ?dw)"
    by (metis sorted_wrt_map)
  then show ?thesis using as key ns' by (auto simp: chain_sorted_def dest: set_takeWhileD set_dropWhileD)
qed

lemma length_takeWhile_dropWhile: "length (takeWhile P xs) + length (dropWhile P xs) = length xs"
  by (induction xs) auto

lemma distinct_insert_between:
  assumes "distinct xs" "a \<notin> set xs"
  shows "distinct (takeWhile P xs @ a # dropWhile P xs)"
proof -
  have "distinct (takeWhile P xs @ dropWhile P xs)" using assms(1) by simp
  then show ?thesis
    using assms(2) unfolding distinct_append by (auto dest: set_takeWhileD set_dropWhileD)
qed

text \<open>An insertion of a new key runs, and links the new node between the smaller and the greater keys.\<close>

lemma skip_map_insert_run:
  assumes inv: "skip_map_inv K sm" and key: "key \<in> K" "key \<noteq> []"
    and ne: "\<forall>b \<in> set (sm_chain sm). cmp (map_cmp sm) (key_at (nodes sm) b) key \<noteq> Some Equal"
  defines "below \<equiv> \<lambda>a. cmp_lt (cmp (map_cmp sm)) (key_at (nodes sm) a) key"
  defines "tw \<equiv> takeWhile below (sm_chain sm)" and "dw \<equiv> dropWhile below (sm_chain sm)"
  shows "\<exists>sm'. skip_map_insert next_u32 sm key val = Some sm' \<and> map_cmp sm' = map_cmp sm \<and>
    map_len sm' = map_len sm + 1 \<and> linked (nodes sm') (0 # tw @ length (nodes sm) # dw) \<and>
    height (nodes sm') 0 = MAX_HEIGHT \<and>
    (\<forall>x \<le> length (nodes sm). node_key (nodes sm' ! x) = (if x = length (nodes sm) then key else node_key (nodes sm ! x)) \<and>
      node_value (nodes sm' ! x) = (if x = length (nodes sm) then val else node_value (nodes sm ! x)))"
proof -
  let ?ns = "nodes sm" and ?cm = "cmp (map_cmp sm)" and ?newp = "length (nodes sm)"
  have i: "bytes_order ?cm K" "linked ?ns (0 # sm_chain sm)" "height ?ns 0 = MAX_HEIGHT"
      "chain_sorted ?cm K ?ns (sm_chain sm)" "distinct (0 # sm_chain sm)"
    using inv by (simp_all add: skip_map_inv_def bytes_order_def)
  obtain h g where hg: "random_height next_u32 (rand sm) = (h, g)" by fastforce
  have h: "0 < h" "h \<le> MAX_HEIGHT" using random_height_bounds [OF hg] by auto
  let ?prevs = "map (\<lambda>i. last_taller ?ns i (0 # tw)) [0..<h]" and ?cur = "last (0 # tw)"
  let ?new = "\<lparr>skips = replicate h None, next_node = None, node_key = key, node_value = val\<rparr>"
  have "insert_loop ?cm ?ns key h 0 11 (replicate h 0) = Some (?cur,
      map (\<lambda>i. if i \<le> 11 then last (filter (\<lambda>x. i < height ?ns x) (0 # tw)) else replicate h 0 ! i) [0..<h])"
    unfolding tw_def below_def
    by (rule bytes_order.insert_loop_ok [OF i(1,2,4) key(1) _ ne]) (simp_all add: i(3) MAX_HEIGHT_def)
  also have "map (\<lambda>i. if i \<le> 11 then last (filter (\<lambda>x. i < height ?ns x) (0 # tw)) else replicate h 0 ! i) [0..<h]
      = ?prevs"
    using h(2) by (auto simp: last_taller_def MAX_HEIGHT_def)
  finally have loop: "insert_loop ?cm ?ns key h 0 11 (replicate h 0) = Some (?cur, ?prevs)" .
  have split: "(0 # tw) @ dw = 0 # sm_chain sm" by (simp add: tw_def dw_def)
  obtain ns1 where ns1: "link_levels ?prevs ?newp 0 (?ns @ [?new]) = Some ns1"
      "length ns1 = Suc ?newp" "?cur < ?newp"
      "inserted ?ns (ns1[?newp := (ns1 ! ?newp)\<lparr>next_node := next_node (ns1 ! ?cur)\<rparr>,
         ?cur := (ns1 ! ?cur)\<lparr>next_node := Some ?newp\<rparr>]) ?newp h (0 # tw) dw"
      "\<forall>x < ?newp. node_key (ns1 ! x) = node_key (?ns ! x) \<and> node_value (ns1 ! x) = node_value (?ns ! x)"
      "node_key (ns1 ! ?newp) = key" "node_value (ns1 ! ?newp) = val"
    using link_node [of ?ns "0 # tw" dw h _ ?newp ?new] i(2,3,5) h unfolding split by auto
  define ns2 where "ns2 = ns1[?newp := (ns1 ! ?newp)\<lparr>next_node := next_node (ns1 ! ?cur)\<rparr>,
      ?cur := (ns1 ! ?cur)\<lparr>next_node := Some ?newp\<rparr>]"
  define sm' where "sm' = sm\<lparr>nodes := ns2, rand := g, map_len := map_len sm + 1,
      approx_mem := approx_mem sm + (size_of_node + size_of_skip * h + length key + length val)\<rparr>"
  have ins: "inserted ?ns ns2 ?newp h (0 # tw) dw" using ns1(4) by (simp add: ns2_def)
  have "skip_map_insert next_u32 sm key val = Some sm'"
    using key(2) hg loop ns1(1-3)
    by (simp add: skip_map_insert_def MAX_HEIGHT_def index_def ns2_def sm'_def Let_def add.assoc)
  moreover have "linked ns2 ((0 # tw) @ ?newp # dw)"
    using linked_insert [OF _ _ _ h(1,2) _ ins] i(2,3,5) h(2) unfolding split by simp
  moreover have "height ns2 0 = MAX_HEIGHT" using ins i(3) by (simp add: inserted_def)
  ultimately show ?thesis
    using ns1(2,3,5-7) by (intro exI [of _ sm']) (auto simp: sm'_def ns2_def nth_list_update)
qed

lemma skip_map_insert_ok:
  assumes inv: "skip_map_inv K sm" and key: "key \<in> K" "key \<noteq> []"
    and fresh: "\<forall>(k, v) \<in> set (sm_entries sm). cmp (map_cmp sm) k key \<noteq> Some Equal"
  shows "\<exists>sm'. skip_map_insert next_u32 sm key val = Some sm' \<and> skip_map_inv K sm' \<and>
    map_cmp sm' = map_cmp sm \<and> sm_entries sm' = insert_entry (cmp (map_cmp sm)) key val (sm_entries sm)"
proof -
  let ?ns = "nodes sm" and ?cm = "cmp (map_cmp sm)" and ?newp = "length (nodes sm)" and ?as = "sm_chain sm"
  let ?below = "\<lambda>a. cmp_lt ?cm (key_at ?ns a) key"
  let ?as' = "takeWhile ?below ?as @ ?newp # dropWhile ?below ?as"
  have i: "linked ?ns (0 # ?as)" "chain_sorted ?cm K ?ns ?as" "distinct (0 # ?as)" "cmp_order ?cm K"
      "\<forall>a \<in> set ?as. key_at ?ns a \<noteq> []" "map_len sm = length ?as"
    using inv by (simp_all add: skip_map_inv_def)
  have ne: "\<forall>b \<in> set ?as. ?cm (key_at ?ns b) key \<noteq> Some Equal"
    using fresh by (auto simp: sm_entries_def key_at_def)
  obtain sm' where sm': "skip_map_insert next_u32 sm key val = Some sm'" "map_cmp sm' = map_cmp sm"
      "map_len sm' = map_len sm + 1" "linked (nodes sm') (0 # ?as')" "height (nodes sm') 0 = MAX_HEIGHT"
      "\<And>x. x \<le> ?newp \<Longrightarrow> node_key (nodes sm' ! x) = (if x = ?newp then key else node_key (?ns ! x)) \<and>
        node_value (nodes sm' ! x) = (if x = ?newp then val else node_value (?ns ! x))"
    using skip_map_insert_run [OF inv key ne, of next_u32 val] by blast
  have bnd: "a < ?newp" if "a \<in> set (0 # ?as)" for a using linked_bounds [OF i(1) that] by simp
  have dist: "distinct (0 # ?as')"
    using distinct_insert_between [of ?as ?newp ?below] i(3) bnd [of 0] bnd
    by (auto dest: set_takeWhileD set_dropWhileD)
  have chain: "sm_chain sm' = ?as'" using chain_follow [OF sm'(4) dist] by (simp add: sm_chain_def)
  have old: "node_key (nodes sm' ! a) = node_key (?ns ! a)" "node_value (nodes sm' ! a) = node_value (?ns ! a)"
    if "a \<in> set ?as" for a using sm'(6) [of a] bnd [of a] that by simp_all
  have sorted: "chain_sorted ?cm K (nodes sm') ?as'"
    using old sm'(6) [of ?newp] by (intro insert_chain_sorted [OF i(4,2) key(1) ne]) (simp_all add: key_at_def)
  have len: "length ?as' = Suc (length ?as)"
    using length_takeWhile_dropWhile [of ?below ?as] by simp
  have "\<forall>a \<in> set ?as'. key_at (nodes sm') a \<noteq> []"
    using i(5) key(2) old sm'(6) [of ?newp] by (auto simp: key_at_def dest: set_takeWhileD set_dropWhileD)
  then have "skip_map_inv K sm'"
    unfolding skip_map_inv_def chain sm'(2,3) using i(4,6) sm'(4,5) dist sorted len by simp
  moreover have "sm_entries sm' = insert_entry ?cm key val (sm_entries sm)"
    using old sm'(6) [of ?newp]
    by (auto simp: sm_entries_def chain insert_entry_def takeWhile_map dropWhile_map comp_def key_at_def
        dest: set_takeWhileD set_dropWhileD)
  ultimately show ?thesis using sm'(1,2) by blast
qed

end
