(* ===== verification/Skip_Map_Iter.thy ===== *)
theory Skip_Map_Iter
  imports Skip_Map "HOL-Library.Multiset"
begin

text \<open>
  The iterator of the skip map satisfies the whole contract of the \<open>LdbIterator\<close> trait over the sorted
  list of entries, and the properties of the skip map: an insertion is an insertion into the sorted
  list, lookups and iteration see exactly that list.
\<close>

definition smi_inv :: "bytes set \<Rightarrow> 'g skip_map_iter \<Rightarrow> bool" where
  "smi_inv K it \<longleftrightarrow> skip_map_inv K (it_map it) \<and> it_cur it \<in> set (0 # sm_chain (it_map it))"

definition smi_entries :: "'g skip_map_iter \<Rightarrow> (bytes \<times> bytes) list" where
  "smi_entries it = sm_entries (it_map it)"

definition smi_pos :: "'g skip_map_iter \<Rightarrow> nat option" where
  "smi_pos it = (if it_cur it = 0 then None
     else Some (length (takeWhile (\<lambda>a. a \<noteq> it_cur it) (sm_chain (it_map it)))))"

definition smi_below :: "'g skip_map_iter \<Rightarrow> bytes \<Rightarrow> bytes \<Rightarrow> bool" where
  "smi_below it = cmp_lt (cmp (map_cmp (it_map it)))"

lemma takeWhile_neq_nth:
  "distinct xs \<Longrightarrow> i < length xs \<Longrightarrow> length (takeWhile (\<lambda>a. a \<noteq> xs ! i) xs) = i"
proof (induction xs arbitrary: i)
  case (Cons x xs)
  then show ?case by (cases i) auto
qed simp

lemma chain_nonzero:
  assumes "skip_map_inv K sm" "i < length (sm_chain sm)"
  shows "sm_chain sm ! i \<noteq> 0"
proof -
  have "sm_chain sm ! i \<in> set (sm_chain sm)" using assms(2) by simp
  then show ?thesis using assms(1) by (metis distinct.simps(2) skip_map_inv_def)
qed

lemma smi_at:
  assumes "skip_map_inv K (it_map it)" "i < length (sm_chain (it_map it))" "it_cur it = sm_chain (it_map it) ! i"
  shows "smi_pos it = Some i" "smi_inv K it" "it_cur it \<noteq> 0"
  using assms takeWhile_neq_nth [of "sm_chain (it_map it)" i] chain_nonzero [OF assms(1,2)]
  by (simp_all add: smi_pos_def smi_inv_def skip_map_inv_def)

lemma smi_cases:
  assumes "smi_inv K it"
  obtains (head) "it_cur it = 0" "smi_pos it = None"
  | (at) i where "i < length (sm_chain (it_map it))" "it_cur it = sm_chain (it_map it) ! i" "smi_pos it = Some i"
proof (cases "it_cur it = 0")
  case True
  then show ?thesis using head by (simp add: smi_pos_def)
next
  case False
  then obtain i where i: "i < length (sm_chain (it_map it))" "it_cur it = sm_chain (it_map it) ! i"
    using assms by (auto simp: smi_inv_def in_set_conv_nth)
  then show ?thesis using at smi_at(1) [of K it i] assms by (simp add: smi_inv_def)
qed

lemma chain_next:
  assumes "skip_map_inv K sm" "j \<le> length (sm_chain sm)"
  shows "next_node (nodes sm ! ((0 # sm_chain sm) ! j)) =
    (if j < length (sm_chain sm) then Some (sm_chain sm ! j) else None)"
proof -
  let ?xs = "0 # sm_chain sm"
  have "linked (nodes sm) ?xs" using assms(1) by (simp add: skip_map_inv_def)
  moreover have "?xs = take j ?xs @ ?xs ! j # drop (Suc j) ?xs"
    using assms(2) by (intro id_take_nth_drop) simp
  ultimately have "node_ok (nodes sm) (?xs ! j) (drop (Suc j) ?xs)" unfolding linked_iff by blast
  moreover have "drop (Suc j) ?xs = (if j < length (sm_chain sm) then sm_chain sm ! j # drop (Suc j) (sm_chain sm) else [])"
    using assms(2) by (simp add: Cons_nth_drop_Suc)
  ultimately show ?thesis by (simp add: node_ok_def split: if_splits)
qed

lemma chain_entries:
  "i < length (sm_chain sm) \<Longrightarrow> sm_entries sm ! i = (key_at (nodes sm) (sm_chain sm ! i), node_value (nodes sm ! (sm_chain sm ! i)))"
  "length (sm_entries sm) = length (sm_chain sm)"
  by (simp_all add: sm_entries_def key_at_def)

lemma chain_key:
  assumes "skip_map_inv K sm" "i < length (sm_chain sm)"
  shows "key_at (nodes sm) (sm_chain sm ! i) \<in> K" "key_at (nodes sm) (sm_chain sm ! i) \<noteq> []"
    "index (nodes sm) (sm_chain sm ! i) = Some (nodes sm ! (sm_chain sm ! i))"
  using assms sm_index [OF assms(1)] by (auto simp: skip_map_inv_def chain_sorted_def)

lemma find_takeWhile:
  "find P xs = (let n = length (takeWhile (\<lambda>x. \<not> P x) xs) in if n < length xs then Some (xs ! n) else None)"
  by (induction xs) (auto simp: Let_def)

lemma chain_below_nth:
  assumes "skip_map_inv K sm" "i < length (sm_chain sm)"
  shows "takeWhile (\<lambda>a. cmp_lt (cmp (map_cmp sm)) (key_at (nodes sm) a)
    (key_at (nodes sm) (sm_chain sm ! i))) (sm_chain sm) = take i (sm_chain sm)"
proof (rule takeWhile_eq_take_P_nth)
  let ?cm = "cmp (map_cmp sm)" and ?k = "\<lambda>j. key_at (nodes sm) (sm_chain sm ! j)"
  have i: "cmp_order ?cm K" "chain_sorted ?cm K (nodes sm) (sm_chain sm)"
    using assms(1) by (simp_all add: skip_map_inv_def)
  show "cmp_lt ?cm (?k j) (?k i)" if "j < i" "j < length (sm_chain sm)" for j
    using i(2) that assms(2) by (simp add: chain_sorted_def sorted_wrt_iff_nth_less)
  show "\<not> cmp_lt ?cm (?k i) (?k i)"
    using cmp_order.lt_irrefl [OF i(1)] chain_key(1) [OF assms] by blast
qed

lemma smi_reset_pos:
  "smi_inv K it \<Longrightarrow> smi_inv K (smi_reset it)" "smi_entries (smi_reset it) = smi_entries it"
  "smi_pos (smi_reset it) = None"
  by (simp_all add: smi_reset_def smi_inv_def smi_entries_def smi_pos_def)

lemma smi_goto:
  assumes "smi_inv K it" "i < length (sm_chain (it_map it))"
  shows "smi_inv K (it\<lparr>it_cur := sm_chain (it_map it) ! i\<rparr>)"
    "smi_entries (it\<lparr>it_cur := sm_chain (it_map it) ! i\<rparr>) = smi_entries it"
    "smi_pos (it\<lparr>it_cur := sm_chain (it_map it) ! i\<rparr>) = Some i"
  using smi_at [of K "it\<lparr>it_cur := sm_chain (it_map it) ! i\<rparr>" i] assms
  by (simp_all add: smi_entries_def smi_inv_def)

lemma smi_current_pos:
  assumes "smi_inv K it"
  shows "smi_current it = Some (map_option ((!) (smi_entries it)) (smi_pos it))"
  using assms
proof (cases rule: smi_cases)
  case (at i)
  have m: "skip_map_inv K (it_map it)" using assms by (simp add: smi_inv_def)
  show ?thesis
    using at chain_key(3) [OF m at(1)] chain_nonzero [OF m at(1)]
    by (simp add: smi_current_def smi_valid_def smi_entries_def chain_entries key_at_def)
qed (simp add: smi_current_def smi_valid_def)

lemma smi_advance_pos:
  assumes "smi_inv K it"
  shows "\<exists>it'. smi_advance it = Some (smi_pos it' \<noteq> None, it') \<and> smi_inv K it' \<and>
    smi_entries it' = smi_entries it \<and> smi_pos it' = pos_advance (length (smi_entries it)) (smi_pos it)"
proof -
  have m: "skip_map_inv K (it_map it)" using assms by (simp add: smi_inv_def)
  have "\<exists>j \<le> length (sm_chain (it_map it)). it_cur it = (0 # sm_chain (it_map it)) ! j \<and>
      pos_advance (length (smi_entries it)) (smi_pos it) = (if j < length (sm_chain (it_map it)) then Some j else None)"
    using assms
  proof (cases rule: smi_cases)
    case head
    then show ?thesis by (intro exI [of _ 0]) (simp add: smi_entries_def chain_entries)
  next
    case (at i)
    then show ?thesis by (intro exI [of _ "Suc i"]) (simp add: smi_entries_def chain_entries)
  qed
  then obtain j where j: "j \<le> length (sm_chain (it_map it))" "it_cur it = (0 # sm_chain (it_map it)) ! j"
      "pos_advance (length (smi_entries it)) (smi_pos it) = (if j < length (sm_chain (it_map it)) then Some j else None)"
    by blast
  have "index (nodes (it_map it)) (it_cur it) = Some (nodes (it_map it) ! it_cur it)"
    using sm_index [OF m] assms by (simp add: smi_inv_def)
  then show ?thesis
    using chain_next [OF m j(1)] j assms smi_goto [OF assms, of j]
    by (cases "j < length (sm_chain (it_map it))") (simp_all add: smi_advance_def smi_reset_pos)
qed

lemma smi_prev_pos:
  assumes "smi_inv K it"
  shows "\<exists>it'. smi_prev it = Some (smi_pos it' \<noteq> None, it') \<and> smi_inv K it' \<and>
    smi_entries it' = smi_entries it \<and> smi_pos it' = pos_prev (smi_pos it)"
  using assms
proof (cases rule: smi_cases)
  case head
  then show ?thesis using assms by (simp add: smi_prev_def smi_valid_def smi_reset_pos)
next
  case (at i)
  have m: "skip_map_inv K (it_map it)" using assms by (simp add: smi_inv_def)
  have sm: "get_next_smaller (it_map it) (node_key (nodes (it_map it) ! it_cur it)) =
      Some (if i = 0 then None else Some (sm_chain (it_map it) ! (i - 1)))"
    using get_next_smaller_eq [OF m chain_key(1) [OF m at(1)]] chain_below_nth [OF m at(1)] at(1,2)
    by (auto simp: key_at_def last_conv_nth)
  note cur = chain_key(3) [OF m at(1)] chain_nonzero [OF m at(1)]
  show ?thesis
  proof (cases "i = 0")
    case True
    then show ?thesis using sm at assms cur by (simp add: smi_prev_def smi_valid_def smi_reset_pos)
  next
    case False
    then have "i - 1 < length (sm_chain (it_map it))" using at(1) by simp
    then show ?thesis
      using False sm at cur smi_goto [OF assms, of "i - 1"] chain_key(2,3) [OF m, of "i - 1"]
      by (simp add: smi_prev_def smi_valid_def key_at_def)
  qed
qed

lemma smi_seek_pos:
  assumes "smi_inv K it" "k \<in> K"
  shows "\<exists>it'. smi_seek k it = Some it' \<and> smi_inv K it' \<and> smi_entries it' = smi_entries it \<and>
    smi_pos it' = pos_find (\<lambda>(k', v). \<not> smi_below it k' k) (smi_entries it)"
proof -
  have m: "skip_map_inv K (it_map it)" using assms by (simp add: smi_inv_def)
  let ?P = "\<lambda>a. \<not> cmp_lt (cmp (map_cmp (it_map it))) (key_at (nodes (it_map it)) a) k"
  let ?n = "length (takeWhile (\<lambda>a. \<not> ?P a) (sm_chain (it_map it)))"
  have "pos_find (\<lambda>(k', v). \<not> smi_below it k' k) (smi_entries it) =
      (if ?n < length (sm_chain (it_map it)) then Some ?n else None)"
    by (simp add: pos_find_def smi_entries_def sm_entries_def smi_below_def takeWhile_map comp_def key_at_def Let_def)
  then show ?thesis
    using get_greater_or_equal_eq [OF m assms(2)] assms(1) smi_goto [OF assms(1), of ?n]
    by (cases "?n < length (sm_chain (it_map it))") (simp_all add: smi_seek_def smi_reset_pos find_takeWhile [of ?P])
qed

interpretation smi: ldb_iterator skip_map_iter_ops "smi_inv K" smi_entries smi_pos smi_below "\<lambda>_ k. k \<in> K" for K
proof
  fix s :: "'g skip_map_iter"
  assume inv: "smi_inv K s"
  show "i < length (smi_entries s)" if "smi_pos s = Some i" for i
    using inv that by (cases rule: smi_cases) (auto simp: smi_entries_def chain_entries)
  show "it_valid skip_map_iter_ops s \<longleftrightarrow> smi_pos s \<noteq> None"
    by (simp add: skip_map_iter_ops_def smi_valid_def smi_pos_def)
qed (simp_all add: skip_map_iter_ops_def smi_current_pos smi_advance_pos smi_prev_pos smi_seek_pos
    smi_reset_pos del: not_None_eq)


section \<open>Properties\<close>

text \<open>C10: On a well-formed skip map, whatever heights the random generator yields, inserting a key that
  compares equal to no key of the map succeeds, keeps the map well-formed (all skip pointers of all
  levels included) and inserts the entry into the sorted list of entries at the place the comparator
  gives it.\<close>

theorem skip_map_insert_refines:
  assumes "skip_map_inv K sm" "key \<in> K" "key \<noteq> []"
    "\<forall>(k, v) \<in> set (sm_entries sm). cmp (map_cmp sm) k key \<noteq> Some Equal"
  shows "\<exists>sm'. skip_map_insert next_u32 sm key val = Some sm' \<and> skip_map_inv K sm' \<and>
    map_cmp sm' = map_cmp sm \<and>
    sm_entries sm' = insert_entry (cmp (map_cmp sm)) key val (sm_entries sm)"
  by (rule skip_map_insert_ok [OF assms])

theorem skip_map_insert_refines_witness:
  "\<exists>sm'. skip_map_insert (\<lambda>g. (g, g)) (skip_map_new 0 DefaultCmp) [97] [1] = Some sm' \<and>
    skip_map_inv UNIV sm' \<and> sm_entries sm' = [([97], [1])]"
proof -
  note new = skip_map_new_inv [OF default_cmp.cmp_order_axioms, of "0 :: u32"]
  show ?thesis
    using skip_map_insert_refines [OF new(1), of "[97]" "\<lambda>g. (g, g)" "[1]"] new(2)
    by (auto simp: insert_entry_def)
qed

text \<open>Inserting a key that compares equal to a key of a well-formed skip map always panics: the walk
  meets that key whatever the heights of the nodes are.\<close>

lemma skip_map_insert_duplicate:
  assumes "skip_map_inv K sm" "key \<in> K" "(k, v) \<in> set (sm_entries sm)" "cmp (map_cmp sm) k key = Some Equal"
  shows "skip_map_insert next_u32 sm key val = None"
proof -
  have i: "bytes_order (cmp (map_cmp sm)) K" "linked (nodes sm) (0 # sm_chain sm)"
      "height (nodes sm) 0 = MAX_HEIGHT" "chain_sorted (cmp (map_cmp sm)) K (nodes sm) (sm_chain sm)"
    using assms(1) by (simp_all add: skip_map_inv_def bytes_order_def)
  obtain b where b: "b \<in> set (sm_chain sm)" "key_at (nodes sm) b = k"
    using assms(3) by (auto simp: sm_entries_def key_at_def)
  have "insert_loop (cmp (map_cmp sm)) (nodes sm) key h 0 (MAX_HEIGHT - 1) prevs = None" for h prevs
    by (rule bytes_order.insert_loop_duplicate [OF i(1,2,4) assms(2) _ b(1)])
      (use i(3) b(2) assms(4) in \<open>simp_all add: MAX_HEIGHT_def\<close>)
  then show ?thesis by (simp add: skip_map_insert_def split: prod.splits)
qed

text \<open>A map filled with a list of entries, from the first to the last.\<close>

fun insert_all :: "('g \<Rightarrow> u32 \<times> 'g) \<Rightarrow> 'g skip_map \<Rightarrow> (bytes \<times> bytes) list \<Rightarrow> 'g skip_map run" where
  "insert_all next_u32 sm [] = Some sm"
| "insert_all next_u32 sm ((k, v) # kvs) =
     do { sm \<leftarrow> skip_map_insert next_u32 sm k v; insert_all next_u32 sm kvs }"

lemma mset_insert_entry: "mset (insert_entry cm k v es) = add_mset (k, v) (mset es)"
proof -
  let ?P = "\<lambda>(k', _). cmp_lt cm k' k"
  have "mset es = mset (takeWhile ?P es @ dropWhile ?P es)" by simp
  then show ?thesis unfolding insert_entry_def mset_append by simp
qed

lemma insert_all_ok:
  assumes "skip_map_inv K sm" "\<forall>(k, v) \<in> set kvs. k \<in> K \<and> k \<noteq> []"
    "sorted_wrt (\<lambda>(k, _) (k', _). cmp (map_cmp sm) k k' \<noteq> Some Equal) kvs"
    "\<forall>(k, _) \<in> set (sm_entries sm). \<forall>(k', _) \<in> set kvs. cmp (map_cmp sm) k k' \<noteq> Some Equal"
  shows "\<exists>sm'. insert_all next_u32 sm kvs = Some sm' \<and> skip_map_inv K sm' \<and> map_cmp sm' = map_cmp sm \<and>
    mset (sm_entries sm') = mset (sm_entries sm) + mset kvs"
  using assms
proof (induction kvs arbitrary: sm)
  case (Cons kv kvs)
  obtain k v where kv: "kv = (k, v)" by fastforce
  have "\<forall>(k', v') \<in> set (sm_entries sm). cmp (map_cmp sm) k' k \<noteq> Some Equal"
    using Cons.prems(4) kv by auto
  then obtain sm1 where sm1: "skip_map_insert next_u32 sm k v = Some sm1" "skip_map_inv K sm1"
      "map_cmp sm1 = map_cmp sm" "sm_entries sm1 = insert_entry (cmp (map_cmp sm)) k v (sm_entries sm)"
    using skip_map_insert_ok [OF Cons.prems(1), of k next_u32 v] Cons.prems(2) kv by auto
  have set1: "set (sm_entries sm1) = insert (k, v) (set (sm_entries sm))"
    using arg_cong [OF mset_insert_entry [of "cmp (map_cmp sm)" k v "sm_entries sm"], of set_mset] sm1(4) by simp
  have "\<exists>sm'. insert_all next_u32 sm1 kvs = Some sm' \<and> skip_map_inv K sm' \<and> map_cmp sm' = map_cmp sm1 \<and>
      mset (sm_entries sm') = mset (sm_entries sm1) + mset kvs"
    by (rule Cons.IH [OF sm1(2)]) (use Cons.prems kv in \<open>auto simp: sm1(3) set1\<close>)
  then show ?case using sm1 kv by (auto simp: mset_insert_entry)
qed simp

lemma entries_sorted:
  assumes "skip_map_inv K sm"
  shows "sorted_wrt (cmp_lt (cmp (map_cmp sm))) (map fst (sm_entries sm))"
  using assms by (simp add: skip_map_inv_def chain_sorted_def sm_entries_def key_at_def comp_def sorted_wrt_map)

text \<open>A skip map filled in any order with entries whose keys are pairwise different returns, when
  iterated from the start, exactly these entries, in strictly ascending order of their keys.\<close>

lemma skip_map_sorts:
  assumes "cmp_order (cmp cm) K" "\<forall>(k, v) \<in> set kvs. k \<in> K \<and> k \<noteq> []"
    "sorted_wrt (\<lambda>(k, _) (k', _). cmp cm k k' \<noteq> Some Equal) kvs" "length kvs < n"
  shows "\<exists>sm es. insert_all next_u32 (skip_map_new g cm) kvs = Some sm \<and>
    collect skip_map_iter_ops n (skip_map_iter_new sm) = Some es \<and>
    mset es = mset kvs \<and> sorted_wrt (cmp_lt (cmp cm)) (map fst es)"
proof -
  have cm: "map_cmp (skip_map_new g cm) = cm" by (simp add: skip_map_new_def)
  obtain sm where sm: "insert_all next_u32 (skip_map_new g cm) kvs = Some sm" "skip_map_inv K sm"
      "map_cmp sm = cm" "mset (sm_entries sm) = mset kvs"
    using insert_all_ok [OF skip_map_new_inv(1) [OF assms(1)] assms(2), of g next_u32] assms(3)
      skip_map_new_inv(2) [OF assms(1), of g] by (auto simp: cm)
  have it: "smi_inv K (skip_map_iter_new sm)" "smi_pos (skip_map_iter_new sm) = None"
      "smi_entries (skip_map_iter_new sm) = sm_entries sm"
    using sm(2) by (simp_all add: smi_inv_def skip_map_iter_new_def smi_pos_def smi_entries_def)
  have "length (sm_entries sm) < n" using assms(4) mset_eq_length [OF sm(4)] by simp
  then have "collect skip_map_iter_ops n (skip_map_iter_new sm) = Some (sm_entries sm)"
    using smi.collect_all [OF it(1,2)] it(3) by simp
  then show ?thesis using sm entries_sorted [OF sm(2)] by auto
qed

end
