(* ===== verification/Mem_Table.thy ===== *)
theory Mem_Table
  imports Skip_Map_Iter
begin

text \<open>
  The memtable (\<open>src/src/memtable.rs\<close>): entries are encoded into the keys of a skip map; \<open>get\<close> seeks
  to the first entry at or after the lookup key, which is the newest entry of that user key that is
  not newer than the lookup's sequence number.
\<close>

record 'g mem_table =
  mt_map :: "'g skip_map"

definition mem_table_new_raw :: "'g \<Rightarrow> comparator \<Rightarrow> 'g mem_table" where
  "mem_table_new_raw g cm = \<lparr>mt_map = skip_map_new g cm\<rparr>"

definition mem_table_new :: "int_codec \<Rightarrow> 'g \<Rightarrow> comparator \<Rightarrow> 'g mem_table" where
  "mem_table_new ie g cm = mem_table_new_raw g (MemtableKeyCmp ie cm)"

definition mem_table_len :: "'g mem_table \<Rightarrow> nat" where
  "mem_table_len mt = map_len (mt_map mt)"

definition approx_mem_usage :: "'g mem_table \<Rightarrow> nat" where
  "approx_mem_usage mt = approx_mem (mt_map mt)"

definition mem_table_add ::
    "int_codec \<Rightarrow> ('g \<Rightarrow> u32 \<times> 'g) \<Rightarrow> 'g mem_table \<Rightarrow> sequence_number \<Rightarrow> value_type \<Rightarrow> bytes \<Rightarrow> bytes
     \<Rightarrow> 'g mem_table run" where
  "mem_table_add ie next_u32 mt seq t key value =
     do {
       mk \<leftarrow> build_memtable_key ie key value t seq;
       sm \<leftarrow> skip_map_insert next_u32 (mt_map mt) mk [];
       Some \<lparr>mt_map = sm\<rparr>
     }"

definition mem_table_get :: "int_codec \<Rightarrow> 'g mem_table \<Rightarrow> lookup_key \<Rightarrow> (bytes option \<times> bool) run" where
  "mem_table_get ie mt key =
     do {
       it \<leftarrow> smi_seek (memtable_key key) (skip_map_iter_new (mt_map mt));
       c \<leftarrow> current_key_val skip_map_iter_ops it;
       (case c of
          None \<Rightarrow> Some (None, False)
        | Some (foundkey, _) \<Rightarrow> do {
            (fkeylen, fkeyoff, tag, vallen, valoff) \<leftarrow> parse_memtable_key ie foundkey;
            ukey \<leftarrow> user_key key;
            fkey \<leftarrow> slice_range fkeyoff (fkeyoff + fkeylen) foundkey;
            if ukey = fkey then
              if tag AND 0xff = value_type_code TypeValue
              then do { v \<leftarrow> slice_range valoff (valoff + vallen) foundkey; Some (Some v, False) }
              else Some (None, True)
            else Some (None, False)
          })
     }"

text \<open>The iterator: its keys are internal keys.\<close>

definition mti_advance :: "'g skip_map_iter \<Rightarrow> (bool \<times> 'g skip_map_iter) run" where
  "mti_advance it = do { (moved, it) \<leftarrow> smi_advance it; Some (if moved then smi_valid it else False, it) }"

partial_function (option) mti_prev :: "int_codec \<Rightarrow> 'g skip_map_iter \<Rightarrow> (bool \<times> 'g skip_map_iter) option" where
  "mti_prev ie it =
     do {
       (moved, it) \<leftarrow> smi_prev it;
       if \<not> moved then Some (False, it)
       else do {
         c \<leftarrow> smi_current it;
         (case c of
            None \<Rightarrow> Some (False, it)
          | Some (key, _) \<Rightarrow> do {
              (_, _, tag, _, _) \<leftarrow> parse_memtable_key ie key;
              if tag AND 0xff = value_type_code TypeValue then Some (True, it) else mti_prev ie it
            })
       }
     }"

text \<open>\<open>shift_left\<close>: the loop of swaps from \<open>mid\<close> to the end, then the truncation.\<close>

fun swap :: "nat \<Rightarrow> nat \<Rightarrow> 'a list \<Rightarrow> 'a list run" where
  "swap i j xs = do { x \<leftarrow> index xs i; y \<leftarrow> index xs j; Some (xs[i := y, j := x]) }"

function shift_swaps :: "nat \<Rightarrow> nat \<Rightarrow> bytes \<Rightarrow> bytes run" where
  "shift_swaps mid i s =
     (if i < length s
      then (case swap i (i - mid) s of None \<Rightarrow> None | Some s' \<Rightarrow> shift_swaps mid (i + 1) s')
      else Some s)"
  by pat_completeness auto
termination
  by (relation "measure (\<lambda>(mid, i, s). length s - i)")
    (auto simp: index_eq_Some split: Option.bind_splits)

definition shift_left :: "bytes \<Rightarrow> nat \<Rightarrow> bytes run" where
  "shift_left s mid =
     do { s \<leftarrow> shift_swaps mid mid s; newlen \<leftarrow> usub (length s) mid; Some (take newlen s) }"

definition mti_current :: "int_codec \<Rightarrow> 'g skip_map_iter \<Rightarrow> (bytes \<times> bytes) option run" where
  "mti_current ie it =
     (if \<not> smi_valid it then Some None
      else do {
        c \<leftarrow> smi_current it;
        (case c of
           None \<Rightarrow> None
         | Some (key, _) \<Rightarrow> do {
             (keylen, keyoff, _, vallen, valoff) \<leftarrow> parse_memtable_key ie key;
             val \<leftarrow> slice_range valoff (valoff + vallen) key;
             key \<leftarrow> shift_left key keyoff;
             Some (Some (take (keylen + U64_SPACE) key, val))
           })
      })"

definition mti_seek :: "int_codec \<Rightarrow> bytes \<Rightarrow> 'g skip_map_iter \<Rightarrow> 'g skip_map_iter run" where
  "mti_seek ie to it =
     do {
       (_, seq, ukey) \<leftarrow> parse_internal_key ie to;
       lk \<leftarrow> lookup_key_new ie ukey seq;
       smi_seek (memtable_key lk) it
     }"

definition memtable_iter_ops :: "int_codec \<Rightarrow> 'g skip_map_iter iter_ops" where
  "memtable_iter_ops ie = \<lparr>
     it_advance = mti_advance, it_current = mti_current ie, it_seek = mti_seek ie,
     it_reset = (\<lambda>it. Some (smi_reset it)), it_valid = smi_valid, it_prev = mti_prev ie\<rparr>"

declare shift_swaps.simps [simp del]


section \<open>Moving bytes to the front\<close>

lemma shift_swaps_ok:
  assumes "mid \<le> i" "i \<le> length s"
  shows "\<exists>s'. shift_swaps mid i s = Some s' \<and> length s' = length s \<and>
    take (length s - mid) s' = take (i - mid) s @ drop i s"
  using assms
proof (induction mid i s rule: shift_swaps.induct)
  case (1 mid i s)
  show ?case
  proof (cases "i < length s")
    case True
    let ?s = "s[i := s ! (i - mid), i - mid := s ! i]"
    have sw: "swap i (i - mid) s = Some ?s" using True by (simp add: index_def)
    have "take (Suc i - mid) ?s = take (i - mid) s @ [s ! i]"
      using True "1.prems" by (auto simp: Suc_diff_le take_Suc_conv_app_nth)
    moreover have "drop (Suc i) ?s = drop (Suc i) s" by simp
    moreover have "drop i s = s ! i # drop (Suc i) s" using True by (simp add: Cons_nth_drop_Suc)
    ultimately show ?thesis
      using "1.IH" [OF True sw] "1.prems" True sw by (simp add: shift_swaps.simps [of mid i s])
  next
    case False
    then have "shift_swaps mid i s = Some s" by (subst shift_swaps.simps) simp
    then show ?thesis using False "1.prems" by simp
  qed
qed

lemma shift_left_ok: "mid \<le> length s \<Longrightarrow> shift_left s mid = Some (drop mid s)"
  using shift_swaps_ok [of mid mid s] by (auto simp: shift_left_def usub_def)

section \<open>Entries\<close>

text \<open>
  What is stored: sequence number, type, user key and value of every \<open>add\<close>, encoded as memtable keys.
\<close>

type_synonym mem_entry = "sequence_number \<times> value_type \<times> bytes \<times> bytes"

fun entry_ok :: "mem_entry \<Rightarrow> bool" where
  "entry_ok (s, t, k, v) \<longleftrightarrow> s \<le> MAX_SEQUENCE_NUMBER \<and> length k + 8 < 2 ^ 64 \<and> length v < 2 ^ 64"

fun entry_id :: "mem_entry \<Rightarrow> bytes \<times> sequence_number" where
  "entry_id (s, t, k, v) = (k, s)"

fun enc_entry :: "int_codec \<Rightarrow> mem_entry \<Rightarrow> bytes" where
  "enc_entry ie (s, t, k, v) = memtable_entry ie k v t s"

definition mem_inv :: "int_codec \<Rightarrow> comparator \<Rightarrow> 'g mem_table \<Rightarrow> mem_entry set \<Rightarrow> bool" where
  "mem_inv ie U mt A \<longleftrightarrow> skip_map_inv (memtable_keys ie) (mt_map mt) \<and>
     map_cmp (mt_map mt) = MemtableKeyCmp ie U \<and> (\<forall>e \<in> A. entry_ok e) \<and>
     set (sm_entries (mt_map mt)) = (\<lambda>e. (enc_entry ie e, [])) ` A"

lemma mem_table_new_inv:
  assumes "cmp_order (cmp U) UNIV"
  shows "mem_inv ie U (mem_table_new ie g U) {}"
  using skip_map_new_inv [OF memtable_key_order [OF assms, of ie], of g]
  by (simp add: mem_inv_def mem_table_new_def mem_table_new_raw_def) (simp add: skip_map_new_def)

lemma cmp_entries:
  assumes "integer_encoding ie" "entry_ok (s, t, k, v)" "entry_ok (s', t', k', v')"
  shows "cmp_memtable_key ie U (enc_entry ie (s, t, k, v)) (enc_entry ie (s', t', k', v')) = key_seq_cmp U k s k' s'"
    "enc_entry ie (s, t, k, v) \<in> memtable_keys ie" "enc_entry ie (s, t, k, v) \<noteq> []"
proof -
  note laws = integer_encoding.memtable_entry_ikey [OF assms(1)] integer_encoding.cmp_ikeys [OF assms(1)]
  show "cmp_memtable_key ie U (enc_entry ie (s, t, k, v)) (enc_entry ie (s', t', k', v')) = key_seq_cmp U k s k' s'"
    using assms(2,3) by (simp add: cmp_memtable_key_eq laws)
  show "enc_entry ie (s, t, k, v) \<in> memtable_keys ie" using assms(2) by (simp add: laws)
  show "enc_entry ie (s, t, k, v) \<noteq> []"
    using assms(2) integer_encoding.encode_var_nonempty [OF assms(1), of "length k + 8"]
    by (simp add: memtable_entry_def)
qed

lemma mem_table_add_ok:
  assumes "integer_encoding ie" "mem_inv ie U mt A" "entry_ok (s, t, k, v)"
    "\<forall>(s', t', k', v') \<in> A. key_seq_cmp U k' s' k s \<noteq> Some Equal"
  shows "\<exists>mt'. mem_table_add ie next_u32 mt s t k v = Some mt' \<and> mem_inv ie U mt' (insert (s, t, k, v) A)"
proof -
  let ?e = "enc_entry ie (s, t, k, v)"
  have i: "skip_map_inv (memtable_keys ie) (mt_map mt)" "map_cmp (mt_map mt) = MemtableKeyCmp ie U"
      "set (sm_entries (mt_map mt)) = (\<lambda>e. (enc_entry ie e, [])) ` A" "\<forall>e \<in> A. entry_ok e"
    using assms(2) by (simp_all add: mem_inv_def)
  have "\<forall>(k', v') \<in> set (sm_entries (mt_map mt)). cmp (map_cmp (mt_map mt)) k' ?e \<noteq> Some Equal"
    using assms(4) i(2-4) cmp_entries(1) [OF assms(1) _ assms(3)] by (fastforce simp del: enc_entry.simps)
  then obtain sm where sm: "skip_map_insert next_u32 (mt_map mt) ?e [] = Some sm" "skip_map_inv (memtable_keys ie) sm"
      "map_cmp sm = MemtableKeyCmp ie U" "sm_entries sm = insert_entry (cmp (MemtableKeyCmp ie U)) ?e [] (sm_entries (mt_map mt))"
    using skip_map_insert_ok [OF i(1) cmp_entries(2,3) [OF assms(1,3,3)], of next_u32 "[]"] i(2) by auto
  have "set (sm_entries sm) = insert (?e, []) (set (sm_entries (mt_map mt)))"
    using arg_cong [OF mset_insert_entry [of "cmp (MemtableKeyCmp ie U)" ?e "[]" "sm_entries (mt_map mt)"], of set_mset] sm(4) by simp
  then have "mem_inv ie U \<lparr>mt_map = sm\<rparr> (insert (s, t, k, v) A)"
    using sm(2,3) i(3,4) assms(3) by (simp add: mem_inv_def del: entry_ok.simps enc_entry.simps)
  moreover have "build_memtable_key ie k v t s = Some ?e"
    using integer_encoding.build_memtable_key_eq [OF assms(1)] assms(3) by simp
  ultimately show ?thesis using sm(1) by (simp add: mem_table_add_def)
qed


section \<open>Lookups\<close>

text \<open>The entry a lookup of a key at a sequence number stands for: the newest one that is not newer.\<close>

definition visible :: "mem_entry set \<Rightarrow> bytes \<Rightarrow> sequence_number \<Rightarrow> sequence_number \<Rightarrow> value_type \<Rightarrow> bytes \<Rightarrow> bool" where
  "visible A k s s' t v \<longleftrightarrow> (s', t, k, v) \<in> A \<and> s' \<le> s \<and>
     (\<forall>(s2, t2, k2, v2) \<in> A. k2 = k \<and> s2 \<le> s \<longrightarrow> s2 \<le> s')"

definition lookup_result :: "mem_entry set \<Rightarrow> bytes \<Rightarrow> sequence_number \<Rightarrow> bytes option \<times> bool \<Rightarrow> bool" where
  "lookup_result A k s r \<longleftrightarrow>
     (case r of
        (Some v, deleted) \<Rightarrow> \<not> deleted \<and> (\<exists>s'. visible A k s s' TypeValue v)
      | (None, True) \<Rightarrow> \<exists>s' v. visible A k s s' TypeDeletion v
      | (None, False) \<Rightarrow> \<forall>(s2, t2, k2, v2) \<in> A. k2 = k \<longrightarrow> s < s2)"

lemma mk_tag_low: "mk_tag s t AND 0xff = value_type_code t"
  using tag_low [of s "value_type_code t"] by (cases t) (simp_all add: mk_tag_def)

lemma value_type_code_eq: "value_type_code t = value_type_code TypeValue \<longleftrightarrow> t = TypeValue"
  by (cases t) auto

text \<open>The first entry that is not below the lookup key is the entry the lookup stands for.\<close>

lemma first_not_below:
  fixes A :: "mem_entry set"
  assumes ord: "cmp_order (cmp U) UNIV" and anti: "\<And>a b. cmp U a b = Some Equal \<Longrightarrow> a = b"
    and e: "(s', t, k', v) \<in> A" "key_seq_cmp U k' s' k s \<noteq> Some Less"
    and least: "\<And>s2 t2 k2 v2. (s2, t2, k2, v2) \<in> A \<Longrightarrow> key_seq_cmp U k2 s2 k s \<noteq> Some Less \<Longrightarrow>
      key_seq_cmp U k2 s2 k' s' \<noteq> Some Less"
  shows "if k' = k then visible A k s s' t v else \<forall>(s2, t2, k2, v2) \<in> A. k2 = k \<longrightarrow> s < s2"
proof -
  have uc: "user_cmp U" using ord by (simp add: user_cmp_def)
  have refl: "cmp U a a = Some Equal" for a using cmp_order.cmp_refl [OF ord] by simp
  show ?thesis
  proof (cases "k' = k")
    case True
    have "s2 \<le> s'" if "(s2, t2, k, v2) \<in> A" "s2 \<le> s" for s2 t2 v2
      using least [OF that(1)] that(2) True refl by (auto simp: user_cmp.key_seq_cmp_cases(1) [OF uc] not_less)
    moreover have "s' \<le> s" using e(2) True refl by (auto simp: user_cmp.key_seq_cmp_cases(1) [OF uc] not_less)
    ultimately show ?thesis using e(1) True by (auto simp: visible_def)
  next
    case False
    have "s < s2" if "(s2, t2, k, v2) \<in> A" for s2 t2 v2
    proof (rule ccontr)
      assume "\<not> s < s2"
      then have "key_seq_cmp U k s2 k s \<noteq> Some Less" using refl by (auto simp: user_cmp.key_seq_cmp_cases(1) [OF uc])
      from least [OF that this] have n: "cmp U k k' \<noteq> Some Less" by (auto simp: user_cmp.key_seq_cmp_cases(1) [OF uc])
      have "cmp U k' k \<noteq> Some Less" using e(2) by (auto simp: user_cmp.key_seq_cmp_cases(1) [OF uc])
      moreover obtain r where "cmp U k' k = Some r" using user_cmp.user_total [OF uc] by blast
      ultimately have "cmp U k' k = Some Equal"
        using n cmp_order.cmp_flip [OF ord, of k' k] by (cases r) auto
      with anti False show False by blast
    qed
    with False show ?thesis by auto
  qed
qed

lemma cmp_lookup:
  assumes "integer_encoding ie" "entry_ok (s', t, k', v)" "length k + 8 < 2 ^ 64" "s \<le> MAX_SEQUENCE_NUMBER"
  shows "cmp_memtable_key ie U (enc_entry ie (s', t, k', v))
    (encode_var ie (length k + 8) @ ikey ie k s TypeValue) = key_seq_cmp U k' s' k s"
  using assms(2-) integer_encoding.memtable_entry_ikey [OF assms(1)] integer_encoding.cmp_ikeys [OF assms(1)]
  by (simp add: cmp_memtable_key_eq)

text \<open>The part of \<open>get\<close> after the seek, on an encoded entry.\<close>

lemma get_entry:
  assumes "integer_encoding ie" "entry_ok (s', t, k', v)"
  shows "do { (fkeylen, fkeyoff, tag, vallen, valoff) \<leftarrow> parse_memtable_key ie (enc_entry ie (s', t, k', v));
      fkey \<leftarrow> slice_range fkeyoff (fkeyoff + fkeylen) (enc_entry ie (s', t, k', v));
      w \<leftarrow> slice_range valoff (valoff + vallen) (enc_entry ie (s', t, k', v));
      Some (fkey, tag AND 0xff, w) } = Some (k', value_type_code t, v)"
    "\<exists>klen koff tag vlen voff. parse_memtable_key ie (enc_entry ie (s', t, k', v)) = Some (klen, koff, tag, vlen, voff)"
proof -
  let ?c = "encode_var ie (length k' + 8)" and ?m = "memtable_entry ie k' v t s'"
  have "slice_range (length ?c) (length ?c + length k') ?m = Some k'"
    by (simp add: memtable_entry_def ikey_def slice_append_middle)
  moreover have "slice_range (length ?m - length v) (length ?m - length v + length v) ?m = Some v"
    using slice_append_end [of "?c @ ikey ie k' s' t @ encode_var ie (length v)" _ v]
    by (simp add: memtable_entry_def)
  ultimately show "do { (fkeylen, fkeyoff, tag, vallen, valoff) \<leftarrow> parse_memtable_key ie (enc_entry ie (s', t, k', v));
      fkey \<leftarrow> slice_range fkeyoff (fkeyoff + fkeylen) (enc_entry ie (s', t, k', v));
      w \<leftarrow> slice_range valoff (valoff + vallen) (enc_entry ie (s', t, k', v));
      Some (fkey, tag AND 0xff, w) } = Some (k', value_type_code t, v)"
    "\<exists>klen koff tag vlen voff. parse_memtable_key ie (enc_entry ie (s', t, k', v)) = Some (klen, koff, tag, vlen, voff)"
    using assms(2) integer_encoding.parse_memtable_entry [OF assms(1)] by (simp_all add: mk_tag_low)
qed

lemma mem_table_get_found:
  assumes "integer_encoding ie" "entry_ok (s', t, k', v)" "user_key lk = Some k"
    "smi_seek (memtable_key lk) (skip_map_iter_new (mt_map mt)) = Some it"
    "current_key_val skip_map_iter_ops it = Some (Some (enc_entry ie (s', t, k', v), w))"
  shows "mem_table_get ie mt lk =
    Some (if k' = k then if t = TypeValue then (Some v, False) else (None, True) else (None, False))"
proof -
  obtain klen koff tag vlen voff where p: "parse_memtable_key ie (enc_entry ie (s', t, k', v)) = Some (klen, koff, tag, vlen, voff)"
    using get_entry(2) [OF assms(1,2)] by blast
  have "slice_range koff (koff + klen) (enc_entry ie (s', t, k', v)) = Some k'"
      "slice_range voff (voff + vlen) (enc_entry ie (s', t, k', v)) = Some v" "tag AND 0xff = value_type_code t"
    using get_entry(1) [OF assms(1,2)] unfolding p by (auto split: Option.bind_splits)
  then show ?thesis
    using assms(3-5) p value_type_code_eq [of t]
    by (auto simp: mem_table_get_def simp del: enc_entry.simps value_type_code.simps)
qed

lemma mem_table_get_ok:
  assumes ie: "integer_encoding ie" and ord: "cmp_order (cmp U) UNIV"
    and anti: "\<And>a b. cmp U a b = Some Equal \<Longrightarrow> a = b"
    and inv: "mem_inv ie U mt A" and k: "length k + 8 < 2 ^ 64" "s \<le> MAX_SEQUENCE_NUMBER"
  shows "\<exists>lk r. lookup_key_new ie k s = Some lk \<and> mem_table_get ie mt lk = Some r \<and> lookup_result A k s r"
proof -
  let ?mk = "encode_var ie (length k + 8) @ ikey ie k s TypeValue" and ?sm = "mt_map mt"
  let ?it = "skip_map_iter_new ?sm" and ?es = "sm_entries ?sm" and ?cm = "cmp (MemtableKeyCmp ie U)"
  have i: "skip_map_inv (memtable_keys ie) ?sm" "map_cmp ?sm = MemtableKeyCmp ie U"
      "set ?es = (\<lambda>e. (enc_entry ie e, [])) ` A" "\<forall>e \<in> A. entry_ok e"
    using inv by (simp_all add: mem_inv_def)
  obtain lk where lk: "lookup_key_new ie k s = Some lk" "memtable_key lk = ?mk" "user_key lk = Some k"
    using integer_encoding.new_full_eq [OF ie k(1), of s TypeValue] integer_encoding.user_key_new [OF ie k(1), of s TypeValue]
    by (auto simp: lookup_key_new_def memtable_key_def)
  have mk: "?mk \<in> memtable_keys ie" using integer_encoding.memtable_entry_ikey(3) [OF ie k(1)] by auto
  have inv0: "smi_inv (memtable_keys ie) ?it" using i(1) by (simp add: smi_inv_def skip_map_iter_new_def)
  have below: "smi_below ?it = cmp_lt ?cm" using i(2) by (simp add: smi_below_def skip_map_iter_new_def)
  from smi.seek_pos [OF inv0 mk] obtain it where it: "smi_seek ?mk ?it = Some it" "smi_inv (memtable_keys ie) it"
      "smi_entries it = ?es" "smi_pos it = pos_find (\<lambda>(k', v). \<not> cmp_lt ?cm k' ?mk) ?es"
    unfolding below by (auto simp: skip_map_iter_ops_def smi_entries_def skip_map_iter_new_def)
  have cur: "current_key_val skip_map_iter_ops it = Some (map_option ((!) ?es) (smi_pos it))"
    using smi.current_pos [OF it(2)] it(3) by (simp add: current_key_val_def)
  have lt: "cmp_lt ?cm (enc_entry ie e) ?mk \<longleftrightarrow> (case e of (s', t, k', v) \<Rightarrow> key_seq_cmp U k' s' k s = Some Less)"
    if "e \<in> A" for e
    using cmp_lookup [OF ie _ k, of _ _ _ _ U] i(4) that by (cases e) (fastforce simp: cmp_lt_def simp del: enc_entry.simps)
  show ?thesis
  proof (cases "smi_pos it")
    case None
    then have "\<forall>e \<in> A. cmp_lt ?cm (enc_entry ie e) ?mk" using it(4) i(3) by (auto simp: pos_find_None)
    then have "\<forall>(s2, t2, k2, v2) \<in> A. k2 = k \<longrightarrow> s < s2"
      using lt cmp_order.cmp_refl [OF ord, of k] user_cmp.key_seq_cmp_cases(1) [of U] ord by (fastforce simp: user_cmp_def)
    moreover have "mem_table_get ie mt lk = Some (None, False)"
      using lk(2) it(1) cur None by (simp add: mem_table_get_def)
    ultimately show ?thesis using lk(1) by (auto simp: lookup_result_def)
  next
    case (Some n)
    note found = pos_find_Some [OF Some [unfolded it(4)]]
    obtain s' t k' v where e: "?es ! n = (enc_entry ie (s', t, k', v), [])" "(s', t, k', v) \<in> A"
      using i(3) nth_mem [OF found(1)] by force
    have ek: "entry_ok (s', t, k', v)" using i(4) e(2) by blast
    have nl: "key_seq_cmp U k' s' k s \<noteq> Some Less" using found(2) e lt [OF e(2)] by auto
    have least: "key_seq_cmp U k2 s2 k' s' \<noteq> Some Less"
      if a2: "(s2, t2, k2, v2) \<in> A" "key_seq_cmp U k2 s2 k s \<noteq> Some Less" for s2 t2 k2 v2
    proof
      assume less: "key_seq_cmp U k2 s2 k' s' = Some Less"
      obtain j where j: "j < length ?es" "?es ! j = (enc_entry ie (s2, t2, k2, v2), [])"
        using a2(1) i(3) by (metis (no_types, lifting) image_eqI in_set_conv_nth)
      have lt2: "cmp_lt ?cm (fst (?es ! j)) (fst (?es ! n))"
        using cmp_entries(1) [OF ie _ ek, of s2 t2 k2 v2 U] i(4) a2(1) less j(2) e(1) by (auto simp: cmp_lt_def simp del: enc_entry.simps)
      have "\<not> j < n" using found(3) j(2) lt [OF a2(1)] a2(2) by (auto simp del: enc_entry.simps)
      moreover have "j \<noteq> n" using lt2 cmp_order.lt_irrefl [OF memtable_key_order [OF ord]] cmp_entries(2) [OF ie ek ek] e(1)
        by (metis fst_conv)
      ultimately have "cmp_lt ?cm (fst (?es ! n)) (fst (?es ! j))"
        using entries_sorted [OF i(1)] j(1) found(1) i(2) by (auto simp: sorted_wrt_iff_nth_less)
      then show False
        using lt2 cmp_order.flipI [OF memtable_key_order [OF ord], of "fst (?es ! n)" ie "fst (?es ! j)" Less]
          cmp_entries(2) [OF ie _ ek] i(4) a2(1) j(2) e cmp_entries(2) [OF ie ek ek]
        by (auto simp: cmp_lt_def simp del: enc_entry.simps)
    qed
    have "mem_table_get ie mt lk =
        Some (if k' = k then if t = TypeValue then (Some v, False) else (None, True) else (None, False))"
      by (rule mem_table_get_found [OF ie ek lk(3)]) (use it(1) lk(2) cur Some e(1) in simp_all)
    moreover have "if k' = k then visible A k s s' t v else \<forall>(s2, t2, k2, v2) \<in> A. k2 = k \<longrightarrow> s < s2"
      by (rule first_not_below [OF ord anti e(2) nl least])
    then have "lookup_result A k s
        (if k' = k then if t = TypeValue then (Some v, False) else (None, True) else (None, False))"
      by (cases "k' = k"; cases t) (auto simp: lookup_result_def)
    ultimately show ?thesis using lk(1) by blast
  qed
qed

text \<open>A memtable filled by a sequence of \<open>add\<close> calls.\<close>

fun add_all :: "int_codec \<Rightarrow> ('g \<Rightarrow> u32 \<times> 'g) \<Rightarrow> 'g mem_table \<Rightarrow> mem_entry list \<Rightarrow> 'g mem_table run" where
  "add_all ie next_u32 mt [] = Some mt"
| "add_all ie next_u32 mt ((s, t, k, v) # es) =
     do { mt \<leftarrow> mem_table_add ie next_u32 mt s t k v; add_all ie next_u32 mt es }"

lemma add_all_ok:
  assumes "integer_encoding ie" "mem_inv ie U mt A" "\<forall>e \<in> set es. entry_ok e"
    "cmp_order (cmp U) UNIV" "\<And>a b. cmp U a b = Some Equal \<Longrightarrow> a = b"
    "distinct (map entry_id es)" "entry_id ` A \<inter> entry_id ` set es = {}"
  shows "\<exists>mt'. add_all ie next_u32 mt es = Some mt' \<and> mem_inv ie U mt' (A \<union> set es)"
  using assms(2,3,6,7)
proof (induction es arbitrary: mt A)
  case (Cons e es)
  obtain s t k v where e: "e = (s, t, k, v)" by (cases e)
  have uc: "user_cmp U" using assms(4) by (simp add: user_cmp_def)
  have "\<forall>(s', t', k', v') \<in> A. key_seq_cmp U k' s' k s \<noteq> Some Equal"
  proof clarify
    fix s' t' k' v'
    assume a: "(s', t', k', v') \<in> A" and eq: "key_seq_cmp U k' s' k s = Some Equal"
    have "k' = k" "s' = s"
      using eq assms(5) by (simp_all add: user_cmp.key_seq_cmp_cases(2) [OF uc])
    then have "entry_id (s', t', k', v') = entry_id e" using e by simp
    then show False using a Cons.prems(4) by (metis IntI empty_iff image_eqI list.set_intros(1))
  qed
  then obtain mt1 where mt1: "mem_table_add ie next_u32 mt s t k v = Some mt1" "mem_inv ie U mt1 (insert e A)"
    using mem_table_add_ok [OF assms(1) Cons.prems(1), of s t k v next_u32] Cons.prems(2) e by auto
  have "\<exists>mt'. add_all ie next_u32 mt1 es = Some mt' \<and> mem_inv ie U mt' (insert e A \<union> set es)"
    by (rule Cons.IH [OF mt1(2)]) (use Cons.prems e in auto)
  then show ?case using mt1(1) e by simp
qed simp

text \<open>C8: A memtable filled by any sequence of additions with pairwise different pairs of user key and
  sequence number answers a lookup of a user key at a sequence number with the newest entry of that
  key that is not newer than the sequence number: its value, or that it is deleted, or that there is
  none. This holds for every user comparator that is an order and calls only identical keys equal,
  and for every random generator.\<close>

theorem memtable_lookup_correct:
  assumes "integer_encoding ie" "cmp_order (cmp U) UNIV" "\<And>a b. cmp U a b = Some Equal \<Longrightarrow> a = b"
    "\<forall>e \<in> set es. entry_ok e" "distinct (map entry_id es)"
    "length k + 8 < 2 ^ 64" "s \<le> MAX_SEQUENCE_NUMBER"
  shows "\<exists>mt lk r. add_all ie next_u32 (mem_table_new ie g U) es = Some mt \<and>
    lookup_key_new ie k s = Some lk \<and> mem_table_get ie mt lk = Some r \<and> lookup_result (set es) k s r"
proof -
  obtain mt where mt: "add_all ie next_u32 (mem_table_new ie g U) es = Some mt" "mem_inv ie U mt (set es)"
    using add_all_ok [OF assms(1) mem_table_new_inv [OF assms(2), of ie g] assms(4,2,3,5), of next_u32] by auto
  show ?thesis using mt(1) mem_table_get_ok [OF assms(1,2,3) mt(2) assms(6,7)] by blast
qed

theorem memtable_lookup_correct_witness:
  "\<exists>mt lk r. add_all wire_codec (\<lambda>g. (g, g)) (mem_table_new wire_codec 0 DefaultCmp)
      [(1, TypeValue, [97], [1]), (2, TypeDeletion, [97], []), (3, TypeValue, [98], [7])] = Some mt \<and>
    lookup_key_new wire_codec [97] 2 = Some lk \<and> mem_table_get wire_codec mt lk = Some r \<and>
    lookup_result (set [(1, TypeValue, [97], [1]), (2, TypeDeletion, [97], []), (3, TypeValue, [98], [7])]) [97] 2 r"
  by (rule memtable_lookup_correct [OF wire.integer_encoding_axioms default_cmp.cmp_order_axioms])
    (auto simp: bytes_cmp_Equal MAX_SEQUENCE_NUMBER_def word_le_nat_alt)

end
