(* ===== verification/Mem_Table_Iter.thy ===== *)
theory Mem_Table_Iter
  imports Mem_Table
begin

text \<open>
  The iterator of the memtable: it walks over the entries as pairs of internal key and value, in the
  order of the internal comparator, and seeks by internal key. Its \<open>prev\<close> is not the one of the trait:
  it skips deletions, which \<open>advance\<close> does not.
\<close>

definition entry_pair :: "int_codec \<Rightarrow> bytes \<Rightarrow> bytes \<times> bytes" where
  "entry_pair ie m = (mkey_ikey ie m,
     (case parse_memtable_key ie m of None \<Rightarrow> [] | Some (_, _, _, vallen, valoff) \<Rightarrow> take vallen (drop valoff m)))"

definition mti_entries :: "int_codec \<Rightarrow> 'g skip_map_iter \<Rightarrow> (bytes \<times> bytes) list" where
  "mti_entries ie it = map (\<lambda>(m, _). entry_pair ie m) (smi_entries it)"

definition mti_inv :: "int_codec \<Rightarrow> comparator \<Rightarrow> 'g skip_map_iter \<Rightarrow> bool" where
  "mti_inv ie U it \<longleftrightarrow> integer_encoding ie \<and> smi_inv (memtable_keys ie) it \<and>
     map_cmp (it_map it) = MemtableKeyCmp ie U \<and>
     (\<forall>(m, _) \<in> set (smi_entries it). \<exists>e. entry_ok e \<and> m = enc_entry ie e)"

lemma entry_pair_enc:
  assumes "integer_encoding ie" "entry_ok (s, t, k, v)"
  shows "entry_pair ie (enc_entry ie (s, t, k, v)) = (ikey ie k s t, v)"
proof -
  have "drop (length (memtable_entry ie k v t s) - length v) (memtable_entry ie k v t s) = v"
    by (simp add: memtable_entry_def)
  then show ?thesis
    using assms(2) integer_encoding.parse_memtable_entry [OF assms(1)]
      integer_encoding.memtable_entry_ikey [OF assms(1)]
    by (simp add: entry_pair_def)
qed

lemma mti_current_enc:
  assumes "integer_encoding ie" "entry_ok e" "smi_valid it"
    "smi_current it = Some (Some (enc_entry ie e, w))"
  shows "mti_current ie it = Some (Some (entry_pair ie (enc_entry ie e)))"
proof -
  obtain s t k v where e: "e = (s, t, k, v)" by (cases e)
  let ?c = "encode_var ie (length k + 8)" and ?m = "memtable_entry ie k v t s"
  have ok: "length k + 8 < 2 ^ 64" "length v < 2 ^ 64" using assms(2) e by simp_all
  have ikl: "length (ikey ie k s t) = length k + 8" by (rule integer_encoding.ikey_facts(1) [OF assms(1)])
  have "slice_range (length ?m - length v) (length ?m - length v + length v) ?m = Some v"
    using slice_append_end [of "?c @ ikey ie k s t @ encode_var ie (length v)" _ v]
    by (simp add: memtable_entry_def)
  moreover have "shift_left ?m (length ?c) = Some (ikey ie k s t @ encode_var ie (length v) @ v)"
    using shift_left_ok [of "length ?c" ?m] by (simp add: memtable_entry_def)
  moreover have "take (length k + 8) (ikey ie k s t @ encode_var ie (length v) @ v) = ikey ie k s t"
    using ikl by simp
  ultimately show ?thesis
    using assms(3,4) e integer_encoding.parse_memtable_entry [OF assms(1) ok, of t s]
      entry_pair_enc [OF assms(1), of s t k v] assms(2)
    by (simp add: mti_current_def U64_SPACE_def)
qed

lemma mti_seek_eq:
  assumes "integer_encoding ie" "8 \<le> length to" "length to < 2 ^ 64"
  defines "mk \<equiv> encode_var ie (length (ikey_user to) + 8) @ ikey ie (ikey_user to) (ikey_seq ie to) TypeValue"
  shows "mti_seek ie to it = smi_seek mk it" "mk \<in> memtable_keys ie"
    "entry_ok e \<Longrightarrow> cmp_memtable_key ie U (enc_entry ie e) mk = cmp_internal_key ie U (fst (entry_pair ie (enc_entry ie e))) to"
proof -
  have len: "length (ikey_user to) + 8 < 2 ^ 64" using assms(2,3) by (simp add: ikey_user_def)
  show "mti_seek ie to it = smi_seek mk it"
    using integer_encoding.new_full_eq [OF assms(1) len, of "ikey_seq ie to" TypeValue] assms(2)
    by (simp add: mti_seek_def parse_internal_key_eq lookup_key_new_def memtable_key_def mk_def)
  show "mk \<in> memtable_keys ie" unfolding mk_def by (rule integer_encoding.memtable_entry_ikey(3) [OF assms(1) len])
  show "cmp_memtable_key ie U (enc_entry ie e) mk = cmp_internal_key ie U (fst (entry_pair ie (enc_entry ie e))) to"
    if "entry_ok e"
  proof -
    obtain s t k v where e: "e = (s, t, k, v)" by (cases e)
    show ?thesis
      using that e cmp_lookup [OF assms(1) _ len ikey_seq_bound [of ie to], of s t k v U] assms(2)
        integer_encoding.cmp_ikey_left(1) [OF assms(1), of s to U k t] entry_pair_enc [OF assms(1), of s t k v]
      by (simp add: mk_def)
  qed
qed

lemma smi_keeps_map:
  "smi_advance it = Some (b, it') \<Longrightarrow> it_map it' = it_map it"
  "smi_seek k it = Some it' \<Longrightarrow> it_map it' = it_map it"
  "it_map (smi_reset it) = it_map it"
  by (auto simp: smi_advance_def smi_seek_def smi_reset_def split: Option.bind_splits option.splits)

lemma mti_inv_move:
  assumes "mti_inv ie U it" "smi_inv (memtable_keys ie) it'" "it_map it' = it_map it"
  shows "mti_inv ie U it'" "mti_entries ie it' = mti_entries ie it"
  using assms by (simp_all add: mti_inv_def mti_entries_def smi_entries_def)

interpretation mti: ldb_seek "memtable_iter_ops ie" "mti_inv ie U" "mti_entries ie" smi_pos
    "\<lambda>_. cmp_lt (cmp (InternalKeyCmp ie U))" "\<lambda>_ k. 8 \<le> length k \<and> length k < 2 ^ 64" for ie U
proof
  fix it :: "'g skip_map_iter"
  assume inv: "mti_inv ie U it"
  then have ie: "integer_encoding ie" and smi: "smi_inv (memtable_keys ie) it" by (simp_all add: mti_inv_def)
  show bound: "i < length (mti_entries ie it)" if "smi_pos it = Some i" for i
    using smi.pos_bound [OF smi that] by (simp add: mti_entries_def)
  show "it_valid (memtable_iter_ops ie) it \<longleftrightarrow> smi_pos it \<noteq> None"
    by (simp add: memtable_iter_ops_def smi_valid_def smi_pos_def)
  show "it_current (memtable_iter_ops ie) it = Some (map_option ((!) (mti_entries ie it)) (smi_pos it))"
  proof (cases "smi_pos it")
    case None
    then show ?thesis by (simp add: memtable_iter_ops_def mti_current_def smi_valid_def smi_pos_def split: if_splits)
  next
    case (Some i)
    then have i: "i < length (smi_entries it)" using smi.pos_bound [OF smi] by simp
    obtain m w where mw: "smi_entries it ! i = (m, w)" by fastforce
    then obtain e where e: "entry_ok e" "m = enc_entry ie e" using inv nth_mem [OF i] by (auto simp: mti_inv_def)
    have "smi_current it = Some (Some (enc_entry ie e, w))"
      using smi_current_pos [OF smi] Some mw e(2) by simp
    moreover have "smi_valid it" using Some by (simp add: smi_valid_def smi_pos_def split: if_splits)
    ultimately show ?thesis
      using mti_current_enc [OF ie e(1)] Some i mw e(2) by (simp add: memtable_iter_ops_def mti_entries_def)
  qed
  show "\<exists>s'. it_advance (memtable_iter_ops ie) it = Some (smi_pos s' \<noteq> None, s') \<and> mti_inv ie U s' \<and>
      mti_entries ie s' = mti_entries ie it \<and> smi_pos s' = pos_advance (length (mti_entries ie it)) (smi_pos it)"
  proof -
    obtain it' where it': "smi_advance it = Some (smi_pos it' \<noteq> None, it')" "smi_inv (memtable_keys ie) it'"
        "smi_pos it' = pos_advance (length (smi_entries it)) (smi_pos it)"
      using smi_advance_pos [OF smi] by blast
    moreover have "smi_valid it' \<longleftrightarrow> smi_pos it' \<noteq> None" by (simp add: smi_valid_def smi_pos_def)
    ultimately show ?thesis
      using mti_inv_move [OF inv it'(2) smi_keeps_map(1) [OF it'(1)]]
      by (intro exI [of _ it']) (simp add: memtable_iter_ops_def mti_advance_def mti_entries_def)
  qed
  show "\<exists>s'. it_reset (memtable_iter_ops ie) it = Some s' \<and> mti_inv ie U s' \<and> mti_entries ie s' = mti_entries ie it \<and> smi_pos s' = None"
    using mti_inv_move [OF inv smi_reset_pos(1) [OF smi] smi_keeps_map(3)] smi_reset_pos(3) [of it]
    by (simp add: memtable_iter_ops_def)
  fix k :: bytes
  assume k: "8 \<le> length k \<and> length k < 2 ^ 64"
  show "\<exists>s'. it_seek (memtable_iter_ops ie) k it = Some s' \<and> mti_inv ie U s' \<and> mti_entries ie s' = mti_entries ie it \<and>
      smi_pos s' = pos_find (\<lambda>(k', v). \<not> cmp_lt (cmp (InternalKeyCmp ie U)) k' k) (mti_entries ie it)"
  proof -
    let ?mk = "encode_var ie (length (ikey_user k) + 8) @ ikey ie (ikey_user k) (ikey_seq ie k) TypeValue"
    have seek: "mti_seek ie k it = smi_seek ?mk it" "?mk \<in> memtable_keys ie"
        "entry_ok e \<Longrightarrow> cmp_memtable_key ie U (enc_entry ie e) ?mk = cmp_internal_key ie U (fst (entry_pair ie (enc_entry ie e))) k" for e
      using mti_seek_eq [OF ie, of k] k by blast+
    obtain it' where it': "smi_seek ?mk it = Some it'" "smi_inv (memtable_keys ie) it'"
        "smi_pos it' = pos_find (\<lambda>(k', v). \<not> smi_below it k' ?mk) (smi_entries it)"
      using smi_seek_pos [OF smi seek(2)] by blast
    have "takeWhile (\<lambda>(k', v). smi_below it k' ?mk) (smi_entries it) =
        takeWhile (\<lambda>(m, _). cmp_lt (cmp (InternalKeyCmp ie U)) (fst (entry_pair ie m)) k) (smi_entries it)"
      using inv seek(3) by (intro takeWhile_cong) (fastforce simp: mti_inv_def smi_below_def cmp_lt_def)+
    then have "smi_pos it' = pos_find (\<lambda>(k', v). \<not> cmp_lt (cmp (InternalKeyCmp ie U)) k' k) (mti_entries ie it)"
      using it'(3) by (simp add: pos_find_def mti_entries_def takeWhile_map comp_def case_prod_unfold Let_def)
    then show ?thesis
      using it'(1) seek(1) mti_inv_move [OF inv it'(2) smi_keeps_map(2) [OF it'(1)]]
      by (simp add: memtable_iter_ops_def)
  qed
qed


section \<open>Properties\<close>

lemma mem_inv_iter:
  assumes "integer_encoding ie" "mem_inv ie U mt A"
  shows "mti_inv ie U (skip_map_iter_new (mt_map mt))" "smi_pos (skip_map_iter_new (mt_map mt)) = None"
    "smi_entries (skip_map_iter_new (mt_map mt)) = sm_entries (mt_map mt)"
  using assms
  by (auto simp: mti_inv_def mem_inv_def smi_inv_def skip_map_iter_new_def smi_pos_def smi_entries_def
      simp del: entry_ok.simps enc_entry.simps split_paired_Ex)

lemma mti_sorted:
  assumes "mti_inv ie U it"
  shows "sorted_wrt (cmp_lt (cmp (InternalKeyCmp ie U))) (map fst (mti_entries ie it))"
proof -
  have ie: "integer_encoding ie" and es: "\<forall>(m, _) \<in> set (smi_entries it). \<exists>e. entry_ok e \<and> m = enc_entry ie e"
    using assms by (simp_all add: mti_inv_def)
  have "sorted_wrt (cmp_lt (cmp (MemtableKeyCmp ie U))) (map fst (smi_entries it))"
    using entries_sorted [of "memtable_keys ie" "it_map it"] assms by (simp add: mti_inv_def smi_inv_def smi_entries_def)
  moreover have "cmp_lt (cmp (InternalKeyCmp ie U)) (fst (entry_pair ie m)) (fst (entry_pair ie m'))"
    if mm: "m \<in> fst ` set (smi_entries it)" "m' \<in> fst ` set (smi_entries it)" "cmp_lt (cmp (MemtableKeyCmp ie U)) m m'" for m m'
  proof -
    have "\<exists>e. entry_ok e \<and> m = enc_entry ie e" "\<exists>e. entry_ok e \<and> m' = enc_entry ie e"
      using es mm(1,2) by auto
    then obtain s t k v s' t' k' v' where e: "entry_ok (s, t, k, v)" "m = enc_entry ie (s, t, k, v)"
        "entry_ok (s', t', k', v')" "m' = enc_entry ie (s', t', k', v')"
      by (metis prod_cases4)
    show ?thesis
      using mm(3) e cmp_entries(1) [OF ie e(1,3)] integer_encoding.cmp_ikeys [OF ie]
      by (simp add: cmp_lt_def entry_pair_enc [OF ie] del: enc_entry.simps)
  qed
  ultimately show ?thesis
    unfolding mti_entries_def
    by (auto simp: sorted_wrt_map case_prod_unfold elim!: sorted_wrt_mono_rel [rotated])
qed

text \<open>C22: Iterating a memtable from the start returns exactly the entries that were added to it, each as
  its internal key and its value, in strictly ascending order of the internal key comparator. This is
  the sequence that is written to a table when the memtable is flushed.\<close>

theorem memtable_iteration:
  assumes "integer_encoding ie" "cmp_order (cmp U) UNIV" "\<And>a b. cmp U a b = Some Equal \<Longrightarrow> a = b"
    "\<forall>e \<in> set es. entry_ok e" "distinct (map entry_id es)"
  shows "\<exists>mt n xs. add_all ie next_u32 (mem_table_new ie g U) es = Some mt \<and>
    collect (memtable_iter_ops ie) n (skip_map_iter_new (mt_map mt)) = Some xs \<and>
    set xs = (\<lambda>(s, t, k, v). (ikey ie k s t, v)) ` set es \<and>
    sorted_wrt (cmp_lt (cmp (InternalKeyCmp ie U))) (map fst xs)"
proof -
  obtain mt where mt: "add_all ie next_u32 (mem_table_new ie g U) es = Some mt" "mem_inv ie U mt (set es)"
    using add_all_ok [OF assms(1) mem_table_new_inv [OF assms(2), of ie g] assms(4,2,3,5), of next_u32] by auto
  let ?it = "skip_map_iter_new (mt_map mt)"
  note it = mem_inv_iter [OF assms(1) mt(2)]
  have "set (mti_entries ie ?it) = (\<lambda>e. entry_pair ie (enc_entry ie e)) ` set es"
    using mt(2) it(3) by (simp add: mti_entries_def mem_inv_def image_image del: enc_entry.simps)
  also have "\<dots> = (\<lambda>(s, t, k, v). (ikey ie k s t, v)) ` set es"
    using assms(4) entry_pair_enc [OF assms(1)] by (intro image_cong) (auto simp del: enc_entry.simps entry_ok.simps)
  finally show ?thesis
    using mt(1) mti.collect_all [OF it(1,2), of "Suc (length (mti_entries ie ?it))"] mti_sorted [OF it(1)] by blast
qed

theorem memtable_iteration_witness:
  "\<exists>mt n xs. add_all wire_codec (\<lambda>g. (g, g)) (mem_table_new wire_codec 0 DefaultCmp)
      [(1, TypeValue, [98], [1]), (2, TypeDeletion, [97], [])] = Some mt \<and>
    collect (memtable_iter_ops wire_codec) n (skip_map_iter_new (mt_map mt)) = Some xs \<and>
    set xs = (\<lambda>(s, t, k, v). (ikey wire_codec k s t, v)) ` set [(1, TypeValue, [98], [1]), (2, TypeDeletion, [97], [])] \<and>
    sorted_wrt (cmp_lt (cmp (InternalKeyCmp wire_codec DefaultCmp))) (map fst xs)"
  by (rule memtable_iteration [OF wire.integer_encoding_axioms default_cmp.cmp_order_axioms])
    (auto simp: bytes_cmp_Equal MAX_SEQUENCE_NUMBER_def word_le_nat_alt)



end
