(* ===== verification/Write_Batch.thy ===== *)
theory Write_Batch
  imports Mem_Table
begin

text \<open>
  Write batches (\<open>src/src/write_batch.rs\<close>): a byte string with a 12-byte header (sequence number and
  count) followed by the encoded operations. The iterator is the decoder; \<open>insert_into_memtable\<close>
  replays a batch with consecutive sequence numbers.
\<close>

definition SEQNUM_OFFSET :: nat where
  "SEQNUM_OFFSET = 0"

definition COUNT_OFFSET :: nat where
  "COUNT_OFFSET = 8"

definition WB_HEADER_SIZE :: nat where
  "WB_HEADER_SIZE = 12"

lemmas wb_consts = SEQNUM_OFFSET_def COUNT_OFFSET_def WB_HEADER_SIZE_def

record write_batch =
  wb_entries :: bytes

definition write_batch_new :: write_batch where
  "write_batch_new = \<lparr>wb_entries = replicate WB_HEADER_SIZE 0\<rparr>"

definition set_contents :: "write_batch \<Rightarrow> bytes \<Rightarrow> write_batch" where
  "set_contents wb from = wb\<lparr>wb_entries := from\<rparr>"

definition wb_count :: "int_codec \<Rightarrow> write_batch \<Rightarrow> u32 run" where
  "wb_count ie wb =
     do { b \<leftarrow> slice_range COUNT_OFFSET (COUNT_OFFSET + 4) (wb_entries wb); Some (decode_fixed32 ie b) }"

definition set_count :: "int_codec \<Rightarrow> write_batch \<Rightarrow> u32 \<Rightarrow> write_batch run" where
  "set_count ie wb c =
     do { _ \<leftarrow> slice_range COUNT_OFFSET (COUNT_OFFSET + 4) (wb_entries wb);
          Some (wb\<lparr>wb_entries := overwrite COUNT_OFFSET (encode_fixed32 ie c) (wb_entries wb)\<rparr>) }"

definition wb_sequence :: "int_codec \<Rightarrow> write_batch \<Rightarrow> sequence_number run" where
  "wb_sequence ie wb =
     do { b \<leftarrow> slice_range SEQNUM_OFFSET (SEQNUM_OFFSET + 8) (wb_entries wb); Some (decode_fixed64 ie b) }"

definition set_sequence :: "int_codec \<Rightarrow> write_batch \<Rightarrow> sequence_number \<Rightarrow> write_batch run" where
  "set_sequence ie wb s =
     do { _ \<leftarrow> slice_range SEQNUM_OFFSET (SEQNUM_OFFSET + 8) (wb_entries wb);
          Some (wb\<lparr>wb_entries := overwrite SEQNUM_OFFSET (encode_fixed64 ie s) (wb_entries wb)\<rparr>) }"

text \<open>\<open>ValueType as u8\<close>\<close>

fun type_byte :: "value_type \<Rightarrow> byte" where
  "type_byte TypeDeletion = 0"
| "type_byte TypeValue = 1"

definition wb_put :: "int_codec \<Rightarrow> write_batch \<Rightarrow> bytes \<Rightarrow> bytes \<Rightarrow> write_batch run" where
  "wb_put ie wb k v =
     do {
       let wb = wb\<lparr>wb_entries := wb_entries wb @ [type_byte TypeValue] @ encode_var ie (length k) @ k @
                     encode_var ie (length v) @ v\<rparr>;
       c \<leftarrow> wb_count ie wb;
       set_count ie wb (c + 1)
     }"

definition wb_delete :: "int_codec \<Rightarrow> write_batch \<Rightarrow> bytes \<Rightarrow> write_batch run" where
  "wb_delete ie wb k =
     do {
       let wb = wb\<lparr>wb_entries := wb_entries wb @ [type_byte TypeDeletion] @ encode_var ie (length k) @ k\<rparr>;
       c \<leftarrow> wb_count ie wb;
       set_count ie wb (c + 1)
     }"

definition wb_clear :: "write_batch \<Rightarrow> write_batch" where
  "wb_clear wb = wb\<lparr>wb_entries := []\<rparr>"

definition byte_size :: "write_batch \<Rightarrow> nat" where
  "byte_size wb = length (wb_entries wb)"

definition wb_encode :: "int_codec \<Rightarrow> write_batch \<Rightarrow> sequence_number \<Rightarrow> bytes run" where
  "wb_encode ie wb seq = do { wb \<leftarrow> set_sequence ie wb seq; Some (wb_entries wb) }"

text \<open>
  \<open>WriteBatchIter::next\<close>: the item, if any, and the new index. A number that cannot be decoded ends the
  iteration; a length beyond the end of the batch panics.
\<close>

definition wb_next :: "int_codec \<Rightarrow> bytes \<Rightarrow> nat \<Rightarrow> ((bytes \<times> bytes option) option \<times> nat) run" where
  "wb_next ie es ix =
     (if ix \<ge> length es then Some (None, ix)
      else do {
        tag \<leftarrow> index es ix;
        let ix = ix + 1;
        rest \<leftarrow> slice_from ix es;
        (case decode_var ie rest of
           None \<Rightarrow> Some (None, ix)
         | Some (klen, l) \<Rightarrow> do {
             let ix = ix + l;
             k \<leftarrow> slice_range ix (ix + klen) es;
             let ix = ix + klen;
             if tag = type_byte TypeValue then do {
               rest \<leftarrow> slice_from ix es;
               (case decode_var ie rest of
                  None \<Rightarrow> Some (None, ix)
                | Some (vlen, m) \<Rightarrow> do {
                    let ix = ix + m;
                    v \<leftarrow> slice_range ix (ix + vlen) es;
                    Some (Some (k, Some v), ix + vlen)
                  })
             }
             else Some (Some (k, None), ix)
           })
      })"

lemma wb_next_progress:
  assumes "wb_next ie es ix = Some (Some kv, ix')"
  shows "ix < ix'" "ix < length es"
  using assms
  by (auto simp: wb_next_def Let_def split: if_splits Option.bind_splits option.splits)

function wb_items :: "int_codec \<Rightarrow> bytes \<Rightarrow> nat \<Rightarrow> (bytes \<times> bytes option) list run" where
  "wb_items ie es ix =
     (case wb_next ie es ix of
        None \<Rightarrow> None
      | Some (None, _) \<Rightarrow> Some []
      | Some (Some kv, ix') \<Rightarrow> do { kvs \<leftarrow> wb_items ie es ix'; Some (kv # kvs) })"
  by pat_completeness auto
termination
  by (relation "measure (\<lambda>(ie, es, ix). length es - ix)") (auto intro!: diff_less_mono2 dest: wb_next_progress)

definition wb_iter :: "int_codec \<Rightarrow> write_batch \<Rightarrow> (bytes \<times> bytes option) list run" where
  "wb_iter ie wb = wb_items ie (wb_entries wb) WB_HEADER_SIZE"

function insert_items ::
    "int_codec \<Rightarrow> ('g \<Rightarrow> u32 \<times> 'g) \<Rightarrow> bytes \<Rightarrow> nat \<Rightarrow> sequence_number \<Rightarrow> 'g mem_table \<Rightarrow> 'g mem_table run" where
  "insert_items ie next_u32 es ix seq mt =
     (case wb_next ie es ix of
        None \<Rightarrow> None
      | Some (None, _) \<Rightarrow> Some mt
      | Some (Some (k, v), ix') \<Rightarrow> do {
          mt \<leftarrow> (case v of
                   Some v' \<Rightarrow> mem_table_add ie next_u32 mt seq TypeValue k v'
                 | None \<Rightarrow> mem_table_add ie next_u32 mt seq TypeDeletion k []);
          insert_items ie next_u32 es ix' (seq + 1) mt
        })"
  by pat_completeness auto
termination
  by (relation "measure (\<lambda>(ie, next_u32, es, ix, seq, mt). length es - ix)") (auto intro!: diff_less_mono2 dest: wb_next_progress)

definition insert_into_memtable ::
    "int_codec \<Rightarrow> ('g \<Rightarrow> u32 \<times> 'g) \<Rightarrow> write_batch \<Rightarrow> sequence_number \<Rightarrow> 'g mem_table \<Rightarrow> 'g mem_table run" where
  "insert_into_memtable ie next_u32 wb seq mt = insert_items ie next_u32 (wb_entries wb) WB_HEADER_SIZE seq mt"

declare wb_items.simps [simp del] insert_items.simps [simp del]


section \<open>The format\<close>

type_synonym batch_op = "bytes \<times> bytes option"

fun enc_op :: "int_codec \<Rightarrow> batch_op \<Rightarrow> bytes" where
  "enc_op ie (k, Some v) =
     [type_byte TypeValue] @ encode_var ie (length k) @ k @ encode_var ie (length v) @ v"
| "enc_op ie (k, None) = [type_byte TypeDeletion] @ encode_var ie (length k) @ k"

fun op_ok :: "batch_op \<Rightarrow> bool" where
  "op_ok (k, v) \<longleftrightarrow> length k + 8 < 2 ^ 64 \<and> (\<forall>x. v = Some x \<longrightarrow> length x < 2 ^ 64)"

fun apply_op :: "int_codec \<Rightarrow> write_batch \<Rightarrow> batch_op \<Rightarrow> write_batch run" where
  "apply_op ie wb (k, Some v) = wb_put ie wb k v"
| "apply_op ie wb (k, None) = wb_delete ie wb k"

fun apply_ops :: "int_codec \<Rightarrow> write_batch \<Rightarrow> batch_op list \<Rightarrow> write_batch run" where
  "apply_ops ie wb [] = Some wb"
| "apply_ops ie wb (x # xs) = do { wb \<leftarrow> apply_op ie wb x; apply_ops ie wb xs }"

text \<open>A batch with a header for a sequence number and a count, followed by operations.\<close>

definition batch_bytes :: "int_codec \<Rightarrow> sequence_number \<Rightarrow> u32 \<Rightarrow> batch_op list \<Rightarrow> bytes" where
  "batch_bytes ie seq c xs = encode_fixed64 ie seq @ encode_fixed32 ie c @ concat (map (enc_op ie) xs)"

context integer_encoding
begin

lemma wb_next_op:
  assumes "op_ok x"
  shows "wb_next ie (pre @ enc_op ie x @ rest) (length pre) = Some (Some x, length pre + length (enc_op ie x))"
proof -
  obtain k v where x: "x = (k, v)" by (cases x)
  have k: "length k < 2 ^ 64" using assms x by simp
  show ?thesis
  proof (cases v)
    case None
    have "slice_from (length pre + 1) (pre @ type_byte TypeDeletion # encode_var ie (length k) @ k @ rest) =
        Some (encode_var ie (length k) @ k @ rest)"
      using slice_from_append [of "pre @ [type_byte TypeDeletion]"] by simp
    moreover have "slice_range (length pre + 1 + length (encode_var ie (length k)))
        (length pre + 1 + length (encode_var ie (length k)) + length k)
        (pre @ type_byte TypeDeletion # encode_var ie (length k) @ k @ rest) = Some k"
      using slice_append_middle [of "pre @ type_byte TypeDeletion # encode_var ie (length k)" _ k] by simp
    ultimately show ?thesis
      using None x decode_encode_var [OF k] by (simp add: wb_next_def index_def nth_append)
  next
    case (Some w)
    have w: "length w < 2 ^ 64" using assms x Some by simp
    let ?a = "pre @ type_byte TypeValue # encode_var ie (length k)"
    let ?es = "pre @ type_byte TypeValue # encode_var ie (length k) @ k @ encode_var ie (length w) @ w @ rest"
    have "slice_from (length pre + 1) ?es = Some (encode_var ie (length k) @ k @ encode_var ie (length w) @ w @ rest)"
      using slice_from_append [of "pre @ [type_byte TypeValue]"] by simp
    moreover have "slice_range (length pre + 1 + length (encode_var ie (length k)))
        (length pre + 1 + length (encode_var ie (length k)) + length k) ?es = Some k"
      using slice_append_middle [of ?a _ k] by simp
    moreover have "slice_from (length pre + 1 + length (encode_var ie (length k)) + length k) ?es =
        Some (encode_var ie (length w) @ w @ rest)"
      using slice_from_append [of "?a @ k"] by (simp add: add.assoc)
    moreover have "slice_range (length pre + 1 + length (encode_var ie (length k)) + length k + length (encode_var ie (length w)))
        (length pre + 1 + length (encode_var ie (length k)) + length k + length (encode_var ie (length w)) + length w) ?es = Some w"
      using slice_append_middle [of "?a @ k @ encode_var ie (length w)" _ w] by (simp add: add.assoc)
    ultimately show ?thesis
      using Some x decode_encode_var [OF k] decode_encode_var [OF w]
      by (simp add: wb_next_def index_def nth_append add.assoc)
  qed
qed

lemma wb_items_ops:
  assumes "\<forall>x \<in> set xs. op_ok x"
  shows "wb_items ie (pre @ concat (map (enc_op ie) xs)) (length pre) = Some xs"
  using assms
proof (induction xs arbitrary: pre)
  case Nil
  then show ?case by (subst wb_items.simps) (simp add: wb_next_def)
next
  case (Cons x xs)
  then show ?case
    using wb_next_op [of x pre "concat (map (enc_op ie) xs)"] Cons.IH [of "pre @ enc_op ie x"]
    by (subst wb_items.simps) simp
qed

lemma count_append:
  assumes "length h = 8" "length c = 4"
  shows "wb_count ie \<lparr>wb_entries = h @ c @ es\<rparr> = Some (decode_fixed32 ie c)"
    "set_count ie \<lparr>wb_entries = h @ c @ es\<rparr> n = Some \<lparr>wb_entries = h @ encode_fixed32 ie n @ es\<rparr>"
    "wb_sequence ie \<lparr>wb_entries = h @ c @ es\<rparr> = Some (decode_fixed64 ie h)"
    "set_sequence ie \<lparr>wb_entries = h @ c @ es\<rparr> s = Some \<lparr>wb_entries = encode_fixed64 ie s @ c @ es\<rparr>"
proof -
  have "slice_range 8 12 (h @ c @ es) = Some c" "slice_range 0 8 (h @ c @ es) = Some h"
    using assms by (auto intro!: slice_append_middle slice_prefix)
  then show "wb_count ie \<lparr>wb_entries = h @ c @ es\<rparr> = Some (decode_fixed32 ie c)"
    "set_count ie \<lparr>wb_entries = h @ c @ es\<rparr> n = Some \<lparr>wb_entries = h @ encode_fixed32 ie n @ es\<rparr>"
    "wb_sequence ie \<lparr>wb_entries = h @ c @ es\<rparr> = Some (decode_fixed64 ie h)"
    "set_sequence ie \<lparr>wb_entries = h @ c @ es\<rparr> s = Some \<lparr>wb_entries = encode_fixed64 ie s @ c @ es\<rparr>"
    using assms
    by (simp_all add: wb_count_def set_count_def wb_sequence_def set_sequence_def wb_consts overwrite_def codec_laws)
qed

lemma apply_op_bytes:
  assumes "length h = 8" "length c = 4"
  shows "apply_op ie \<lparr>wb_entries = h @ c @ es\<rparr> x =
    Some \<lparr>wb_entries = h @ encode_fixed32 ie (decode_fixed32 ie c + 1) @ es @ enc_op ie x\<rparr>"
proof -
  obtain k v where x: "x = (k, v)" by (cases x)
  show ?thesis
    using count_append [OF assms, of "es @ enc_op ie x"] x
    by (cases v) (simp_all add: wb_put_def wb_delete_def codec_laws)
qed

lemma apply_ops_bytes:
  assumes "length h = 8" "length c = 4"
  shows "\<exists>c'. length c' = 4 \<and> decode_fixed32 ie c' = decode_fixed32 ie c + of_nat (length xs) \<and>
    apply_ops ie \<lparr>wb_entries = h @ c @ es\<rparr> xs = Some \<lparr>wb_entries = h @ c' @ es @ concat (map (enc_op ie) xs)\<rparr>"
  using assms(2)
proof (induction xs arbitrary: c es)
  case (Cons x xs)
  let ?c = "encode_fixed32 ie (decode_fixed32 ie c + 1)"
  obtain c' where "length c' = 4" "decode_fixed32 ie c' = decode_fixed32 ie ?c + of_nat (length xs)"
    "apply_ops ie \<lparr>wb_entries = h @ ?c @ es @ enc_op ie x\<rparr> xs =
       Some \<lparr>wb_entries = h @ c' @ (es @ enc_op ie x) @ concat (map (enc_op ie) xs)\<rparr>"
    using Cons.IH [OF length_encode_fixed(2), of "decode_fixed32 ie c + 1" "es @ enc_op ie x"] by auto
  then show ?case
    using apply_op_bytes [OF assms(1) Cons.prems, of es x] by (auto simp: codec_laws add.assoc)
qed auto

lemma new_batch_ops:
  "\<exists>c. length c = 4 \<and> decode_fixed32 ie c = of_nat (length xs) \<and>
    apply_ops ie write_batch_new xs = Some \<lparr>wb_entries = replicate 8 0 @ c @ concat (map (enc_op ie) xs)\<rparr>"
proof -
  have "write_batch_new = \<lparr>wb_entries = replicate 8 0 @ replicate 4 0 @ []\<rparr>"
    by (simp add: write_batch_new_def wb_consts flip: replicate_add)
  then show ?thesis
    using apply_ops_bytes [of "replicate 8 0" "replicate 4 0" xs "[]"] decode_fixed_zero by simp
qed

lemma wb_iter_bytes:
  assumes "length h = 8" "length c = 4" "\<forall>x \<in> set xs. op_ok x"
  shows "wb_iter ie \<lparr>wb_entries = h @ c @ concat (map (enc_op ie) xs)\<rparr> = Some xs"
  using wb_items_ops [OF assms(3), of "h @ c"] assms(1,2) by (simp add: wb_iter_def wb_consts)

end

text \<open>The entries a batch adds to a memtable when its first operation gets a sequence number.\<close>

fun number_ops :: "sequence_number \<Rightarrow> batch_op list \<Rightarrow> mem_entry list" where
  "number_ops seq [] = []"
| "number_ops seq ((k, Some v) # xs) = (seq, TypeValue, k, v) # number_ops (seq + 1) xs"
| "number_ops seq ((k, None) # xs) = (seq, TypeDeletion, k, []) # number_ops (seq + 1) xs"

lemma insert_items_ops:
  assumes "integer_encoding ie" "\<forall>x \<in> set xs. op_ok x"
  shows "insert_items ie next_u32 (pre @ concat (map (enc_op ie) xs)) (length pre) seq mt =
    add_all ie next_u32 mt (number_ops seq xs)"
  using assms(2)
proof (induction xs arbitrary: pre seq mt)
  case Nil
  then show ?case by (subst insert_items.simps) (simp add: wb_next_def)
next
  case (Cons x xs)
  obtain k v where x: "x = (k, v)" by (cases x)
  have "wb_next ie (pre @ concat (map (enc_op ie) (x # xs))) (length pre) = Some (Some x, length pre + length (enc_op ie x))"
    using integer_encoding.wb_next_op [OF assms(1), of x pre "concat (map (enc_op ie) xs)"] Cons.prems by simp
  moreover have "insert_items ie next_u32 (pre @ concat (map (enc_op ie) (x # xs))) (length pre + length (enc_op ie x)) s =
      (\<lambda>m. add_all ie next_u32 m (number_ops s xs))" for s
    using Cons.IH [of "pre @ enc_op ie x"] Cons.prems by (intro ext) simp
  ultimately show ?case
    using x by (subst insert_items.simps) (cases v; simp del: enc_op.simps)
qed


section \<open>Properties\<close>

text \<open>C12: A batch built from a new one by any sequence of puts and deletes counts them (modulo the width
  of the counter), iterates over exactly these operations in order, and still does so after it was
  encoded with a sequence number and loaded again, when it also gives back the sequence number.\<close>

theorem write_batch_roundtrip:
  assumes "integer_encoding ie" "\<forall>x \<in> set xs. op_ok x"
  shows "\<exists>wb bs. apply_ops ie write_batch_new xs = Some wb \<and> wb_iter ie wb = Some xs \<and>
    wb_count ie wb = Some (of_nat (length xs)) \<and> wb_encode ie wb seq = Some bs \<and>
    wb_iter ie (set_contents write_batch_new bs) = Some xs \<and>
    wb_sequence ie (set_contents write_batch_new bs) = Some seq \<and>
    wb_count ie (set_contents write_batch_new bs) = Some (of_nat (length xs))"
proof -
  obtain c where c: "length c = 4" "decode_fixed32 ie c = of_nat (length xs)"
    "apply_ops ie write_batch_new xs = Some \<lparr>wb_entries = replicate 8 0 @ c @ concat (map (enc_op ie) xs)\<rparr>"
    using integer_encoding.new_batch_ops [OF assms(1)] by blast
  let ?es = "concat (map (enc_op ie) xs)"
  have set: "set_contents write_batch_new bs = \<lparr>wb_entries = bs\<rparr>" for bs
    by (simp add: set_contents_def write_batch_new_def)
  note laws = integer_encoding.length_encode_fixed(3) [OF assms(1)] integer_encoding.decode_encode_fixed(3) [OF assms(1)]
  show ?thesis
    using c integer_encoding.count_append [OF assms(1) _ c(1), of _ ?es]
      integer_encoding.wb_iter_bytes [OF assms(1) _ c(1) assms(2)]
    by (simp add: wb_encode_def set laws)
qed

theorem write_batch_roundtrip_witness:
  "\<exists>wb bs. apply_ops wire_codec write_batch_new [([97], Some [1]), ([98], None)] = Some wb \<and>
    wb_iter wire_codec wb = Some [([97], Some [1]), ([98], None)] \<and> wb_encode wire_codec wb 9 = Some bs \<and>
    wb_sequence wire_codec (set_contents write_batch_new bs) = Some 9"
  using write_batch_roundtrip [OF wire.integer_encoding_axioms, of "[([97], Some [1]), ([98], None)]" 9]
  by (auto simp del: apply_ops.simps)

text \<open>C11: Replaying a batch into a memtable adds exactly its operations, in order, the first with the given
  sequence number and each following one with the next sequence number.\<close>

theorem insert_into_memtable_adds:
  assumes "integer_encoding ie" "\<forall>x \<in> set xs. op_ok x"
  shows "\<exists>wb. apply_ops ie write_batch_new xs = Some wb \<and>
    insert_into_memtable ie next_u32 wb seq mt = add_all ie next_u32 mt (number_ops seq xs)"
proof -
  obtain c where c: "length c = 4"
    "apply_ops ie write_batch_new xs = Some \<lparr>wb_entries = replicate 8 0 @ c @ concat (map (enc_op ie) xs)\<rparr>"
    using integer_encoding.new_batch_ops [OF assms(1)] by blast
  then show ?thesis
    using insert_items_ops [OF assms, of next_u32 "replicate 8 0 @ c" seq mt]
    by (simp add: insert_into_memtable_def wb_consts)
qed

theorem insert_into_memtable_adds_witness:
  "\<exists>wb. apply_ops wire_codec write_batch_new [([97], Some [1]), ([97], None)] = Some wb \<and>
    insert_into_memtable wire_codec (\<lambda>g. (g, g)) wb 5 (mem_table_new wire_codec 0 DefaultCmp) =
      add_all wire_codec (\<lambda>g. (g, g)) (mem_table_new wire_codec 0 DefaultCmp)
        (number_ops 5 [([97], Some [1]), ([97], None)])"
  by (rule insert_into_memtable_adds [OF wire.integer_encoding_axioms]) simp



end
