(* ===== verification/Filter_Policy.thy ===== *)
theory Filter_Policy
  imports Integer_Encoding
begin

text \<open>
  Filter policies (\<open>src/src/filter.rs\<close>): the trait as a record of functions, the policy without
  filter, the Bloom filter and the wrapper that strips internal keys to user keys. The contract, in
  the locale \<open>filter_laws\<close>, is that a filter never rules out a key it was created with; every policy
  of the file satisfies it.

  Keys are handed over as one byte string and the offsets at which they start.
\<close>

record filter_policy =
  fp_name :: string
  fp_create_filter :: "bytes \<Rightarrow> nat list \<Rightarrow> bytes run"
  fp_key_may_match :: "bytes \<Rightarrow> bytes \<Rightarrow> bool run"

text \<open>The pieces \<open>offset_data_iterate\<close> calls its closure with; it panics on offsets out of order.\<close>

fun offset_data_iterate :: "bytes \<Rightarrow> nat list \<Rightarrow> bytes list run" where
  "offset_data_iterate data [] = Some []"
| "offset_data_iterate data (off # offs) =
     do { piece \<leftarrow> slice_range off (case offs of [] \<Rightarrow> length data | upper # _ \<Rightarrow> upper) data;
          pieces \<leftarrow> offset_data_iterate data offs;
          Some (piece # pieces) }"

definition NoFilterPolicy :: filter_policy where
  "NoFilterPolicy = \<lparr>fp_name = ''_'', fp_create_filter = (\<lambda>_ _. Some []), fp_key_may_match = (\<lambda>_ _. Some True)\<rparr>"


section \<open>The Bloom filter\<close>

definition BLOOM_SEED :: u32 where
  "BLOOM_SEED = 0xbc9f1d34"

record bloom_policy =
  bits_per_key :: u32
  bloom_k :: u32

text \<open>
  The number of probes is \<open>bits_per_key * 0.69\<close> in single precision, cut to an integer and clamped
  to 1..30. The constant is \<open>11576279 / 2^24\<close>; up to 44 bits, where the clamp takes over, no product
  is so near an integer that rounding could change the result, so the integer quotient is the same.
\<close>

definition bloom_new :: "u32 \<Rightarrow> bloom_policy" where
  "bloom_new bits =
     (let k = unat bits * 11576279 div 2 ^ 24
      in \<lparr>bits_per_key = bits, bloom_k = of_nat (if k < 1 then 1 else if k > 30 then 30 else k)\<rparr>)"

fun bloom_hash_words :: "int_codec \<Rightarrow> bytes \<Rightarrow> u32 \<Rightarrow> u32 \<times> bytes" where
  "bloom_hash_words ie (a # b # c # d # data) h =
     (let h = (h + decode_fixed32 ie [a, b, c, d]) * 0xc6a4a793
      in bloom_hash_words ie data (h XOR drop_bit 16 h))"
| "bloom_hash_words ie data h = (h, data)"

fun bloom_hash_rest :: "nat \<Rightarrow> bytes \<Rightarrow> u32 \<Rightarrow> u32" where
  "bloom_hash_rest i [] h = h"
| "bloom_hash_rest i (b # bs) h = bloom_hash_rest (i + 1) bs (h + push_bit (8 * i) (ucast b))"

definition bloom_hash :: "int_codec \<Rightarrow> bytes \<Rightarrow> u32" where
  "bloom_hash ie data =
     (case bloom_hash_words ie data (BLOOM_SEED XOR of_nat (length data) * 0xc6a4a793) of (h, rest) \<Rightarrow>
        if rest = [] then h
        else let h = bloom_hash_rest 0 rest h * 0xc6a4a793 in h XOR drop_bit 24 h)"

definition bloom_delta :: "u32 \<Rightarrow> u32" where
  "bloom_delta h = drop_bit 17 h OR push_bit 15 h"

definition set_filter_bit :: "nat \<Rightarrow> bytes \<Rightarrow> bytes run" where
  "set_filter_bit bitpos flt =
     do { b \<leftarrow> index flt (bitpos div 8);
          Some (flt[bitpos div 8 := b OR push_bit (bitpos mod 8) 1]) }"

fun bloom_add :: "u32 \<Rightarrow> u32 \<Rightarrow> nat \<Rightarrow> u32 \<Rightarrow> bytes \<Rightarrow> bytes run" where
  "bloom_add bits delta 0 h flt = Some flt"
| "bloom_add bits delta (Suc n) h flt =
     (if bits = 0 then None
      else do { flt \<leftarrow> set_filter_bit (unat (h mod bits)) flt;
                bloom_add bits delta n (h + delta) flt })"

fun bloom_add_keys :: "int_codec \<Rightarrow> bloom_policy \<Rightarrow> u32 \<Rightarrow> bytes list \<Rightarrow> bytes \<Rightarrow> bytes run" where
  "bloom_add_keys ie bp bits [] flt = Some flt"
| "bloom_add_keys ie bp bits (key # keys) flt =
     do { let h = bloom_hash ie key;
          flt \<leftarrow> bloom_add bits (bloom_delta h) (unat (bloom_k bp)) h flt;
          bloom_add_keys ie bp bits keys flt }"

definition bloom_create_filter :: "int_codec \<Rightarrow> bloom_policy \<Rightarrow> bytes \<Rightarrow> nat list \<Rightarrow> bytes run" where
  "bloom_create_filter ie bp keys key_offsets =
     do { let filter_bits = length key_offsets * unat (bits_per_key bp);
          let n = (if filter_bits < 64 then 8 else (filter_bits + 7) div 8);
          let adj_filter_bits = of_nat (n * 8);
          pieces \<leftarrow> offset_data_iterate keys key_offsets;
          bloom_add_keys ie bp adj_filter_bits pieces (replicate n 0 @ [ucast (bloom_k bp)]) }"

fun bloom_probe :: "u32 \<Rightarrow> u32 \<Rightarrow> nat \<Rightarrow> u32 \<Rightarrow> bytes \<Rightarrow> bool run" where
  "bloom_probe bits delta 0 h flt = Some True"
| "bloom_probe bits delta (Suc n) h flt =
     (if bits = 0 then None
      else do { let bitpos = unat (h mod bits);
                b \<leftarrow> index flt (bitpos div 8);
                if b AND push_bit (bitpos mod 8) 1 = 0 then Some False
                else bloom_probe bits delta n (h + delta) flt })"

definition bloom_key_may_match :: "int_codec \<Rightarrow> bytes \<Rightarrow> bytes \<Rightarrow> bool run" where
  "bloom_key_may_match ie key flt =
     (if flt = [] then Some True
      else let bits = of_nat (length flt - 1) * 8;
               k = last flt
           in if k > 30 then Some True
              else let h = bloom_hash ie key
                   in bloom_probe bits (bloom_delta h) (unat k) h (butlast flt))"

definition BloomPolicy :: "int_codec \<Rightarrow> bloom_policy \<Rightarrow> filter_policy" where
  "BloomPolicy ie bp =
     \<lparr>fp_name = ''leveldb.BuiltinBloomFilter2'', fp_create_filter = bloom_create_filter ie bp,
      fp_key_may_match = bloom_key_may_match ie\<rparr>"


section \<open>Filters of internal keys\<close>

fun strip_keys :: "bytes list \<Rightarrow> bytes \<Rightarrow> nat list \<Rightarrow> (bytes \<times> nat list) run" where
  "strip_keys [] mod_keys mod_key_offsets = Some (mod_keys, mod_key_offsets)"
| "strip_keys (key # keys) mod_keys mod_key_offsets =
     do { n \<leftarrow> usub (length key) 8;
          user_key \<leftarrow> slice_range 0 n key;
          strip_keys keys (mod_keys @ user_key) (mod_key_offsets @ [length mod_keys]) }"

definition internal_create_filter :: "filter_policy \<Rightarrow> bytes \<Rightarrow> nat list \<Rightarrow> bytes run" where
  "internal_create_filter fp keys key_offsets =
     do { _ \<leftarrow> usub (length keys) (length key_offsets * 8);
          pieces \<leftarrow> offset_data_iterate keys key_offsets;
          (mod_keys, mod_key_offsets) \<leftarrow> strip_keys pieces [] [];
          fp_create_filter fp mod_keys mod_key_offsets }"

definition internal_key_may_match :: "filter_policy \<Rightarrow> bytes \<Rightarrow> bytes \<Rightarrow> bool run" where
  "internal_key_may_match fp key flt =
     do { n \<leftarrow> usub (length key) 8;
          user_key \<leftarrow> slice_range 0 n key;
          fp_key_may_match fp user_key flt }"

definition InternalFilterPolicy :: "filter_policy \<Rightarrow> filter_policy" where
  "InternalFilterPolicy fp =
     \<lparr>fp_name = fp_name fp, fp_create_filter = internal_create_filter fp,
      fp_key_may_match = internal_key_may_match fp\<rparr>"


section \<open>The contract of filter policies\<close>

text \<open>The offsets of keys that are laid out one after the other from an offset.\<close>

fun key_offsets_of :: "nat \<Rightarrow> bytes list \<Rightarrow> nat list" where
  "key_offsets_of off [] = []"
| "key_offsets_of off (k # ks) = off # key_offsets_of (off + length k) ks"

locale filter_laws =
  fixes fp :: filter_policy and good :: "bytes list \<Rightarrow> bool"
  assumes create_ok: "good ks \<Longrightarrow> \<exists>f. fp_create_filter fp (concat ks) (key_offsets_of 0 ks) = Some f"
    and may_match: "good ks \<Longrightarrow> fp_create_filter fp (concat ks) (key_offsets_of 0 ks) = Some f \<Longrightarrow>
      k \<in> set ks \<Longrightarrow> fp_key_may_match fp k f = Some True"
begin

lemma filter_cases:
  assumes "good ks"
  obtains f where "fp_create_filter fp (concat ks) (key_offsets_of 0 ks) = Some f"
    "\<forall>k \<in> set ks. fp_key_may_match fp k f = Some True"
  using create_ok [OF assms] may_match [OF assms] by blast

end

interpretation no_filter: filter_laws NoFilterPolicy "\<lambda>_. True"
  by unfold_locales (simp_all add: NoFilterPolicy_def)

lemma offset_data_iterate_pieces:
  "offset_data_iterate (pre @ concat ks) (key_offsets_of (length pre) ks) = Some ks"
proof (induction ks arbitrary: pre)
  case (Cons k ks)
  have "slice_range (length pre) (case key_offsets_of (length pre + length k) ks of
      [] \<Rightarrow> length (pre @ k @ concat ks) | u # _ \<Rightarrow> u) (pre @ k @ concat ks) = Some k"
    by (cases ks) (auto simp: slice_range_def)
  then show ?case using Cons.IH [of "pre @ k"] by simp
qed simp

lemma length_key_offsets_of [simp]: "length (key_offsets_of off ks) = length ks"
  by (induction ks arbitrary: off) auto


subsection \<open>The wrapper for internal keys\<close>

lemma strip_keys_eq:
  assumes "\<forall>k \<in> set ks. 8 \<le> length k"
  shows "strip_keys ks mk mo = Some (mk @ concat (map (\<lambda>k. take (length k - 8) k) ks),
    mo @ key_offsets_of (length mk) (map (\<lambda>k. take (length k - 8) k) ks))"
  using assms by (induction ks arbitrary: mk mo) (auto simp: usub_def slice_range_def)

lemma internal_create_eq:
  assumes "\<forall>k \<in> set ks. 8 \<le> length k"
  shows "fp_create_filter (InternalFilterPolicy fp) (concat ks) (key_offsets_of 0 ks) =
    fp_create_filter fp (concat (map (\<lambda>k. take (length k - 8) k) ks))
      (key_offsets_of 0 (map (\<lambda>k. take (length k - 8) k) ks))"
proof -
  have "length ks * 8 \<le> length (concat ks)" using assms by (induction ks) auto
  then show ?thesis
    using strip_keys_eq [OF assms, of "[]" "[]"] offset_data_iterate_pieces [of "[]" ks]
    by (simp add: InternalFilterPolicy_def internal_create_filter_def usub_def)
qed

lemma internal_may_match_eq:
  "8 \<le> length k \<Longrightarrow>
    fp_key_may_match (InternalFilterPolicy fp) k f = fp_key_may_match fp (take (length k - 8) k) f"
  by (simp add: InternalFilterPolicy_def internal_key_may_match_def usub_def slice_range_def)

lemma internal_filter_laws:
  assumes "filter_laws fp good"
  shows "filter_laws (InternalFilterPolicy fp)
    (\<lambda>ks. (\<forall>k \<in> set ks. 8 \<le> length k) \<and> good (map (\<lambda>k. take (length k - 8) k) ks))"
  using filter_laws.create_ok [OF assms] filter_laws.may_match [OF assms]
  by unfold_locales (auto simp: internal_create_eq internal_may_match_eq)

interpretation internal_no_filter: filter_laws "InternalFilterPolicy NoFilterPolicy"
    "\<lambda>ks. (\<forall>k \<in> set ks. 8 \<le> length k) \<and> True"
  by (rule internal_filter_laws [OF no_filter.filter_laws_axioms])


subsection \<open>The Bloom filter\<close>

definition bit_is_set :: "bytes \<Rightarrow> nat \<Rightarrow> bool" where
  "bit_is_set f p \<longleftrightarrow> p div 8 < length f - 1 \<and> f ! (p div 8) AND push_bit (p mod 8) 1 \<noteq> 0"

text \<open>What adding a key keeps: the length, the number of probes at the end and every bit.\<close>

definition filter_grows :: "bytes \<Rightarrow> bytes \<Rightarrow> bool" where
  "filter_grows f f' \<longleftrightarrow> length f' = length f \<and> (f \<noteq> [] \<longrightarrow> last f' = last f) \<and>
     (\<forall>p. bit_is_set f p \<longrightarrow> bit_is_set f' p)"

definition probes :: "u32 \<Rightarrow> u32 \<Rightarrow> nat \<Rightarrow> u32 \<Rightarrow> nat set" where
  "probes bits delta n h = (\<lambda>i. unat ((h + of_nat i * delta) mod bits)) ` {..<n}"

lemma probes_simps [simp]:
  "probes bits delta 0 h = {}"
  "probes bits delta (Suc n) h = insert (unat (h mod bits)) (probes bits delta n (h + delta))"
proof -
  have "{..<Suc n} = insert 0 (Suc ` {..<n})" by (auto simp: image_iff less_Suc_eq_0_disj)
  then show "probes bits delta (Suc n) h = insert (unat (h mod bits)) (probes bits delta n (h + delta))"
    by (simp add: probes_def image_image algebra_simps)
qed (simp add: probes_def)

lemma filter_grows_refl [simp]: "filter_grows f f"
  by (simp add: filter_grows_def)

lemma filter_grows_trans: "filter_grows a b \<Longrightarrow> filter_grows b c \<Longrightarrow> filter_grows a c"
  by (auto simp: filter_grows_def)

lemma or_bit_keeps:
  assumes "(b :: byte) AND m \<noteq> 0"
  shows "(b OR c) AND m \<noteq> 0"
proof
  assume "(b OR c) AND m = 0"
  then have "(b AND m) OR (c AND m) = 0" by (simp add: bit.conj_disj_distrib2)
  with assms show False by (simp add: or_eq_0_iff)
qed

lemma or_bit_sets: "n < 8 \<Longrightarrow> ((b :: byte) OR push_bit n 1) AND push_bit n 1 \<noteq> 0"
proof
  assume "n < 8" "(b OR push_bit n 1) AND push_bit n 1 = 0"
  then have "push_bit n (1 :: byte) = 0" by (simp add: bit.conj_disj_distrib2 or_eq_0_iff)
  with \<open>n < 8\<close> show False by simp
qed

lemma set_filter_bit_ok:
  assumes "p div 8 < length f - 1"
  shows "\<exists>f'. set_filter_bit p f = Some f' \<and> filter_grows f f' \<and> bit_is_set f' p"
  using assms
  by (auto simp: set_filter_bit_def index_def filter_grows_def bit_is_set_def nth_list_update last_list_update
      or_bit_keeps or_bit_sets)

lemma bloom_add_ok:
  assumes "bits \<noteq> 0" "unat bits \<le> 8 * (length f - 1)"
  shows "\<exists>f'. bloom_add bits delta n h f = Some f' \<and> filter_grows f f' \<and>
    (\<forall>p \<in> probes bits delta n h. bit_is_set f' p)"
  using assms(2)
proof (induction n arbitrary: h f)
  case (Suc n)
  have "unat (h mod bits) < unat bits"
    using assms(1) by (simp add: unat_mod_distrib unat_gt_0)
  then have "unat (h mod bits) div 8 < length f - 1" using Suc.prems by simp
  then obtain f1 where f1: "set_filter_bit (unat (h mod bits)) f = Some f1" "filter_grows f f1"
      "bit_is_set f1 (unat (h mod bits))"
    using set_filter_bit_ok by blast
  have "unat bits \<le> 8 * (length f1 - 1)" using Suc.prems f1(2) by (simp add: filter_grows_def)
  then obtain f2 where "bloom_add bits delta n (h + delta) f1 = Some f2" "filter_grows f1 f2"
      "\<forall>p \<in> probes bits delta n (h + delta). bit_is_set f2 p"
    using Suc.IH by blast
  with f1 assms(1) show ?case
    by (auto intro: filter_grows_trans simp: filter_grows_def)
qed simp

lemma bloom_add_keys_ok:
  assumes "bits \<noteq> 0" "unat bits \<le> 8 * (length f - 1)"
  shows "\<exists>f'. bloom_add_keys ie bp bits ks f = Some f' \<and> filter_grows f f' \<and>
    (\<forall>k \<in> set ks. \<forall>p \<in> probes bits (bloom_delta (bloom_hash ie k)) (unat (bloom_k bp)) (bloom_hash ie k).
      bit_is_set f' p)"
  using assms(2)
proof (induction ks arbitrary: f)
  case (Cons k ks)
  let ?h = "bloom_hash ie k"
  obtain f1 where f1: "bloom_add bits (bloom_delta ?h) (unat (bloom_k bp)) ?h f = Some f1"
      "filter_grows f f1" "\<forall>p \<in> probes bits (bloom_delta ?h) (unat (bloom_k bp)) ?h. bit_is_set f1 p"
    using bloom_add_ok [OF assms(1) Cons.prems] by blast
  have "unat bits \<le> 8 * (length f1 - 1)" using Cons.prems f1(2) by (simp add: filter_grows_def)
  from Cons.IH [OF this] obtain f2 where f2: "bloom_add_keys ie bp bits ks f1 = Some f2" "filter_grows f1 f2"
      "\<forall>k \<in> set ks. \<forall>p \<in> probes bits (bloom_delta (bloom_hash ie k)) (unat (bloom_k bp)) (bloom_hash ie k).
        bit_is_set f2 p"
    by blast
  have "\<forall>p \<in> probes bits (bloom_delta ?h) (unat (bloom_k bp)) ?h. bit_is_set f2 p"
    using f1(3) f2(2) by (auto simp: filter_grows_def)
  with f1 f2 show ?case by (auto intro: filter_grows_trans)
qed simp

lemma bloom_probe_ok:
  assumes "bits \<noteq> 0" "\<forall>p \<in> probes bits delta n h. bit_is_set f p"
  shows "bloom_probe bits delta n h (butlast f) = Some True"
  using assms(2)
proof (induction n arbitrary: h)
  case (Suc n)
  then show ?case
    using assms(1) by (auto simp: bit_is_set_def index_def nth_butlast)
qed simp

text \<open>The number of bytes of a filter for a number of keys, without the trailing probe count.\<close>

definition bloom_bytes :: "bloom_policy \<Rightarrow> nat \<Rightarrow> nat" where
  "bloom_bytes bp n =
     (let bits = n * unat (bits_per_key bp) in if bits < 64 then 8 else (bits + 7) div 8)"

lemma bloom_bytes_pos: "0 < bloom_bytes bp n"
proof -
  have "0 < (b + 7) div 8" if "\<not> b < 64" for b :: nat using that by simp
  then show ?thesis by (simp only: bloom_bytes_def Let_def split: if_split) simp
qed

lemma bloom_filter_ok:
  assumes "bloom_k bp \<le> 30" "8 * bloom_bytes bp (length ks) < 2 ^ 32"
  shows "\<exists>f. bloom_create_filter ie bp (concat ks) (key_offsets_of 0 ks) = Some f \<and>
    length f = bloom_bytes bp (length ks) + 1 \<and>
    (\<forall>k \<in> set ks. bloom_key_may_match ie k f = Some True)"
proof -
  let ?n = "bloom_bytes bp (length ks)"
  let ?bits = "of_nat (?n * 8) :: u32"
  have u: "unat ?bits = 8 * ?n" using assms(2) by (simp add: unat_of_nat mult.commute del: of_nat_mult)
  then have b0: "?bits \<noteq> 0" using bloom_bytes_pos [of bp "length ks"] by (metis gr_implies_not0 mult_eq_0_iff unsigned_0 zero_neq_numeral)
  let ?f0 = "replicate ?n 0 @ [ucast (bloom_k bp) :: byte]"
  obtain f where f: "bloom_add_keys ie bp ?bits ks ?f0 = Some f" "filter_grows ?f0 f"
      "\<forall>k \<in> set ks. \<forall>p \<in> probes ?bits (bloom_delta (bloom_hash ie k)) (unat (bloom_k bp)) (bloom_hash ie k).
        bit_is_set f p"
    using bloom_add_keys_ok [OF b0, of ?f0 ie bp ks] u by auto
  have len: "length f = ?n + 1" and last: "last f = ucast (bloom_k bp)" and ne: "f \<noteq> []"
    using f(2) by (auto simp: filter_grows_def)
  have k: "unat (ucast (bloom_k bp) :: byte) = unat (bloom_k bp)" "\<not> ucast (bloom_k bp) > (30 :: byte)"
  proof -
    have "unat (bloom_k bp) \<le> 30" using assms(1) by (simp add: word_le_nat_alt)
    then show *: "unat (ucast (bloom_k bp) :: byte) = unat (bloom_k bp)" by (simp add: unsigned_ucast_eq take_bit_nat_eq_self)
    show "\<not> ucast (bloom_k bp) > (30 :: byte)" using * \<open>unat (bloom_k bp) \<le> 30\<close> by (simp add: word_less_nat_alt)
  qed
  have "bloom_key_may_match ie x f = Some True" if "x \<in> set ks" for x
    using bloom_probe_ok [OF b0, of _ "unat (bloom_k bp)" "bloom_hash ie x" f] f(3) that len last ne k
    by (simp add: bloom_key_may_match_def Let_def mult.commute)
  moreover have "bloom_create_filter ie bp (concat ks) (key_offsets_of 0 ks) = Some f"
    using f(1) offset_data_iterate_pieces [of "[]" ks]
    by (simp add: bloom_create_filter_def bloom_bytes_def Let_def)
  ultimately show ?thesis using len by blast
qed


definition bloom_good :: "bloom_policy \<Rightarrow> bytes list \<Rightarrow> bool" where
  "bloom_good bp ks \<longleftrightarrow> 8 * bloom_bytes bp (length ks) < 2 ^ 32"

lemma bloom_new_k: "bloom_k (bloom_new bits) \<le> 30"
proof -
  have "(of_nat (if k < 1 then 1 else if k > 30 then 30 else k) :: u32) \<le> 30" for k :: nat
    by (simp add: word_le_nat_alt unat_of_nat)
  then show ?thesis by (simp add: bloom_new_def Let_def)
qed

interpretation bloom: filter_laws "BloomPolicy ie (bloom_new bits)" "bloom_good (bloom_new bits)" for ie bits
proof
  fix ks f k
  assume g: "bloom_good (bloom_new bits) ks"
  obtain f' where f': "bloom_create_filter ie (bloom_new bits) (concat ks) (key_offsets_of 0 ks) = Some f'"
      "\<forall>k \<in> set ks. bloom_key_may_match ie k f' = Some True"
    using bloom_filter_ok [OF bloom_new_k, of bits ks ie] g by (auto simp: bloom_good_def)
  then show "\<exists>f. fp_create_filter (BloomPolicy ie (bloom_new bits)) (concat ks) (key_offsets_of 0 ks) = Some f"
    by (simp add: BloomPolicy_def)
  show "fp_key_may_match (BloomPolicy ie (bloom_new bits)) k f = Some True"
    if "fp_create_filter (BloomPolicy ie (bloom_new bits)) (concat ks) (key_offsets_of 0 ks) = Some f"
      "k \<in> set ks"
    using that f' by (simp add: BloomPolicy_def)
qed

interpretation internal_bloom: filter_laws "InternalFilterPolicy (BloomPolicy ie (bloom_new bits))"
    "\<lambda>ks. (\<forall>k \<in> set ks. 8 \<le> length k) \<and> bloom_good (bloom_new bits) (map (\<lambda>k. take (length k - 8) k) ks)"
  for ie bits
  by (rule internal_filter_laws [OF bloom.filter_laws_axioms])


section \<open>Properties\<close>

text \<open>C15: A Bloom filter has no false negatives: the filter the policy of a table (the Bloom policy
  wrapped for internal keys) creates for a list of internal keys exists, is not empty, and matches
  every key whose user key is among those of the list, whatever its sequence number and type. The
  hash function does not matter. The bound says that the filter's bits are counted by 32 bits.\<close>

theorem bloom_no_false_negatives:
  assumes "\<forall>k \<in> set ks. 8 \<le> length k" "length ks * unat bits < 2 ^ 32 - 8" "bloom_new bits = bp"
  shows "\<exists>f. fp_create_filter (InternalFilterPolicy (BloomPolicy ie bp)) (concat ks) (key_offsets_of 0 ks) = Some f \<and>
    f \<noteq> [] \<and> (\<forall>k \<in> set ks. \<forall>tag. length tag = 8 \<longrightarrow>
      fp_key_may_match (InternalFilterPolicy (BloomPolicy ie bp)) (take (length k - 8) k @ tag) f = Some True)"
proof -
  let ?us = "map (\<lambda>k. take (length k - 8) k) ks"
  have "8 * bloom_bytes bp (length ?us) < 2 ^ 32"
    using assms(2,3) by (auto simp: bloom_bytes_def bloom_new_def Let_def)
  then obtain f where f: "bloom_create_filter ie bp (concat ?us) (key_offsets_of 0 ?us) = Some f"
      "length f = bloom_bytes bp (length ?us) + 1" "\<forall>k \<in> set ?us. bloom_key_may_match ie k f = Some True"
    using bloom_filter_ok [of bp ?us ie] bloom_new_k [of bits] assms(3) by blast
  then have "f \<noteq> []" by auto
  with f assms(1) show ?thesis
    using internal_create_eq [of ks "BloomPolicy ie bp"]
    by (auto simp: internal_may_match_eq BloomPolicy_def)
qed

theorem bloom_no_false_negatives_witness:
  "\<exists>f. fp_create_filter (InternalFilterPolicy (BloomPolicy wire_codec (bloom_new 10)))
      (concat [[1, 0, 0, 0, 0, 0, 0, 0, 0], [2, 0, 0, 0, 0, 0, 0, 0, 0]])
      (key_offsets_of 0 [[1, 0, 0, 0, 0, 0, 0, 0, 0], [2, 0, 0, 0, 0, 0, 0, 0, 0]]) = Some f \<and> f \<noteq> [] \<and>
    (\<forall>k \<in> {[1, 0, 0, 0, 0, 0, 0, 0, 0], [2, 0, 0, 0, 0, 0, 0, 0, 0]}. \<forall>tag. length tag = 8 \<longrightarrow>
      fp_key_may_match (InternalFilterPolicy (BloomPolicy wire_codec (bloom_new 10)))
        (take (length k - 8) k @ tag) f = Some True)"
  using bloom_no_false_negatives [of "[[1, 0, 0, 0, 0, 0, 0, 0, 0], [2, 0, 0, 0, 0, 0, 0, 0, 0]]" 10
    "bloom_new 10" wire_codec] by simp

end
