(* ===== verification/Filter_Block.thy ===== *)
theory Filter_Block
  imports Filter_Policy
begin

text \<open>
  Filter blocks (\<open>src/src/filter_block.rs\<close>): the builder collects the keys of the data blocks and
  emits one filter per 2 KiB of file offset, the reader looks up the filter of a data block. The main
  result composes both with a filter policy: no key of a data block is ruled out when its block is
  looked up at the offset at which it starts.
\<close>

definition FILTER_BASE_LOG2 :: u32 where
  "FILTER_BASE_LOG2 = 11"

text \<open>A shift by the width of \<open>usize\<close> or more takes the amount modulo 64.\<close>

definition get_filter_index :: "nat \<Rightarrow> u32 \<Rightarrow> u32" where
  "get_filter_index offset base_lg2 = of_nat (offset div 2 ^ (unat base_lg2 mod 64))"

record filter_block_builder =
  fb_policy :: filter_policy
  fb_filters :: bytes
  fb_filter_offsets :: "nat list"
  fb_key_offsets :: "nat list"
  fb_keys :: bytes

definition filter_block_builder_new :: "filter_policy \<Rightarrow> filter_block_builder" where
  "filter_block_builder_new fp =
     \<lparr>fb_policy = fp, fb_filters = [], fb_filter_offsets = [], fb_key_offsets = [], fb_keys = []\<rparr>"

definition fb_size_estimate :: "filter_block_builder \<Rightarrow> nat" where
  "fb_size_estimate b = length (fb_filters b) + 4 * length (fb_filter_offsets b) + 4 + 1"

definition filter_name :: "filter_block_builder \<Rightarrow> string" where
  "filter_name b = fp_name (fb_policy b)"

definition add_key :: "filter_block_builder \<Rightarrow> bytes \<Rightarrow> filter_block_builder" where
  "add_key b key =
     b\<lparr>fb_key_offsets := fb_key_offsets b @ [length (fb_keys b)], fb_keys := fb_keys b @ key\<rparr>"

definition generate_filter :: "filter_block_builder \<Rightarrow> filter_block_builder run" where
  "generate_filter b =
     (let b = b\<lparr>fb_filter_offsets := fb_filter_offsets b @ [length (fb_filters b)]\<rparr>
      in if fb_keys b = [] then Some b
         else do { f \<leftarrow> fp_create_filter (fb_policy b) (fb_keys b) (fb_key_offsets b);
                   Some (b\<lparr>fb_filters := fb_filters b @ f, fb_keys := [], fb_key_offsets := []\<rparr>) })"

lemma generate_filter_offsets:
  "generate_filter b = Some b' \<Longrightarrow> fb_filter_offsets b' = fb_filter_offsets b @ [length (fb_filters b)]"
  by (auto simp: generate_filter_def Let_def bind_eq_Some_conv split: if_splits)

lemma u32_less_count:
  assumes "(of_nat n :: u32) < ix"
  shows "unat (of_nat (Suc n) :: u32) = Suc (unat (of_nat n :: u32))"
proof -
  have "unat (of_nat n :: u32) < 2 ^ 32 - 1"
    using assms unsigned_less [of ix, where 'a = nat] by (simp add: word_less_nat_alt)
  then show ?thesis by (simp add: unat_of_nat mod_Suc del: of_nat_Suc)
qed

function start_block_loop :: "u32 \<Rightarrow> filter_block_builder \<Rightarrow> filter_block_builder run" where
  "start_block_loop ix b =
     (if ix > of_nat (length (fb_filter_offsets b))
      then do { b' \<leftarrow> generate_filter b; start_block_loop ix b' }
      else Some b)"
  by pat_completeness auto
termination
proof (relation "measure (\<lambda>(ix, b). unat ix - unat (of_nat (length (fb_filter_offsets b)) :: u32))")
  fix ix :: u32 and b b'
  assume "of_nat (length (fb_filter_offsets b)) < ix" "generate_filter b = Some b'"
  then show "((ix, b'), ix, b) \<in> measure (\<lambda>(ix, b). unat ix - unat (of_nat (length (fb_filter_offsets b)) :: u32))"
    using u32_less_count [of "length (fb_filter_offsets b)" ix] generate_filter_offsets [of b b']
    by (simp add: word_less_nat_alt)
qed simp

declare start_block_loop.simps [simp del]

definition start_block :: "filter_block_builder \<Rightarrow> nat \<Rightarrow> filter_block_builder run" where
  "start_block b offset =
     do { let ix = get_filter_index offset FILTER_BASE_LOG2;
          ensure (ix \<ge> of_nat (length (fb_filter_offsets b)));
          start_block_loop ix b }"

definition fb_finish :: "int_codec \<Rightarrow> filter_block_builder \<Rightarrow> bytes run" where
  "fb_finish ie b =
     do { b \<leftarrow> (if fb_keys b = [] then Some b else generate_filter b);
          let offsets_offset = length (fb_filters b);
          Some (fb_filters b @ concat (map (\<lambda>off. encode_fixed32 ie (of_nat off)) (fb_filter_offsets b)) @
                encode_fixed32 ie (of_nat offsets_offset) @ [ucast FILTER_BASE_LOG2]) }"

record filter_block_reader =
  fbr_policy :: filter_policy
  fbr_block :: bytes
  fbr_offsets_offset :: nat
  fbr_filter_base_lg2 :: u32

definition filter_block_reader_new :: "int_codec \<Rightarrow> filter_policy \<Rightarrow> bytes \<Rightarrow> filter_block_reader run" where
  "filter_block_reader_new ie fp data =
     do { ensure (length data \<ge> 5);
          let fbase = ucast (last data);
          off \<leftarrow> slice_range (length data - 5) (length data - 1) data;
          Some \<lparr>fbr_policy = fp, fbr_block = data, fbr_offsets_offset = unat (decode_fixed32 ie off),
                fbr_filter_base_lg2 = fbase\<rparr> }"

definition fbr_num :: "filter_block_reader \<Rightarrow> u32 run" where
  "fbr_num r =
     do { n \<leftarrow> usub (length (fbr_block r)) (fbr_offsets_offset r);
          n \<leftarrow> usub n 5;
          Some (of_nat (n div 4)) }"

definition offset_of :: "int_codec \<Rightarrow> filter_block_reader \<Rightarrow> u32 \<Rightarrow> nat run" where
  "offset_of ie r i =
     do { let offset_offset = fbr_offsets_offset r + 4 * unat i;
          bs \<leftarrow> slice_range offset_offset (offset_offset + 4) (fbr_block r);
          Some (unat (decode_fixed32 ie bs)) }"

definition fbr_key_may_match :: "int_codec \<Rightarrow> filter_block_reader \<Rightarrow> nat \<Rightarrow> bytes \<Rightarrow> bool run" where
  "fbr_key_may_match ie r blk_offset key =
     do { let ix = get_filter_index blk_offset (fbr_filter_base_lg2 r);
          num \<leftarrow> fbr_num r;
          if ix > num then Some True
          else do { filter_begin \<leftarrow> offset_of ie r ix;
                    filter_end \<leftarrow> offset_of ie r (ix + 1);
                    ensure (filter_begin < filter_end);
                    ensure (filter_end \<le> fbr_offsets_offset r);
                    f \<leftarrow> slice_range filter_begin filter_end (fbr_block r);
                    fp_key_may_match (fbr_policy r) key f } }"


section \<open>What a builder holds\<close>

text \<open>
  The groups of keys whose filters were generated, and the filters. A group without keys has no
  filter.
\<close>

definition group_filter :: "filter_policy \<Rightarrow> bytes list \<Rightarrow> bytes \<Rightarrow> bool" where
  "group_filter fp g f \<longleftrightarrow>
     (if g = [] then f = [] else fp_create_filter fp (concat g) (key_offsets_of 0 g) = Some f)"

definition fb_rep :: "filter_policy \<Rightarrow> filter_block_builder \<Rightarrow> bytes list list \<Rightarrow> bytes list \<Rightarrow> bytes list \<Rightarrow> bool" where
  "fb_rep fp b gs fs cur \<longleftrightarrow>
     fb_policy b = fp \<and> fb_filters b = concat fs \<and> fb_filter_offsets b = key_offsets_of 0 fs \<and>
     list_all2 (group_filter fp) gs fs \<and> fb_keys b = concat cur \<and> fb_key_offsets b = key_offsets_of 0 cur"

lemma key_offsets_of_snoc:
  "key_offsets_of off (ks @ [k]) = key_offsets_of off ks @ [off + length (concat ks)]"
  by (induction ks arbitrary: off) auto

lemma fb_rep_new: "fb_rep fp (filter_block_builder_new fp) [] [] []"
  by (simp add: fb_rep_def filter_block_builder_new_def)

lemma fb_rep_add_key: "fb_rep fp b gs fs cur \<Longrightarrow> fb_rep fp (add_key b k) gs fs (cur @ [k])"
  by (simp add: fb_rep_def add_key_def key_offsets_of_snoc)

text \<open>Policies that also give every group of keys a filter that is not empty.\<close>

locale nonempty_filter_laws = filter_laws +
  assumes nonempty: "good ks \<Longrightarrow> fp_create_filter fp (concat ks) (key_offsets_of 0 ks) = Some f \<Longrightarrow> f \<noteq> []"
    and good_sublist: "good (xs @ ys @ zs) \<Longrightarrow> good ys"
    and good_key: "good ks \<Longrightarrow> [] \<notin> set ks"
begin

lemma generate_filter_rep:
  assumes "fb_rep fp b gs fs cur" "good cur"
  obtains b' f where "generate_filter b = Some b'" "fb_rep fp b' (gs @ [cur]) (fs @ [f]) []"
proof (cases "cur = []")
  case True
  then show ?thesis
    using assms that [of "b\<lparr>fb_filter_offsets := fb_filter_offsets b @ [length (fb_filters b)]\<rparr>" "[]"]
    by (simp add: generate_filter_def Let_def fb_rep_def key_offsets_of_snoc group_filter_def list_all2_appendI)
next
  case False
  have ne: "concat cur \<noteq> []" using good_key [OF assms(2)] False by (cases cur) auto
  obtain f where f: "fp_create_filter fp (concat cur) (key_offsets_of 0 cur) = Some f"
    using create_ok [OF assms(2)] by blast
  show ?thesis
    by (rule that [of "b\<lparr>fb_filter_offsets := fb_filter_offsets b @ [length (fb_filters b)],
        fb_filters := fb_filters b @ f, fb_keys := [], fb_key_offsets := []\<rparr>" f])
      (use assms(1) ne f False in \<open>simp_all add: generate_filter_def Let_def fb_rep_def key_offsets_of_snoc
        group_filter_def list_all2_appendI del: concat_eq_Nil_conv\<close>)
qed

lemma good_Nil: "good ks \<Longrightarrow> good []"
  using good_sublist [of "[]" "[]" ks] by simp

lemma start_block_loop_rep:
  assumes "fb_rep fp b gs fs cur" "good cur" "n < 2 ^ 32" "length gs \<le> n"
  shows "\<exists>b' fs'. start_block_loop (of_nat n) b = Some b' \<and>
    fb_rep fp b' (if length gs < n then gs @ [cur] @ replicate (n - length gs - 1) [] else gs) fs'
      (if length gs < n then [] else cur)"
  using assms
proof (induction "n - length gs" arbitrary: b gs fs cur)
  case 0
  then have "n = length gs" by simp
  moreover have "length (fb_filter_offsets b) = length gs"
    using 0 by (auto simp: fb_rep_def dest: list_all2_lengthD)
  ultimately show ?case using 0 by (subst start_block_loop.simps) auto
next
  case (Suc m)
  obtain b' f where b': "generate_filter b = Some b'" "fb_rep fp b' (gs @ [cur]) (fs @ [f]) []"
    using generate_filter_rep [OF Suc.prems(1,2)] by blast
  have len: "length (fb_filter_offsets b) = length gs"
    using Suc.prems(1) by (auto simp: fb_rep_def dest: list_all2_lengthD)
  have "(of_nat (length gs) :: u32) < of_nat n"
    using Suc.hyps(2) Suc.prems(3) by (simp add: word_less_nat_alt unat_of_nat)
  then have step: "start_block_loop (of_nat n) b = start_block_loop (of_nat n) b'"
    using b'(1) len by (subst start_block_loop.simps) simp
  have "(if length (gs @ [cur]) < n then (gs @ [cur]) @ [[]] @ replicate (n - length (gs @ [cur]) - 1) [] else gs @ [cur]) =
      gs @ [cur] @ replicate (n - length gs - 1) []"
    using Suc.hyps(2) by (cases "n - length gs - 1") auto
  moreover have lt: "length gs < n" "m = n - length (gs @ [cur])" "length (gs @ [cur]) \<le> n"
    using Suc.hyps(2) by auto
  ultimately show ?case
    using Suc.hyps(1) [OF lt(2) b'(2) good_Nil [OF Suc.prems(2)] Suc.prems(3) lt(3)] by (simp add: step)
qed

text \<open>
  The builder fed with the keys of successive data blocks: each block's keys, and the offset at
  which the next block starts, which is what \<open>TableBuilder\<close> passes on.
\<close>

lemma start_block_rep:
  assumes "fb_rep fp b gs fs cur" "good cur" "length gs \<le> off div 2048" "off div 2048 < 2 ^ 32"
  shows "\<exists>b' gs' fs' cur'. start_block b off = Some b' \<and> fb_rep fp b' gs' fs' cur' \<and>
    length gs' = off div 2048 \<and> concat (gs' @ [cur']) = concat (gs @ [cur]) \<and>
    (\<forall>i \<le> length gs. (gs' @ [cur']) ! i = (gs @ [cur]) ! i)"
proof -
  let ?n = "off div 2048"
  have len: "length (fb_filter_offsets b) = length gs"
    using assms(1) by (auto simp: fb_rep_def dest: list_all2_lengthD)
  have le: "(of_nat (length gs) :: u32) \<le> of_nat ?n"
    using assms(3,4) by (simp add: word_le_nat_alt unat_of_nat)
  have ix: "get_filter_index off FILTER_BASE_LOG2 = of_nat ?n"
    by (simp add: get_filter_index_def FILTER_BASE_LOG2_def)
  obtain b' fs' where b': "start_block_loop (of_nat ?n) b = Some b'"
      "fb_rep fp b' (if length gs < ?n then gs @ [cur] @ replicate (?n - length gs - 1) [] else gs) fs'
        (if length gs < ?n then [] else cur)"
    using start_block_loop_rep [OF assms(1,2,4,3)] by blast
  define gs' where "gs' = (if length gs < ?n then gs @ [cur] @ replicate (?n - length gs - 1) [] else gs)"
  define cur' where "cur' = (if length gs < ?n then [] else cur)"
  have nil: "concat (replicate m ([] :: bytes list)) = []" for m by (induction m) auto
  have "start_block b off = Some b'" using b'(1) le by (simp add: start_block_def Let_def ix len)
  moreover have "fb_rep fp b' gs' fs' cur'" using b'(2) by (simp add: gs'_def cur'_def)
  moreover have "length gs' = ?n" "concat (gs' @ [cur']) = concat (gs @ [cur])"
      "\<forall>i \<le> length gs. (gs' @ [cur']) ! i = (gs @ [cur]) ! i"
    using assms(3) nil by (auto simp: gs'_def cur'_def nth_append)
  ultimately show ?thesis by blast
qed

end

fun fill_filter :: "filter_block_builder \<Rightarrow> (bytes list \<times> nat) list \<Rightarrow> filter_block_builder run" where
  "fill_filter b [] = Some b"
| "fill_filter b ((ks, next_off) # blocks) =
     do { b \<leftarrow> start_block (fold (\<lambda>k b. add_key b k) ks b) next_off; fill_filter b blocks }"

text \<open>The blocks with the offsets at which they start.\<close>

fun block_starts :: "nat \<Rightarrow> (bytes list \<times> nat) list \<Rightarrow> (nat \<times> bytes list) list" where
  "block_starts off [] = []"
| "block_starts off ((ks, next_off) # blocks) = (off, ks) # block_starts next_off blocks"

lemma fb_rep_add_keys:
  "fb_rep fp b gs fs cur \<Longrightarrow> fb_rep fp (fold (\<lambda>k b. add_key b k) ks b) gs fs (cur @ ks)"
proof (induction ks arbitrary: b cur)
  case (Cons k ks)
  then show ?case using Cons.IH [OF fb_rep_add_key [OF Cons.prems]] by simp
qed simp

definition blocks_filed :: "(nat \<times> bytes list) list \<Rightarrow> bytes list list \<Rightarrow> bytes list \<Rightarrow> bool" where
  "blocks_filed bs gs cur \<longleftrightarrow>
     (\<forall>(off, ks) \<in> set bs. off div 2048 \<le> length gs \<and> set ks \<subseteq> set ((gs @ [cur]) ! (off div 2048)))"

context nonempty_filter_laws
begin

lemma fill_filter_rep:
  assumes "fb_rep fp b gs fs cur" "good (concat (gs @ [cur]) @ concat (map fst blocks))"
    "length gs = off div 2048" "sorted (off # map snd blocks)" "\<forall>(ks, o') \<in> set blocks. o' div 2048 < 2 ^ 32"
    "blocks_filed bs gs cur"
  shows "\<exists>b' gs' fs' cur'. fill_filter b blocks = Some b' \<and> fb_rep fp b' gs' fs' cur' \<and>
    concat (gs' @ [cur']) = concat (gs @ [cur]) @ concat (map fst blocks) \<and>
    blocks_filed (bs @ block_starts off blocks) gs' cur' \<and> length gs' = last (off # map snd blocks) div 2048"
  using assms
proof (induction blocks arbitrary: b gs fs cur off bs)
  case Nil
  then show ?case by (intro exI [of _ b] exI [of _ gs] exI [of _ fs] exI [of _ cur]) simp
next
  case (Cons x blocks)
  obtain ks off' where x: "x = (ks, off')" by (cases x)
  have rep: "fb_rep fp (fold (\<lambda>k b. add_key b k) ks b) gs fs (cur @ ks)"
    using Cons.prems(1) by (rule fb_rep_add_keys)
  have good: "good (cur @ ks)"
    using Cons.prems(2) good_sublist [of "concat gs" "cur @ ks" "concat (map fst blocks)"] x by simp
  have off': "length gs \<le> off' div 2048" "off' div 2048 < 2 ^ 32"
    using Cons.prems(3-5) x by (auto intro: div_le_mono)
  obtain b1 gs1 fs1 cur1 where b1: "start_block (fold (\<lambda>k b. add_key b k) ks b) off' = Some b1"
      "fb_rep fp b1 gs1 fs1 cur1" "length gs1 = off' div 2048"
      "concat (gs1 @ [cur1]) = concat (gs @ [cur @ ks])"
      "\<forall>i \<le> length gs. (gs1 @ [cur1]) ! i = (gs @ [cur @ ks]) ! i"
    using start_block_rep [OF rep good off'] by blast
  have filed: "blocks_filed (bs @ [(off, ks)]) gs1 cur1"
    unfolding blocks_filed_def
  proof (clarify)
    fix o' ks'
    assume "(o', ks') \<in> set (bs @ [(off, ks)])"
    then have "o' div 2048 \<le> length gs" "set ks' \<subseteq> set ((gs @ [cur @ ks]) ! (o' div 2048))"
      using Cons.prems(3,6) by (auto simp: blocks_filed_def nth_append dest!: bspec)
    then show "o' div 2048 \<le> length gs1 \<and> set ks' \<subseteq> set ((gs1 @ [cur1]) ! (o' div 2048))"
      using b1(3,5) off'(1) by simp
  qed
  have "good (concat (gs1 @ [cur1]) @ concat (map fst blocks))"
    using Cons.prems(2) unfolding b1(4) x by simp
  then obtain b' gs' fs' cur' where IH: "fill_filter b1 blocks = Some b'" "fb_rep fp b' gs' fs' cur'"
      "concat (gs' @ [cur']) = concat (gs1 @ [cur1]) @ concat (map fst blocks)"
      "blocks_filed ((bs @ [(off, ks)]) @ block_starts off' blocks) gs' cur'"
      "length gs' = last (off' # map snd blocks) div 2048"
    using Cons.IH [OF b1(2) _ b1(3) _ _ filed] Cons.prems(4,5) x by auto
  have "concat (gs' @ [cur']) = concat (gs @ [cur]) @ concat (map fst (x # blocks))"
    unfolding IH(3) b1(4) x by simp
  with IH b1(1) x show ?case
    by (intro exI [of _ b'] exI [of _ gs'] exI [of _ fs'] exI [of _ cur']) simp
qed

lemma fb_finish_rep:
  assumes "fb_rep fp b gs fs cur" "good cur"
  obtains fs' where "fb_finish ie b = Some (concat fs' @
      concat (map (\<lambda>off. encode_fixed32 ie (of_nat off)) (key_offsets_of 0 fs' @ [length (concat fs')])) @ [11])"
    "list_all2 (group_filter fp) (gs @ (if cur = [] then [] else [cur])) fs'"
proof (cases "cur = []")
  case True
  then show ?thesis using assms(1) that [of fs] by (simp add: fb_finish_def fb_rep_def FILTER_BASE_LOG2_def)
next
  case False
  then have "concat cur \<noteq> []" using good_key [OF assms(2)] by (cases cur) auto
  moreover obtain b' f where "generate_filter b = Some b'" "fb_rep fp b' (gs @ [cur]) (fs @ [f]) []"
    using generate_filter_rep [OF assms] by blast
  ultimately show ?thesis
    using assms(1) that [of "fs @ [f]"] False
    by (simp add: fb_finish_def fb_rep_def FILTER_BASE_LOG2_def del: concat_eq_Nil_conv)
qed

end


section \<open>Reading a filter block\<close>

text \<open>The reader of a block with given filters.\<close>

definition filter_block_bytes :: "int_codec \<Rightarrow> bytes list \<Rightarrow> bytes" where
  "filter_block_bytes ie fs = concat fs @
     concat (map (\<lambda>off. encode_fixed32 ie (of_nat off)) (key_offsets_of 0 fs @ [length (concat fs)])) @ [11]"

definition reader_of :: "int_codec \<Rightarrow> filter_policy \<Rightarrow> bytes list \<Rightarrow> filter_block_reader" where
  "reader_of ie fp fs = \<lparr>fbr_policy = fp, fbr_block = filter_block_bytes ie fs,
     fbr_offsets_offset = length (concat fs), fbr_filter_base_lg2 = 11\<rparr>"

lemma length_concat_take: "length (concat (take i xs)) \<le> length (concat xs)"
  by (metis append_take_drop_id concat_append le_add1 length_append)

lemma key_offsets_of_nth:
  "i \<le> length fs \<Longrightarrow> (key_offsets_of off fs @ [off + length (concat fs)]) ! i = off + length (concat (take i fs))"
proof (induction fs arbitrary: i off)
  case (Cons f fs)
  then show ?case
    using Cons.IH [of "i - 1" "off + length f"] by (cases i) (simp_all add: add.assoc)
qed simp

context integer_encoding
begin

lemma length_filter_block: "length (filter_block_bytes ie fs) = length (concat fs) + 4 * length fs + 5"
  using length_concat_fixed [of "key_offsets_of 0 fs @ [length (concat fs)]" "\<lambda>off. encode_fixed32 ie (of_nat off)" 4]
  by (simp add: filter_block_bytes_def codec_laws)

lemma filter_block_reader_new_eq:
  assumes "length (filter_block_bytes ie fs) < 2 ^ 32"
  shows "filter_block_reader_new ie fp (filter_block_bytes ie fs) = Some (reader_of ie fp fs)"
proof -
  let ?d = "filter_block_bytes ie fs"
  let ?pre = "concat fs @ concat (map (\<lambda>off. encode_fixed32 ie (of_nat off)) (key_offsets_of 0 fs))"
  have d: "?d = ?pre @ encode_fixed32 ie (of_nat (length (concat fs))) @ [11]"
    by (simp add: filter_block_bytes_def)
  have "slice_range (length ?d - 5) (length ?d - 1) ?d = Some (encode_fixed32 ie (of_nat (length (concat fs))))"
    unfolding d by (rule slice_append_middle) (simp_all add: codec_laws)
  moreover have "last ?d = 11" "5 \<le> length ?d" by (simp add: d) (simp add: length_filter_block)
  moreover have "length (concat fs) < 2 ^ 32" using assms by (simp add: length_filter_block)
  ultimately show ?thesis
    by (simp add: filter_block_reader_new_def reader_of_def codec_laws unat_of_nat)
qed

lemma offset_of_eq:
  assumes "length (filter_block_bytes ie fs) < 2 ^ 32" "i \<le> length fs"
  shows "offset_of ie (reader_of ie fp fs) (of_nat i) = Some (length (concat (take i fs)))"
proof -
  let ?e = "\<lambda>off. encode_fixed32 ie (of_nat off)" and ?offs = "key_offsets_of 0 fs @ [length (concat fs)]"
  have sub: "length (concat (take i fs)) < 2 ^ 32" "i < 2 ^ 32"
    using assms length_filter_block [of fs] length_concat_take [of i fs] by simp_all
  have "slice_range (length (concat fs) + 4 * i) (length (concat fs) + 4 * i + 4) (filter_block_bytes ie fs) =
      Some (?e (?offs ! i))"
    unfolding filter_block_bytes_def by (rule slice_fixed_width) (use assms in \<open>simp_all add: codec_laws\<close>)
  then show ?thesis
    using sub assms(2) key_offsets_of_nth [of i fs 0]
    by (simp add: offset_of_def reader_of_def Let_def unat_of_nat codec_laws)
qed

lemma fbr_key_may_match_eq:
  assumes "length (filter_block_bytes ie fs) < 2 ^ 32" "blk div 2048 < length fs" "fs ! (blk div 2048) \<noteq> []"
  shows "fbr_key_may_match ie (reader_of ie fp fs) blk key = fp_key_may_match fp key (fs ! (blk div 2048))"
proof -
  let ?i = "blk div 2048"
  have n: "length fs < 2 ^ 32" "?i < 2 ^ 32" using assms(1,2) length_filter_block [of fs] by simp_all
  have ix: "get_filter_index blk 11 = of_nat ?i" by (simp add: get_filter_index_def)
  have num: "fbr_num (reader_of ie fp fs) = Some (of_nat (length fs))"
    by (simp add: fbr_num_def reader_of_def length_filter_block usub_def)
  have "\<not> of_nat ?i > (of_nat (length fs) :: u32)"
    using n assms(2) by (simp add: word_less_nat_alt unat_of_nat)
  moreover have "of_nat ?i + (1 :: u32) = of_nat (Suc ?i)" by simp
  moreover have len: "length (concat (take (Suc ?i) fs)) = length (concat (take ?i fs)) + length (fs ! ?i)"
    using assms(2) by (simp add: take_Suc_conv_app_nth)
  moreover have "length (concat (take (Suc ?i) fs)) \<le> length (concat fs)"
    by (rule length_concat_take)
  moreover have "slice_range (length (concat (take ?i fs))) (length (concat (take (Suc ?i) fs))) (filter_block_bytes ie fs) =
      Some (fs ! ?i)"
  proof -
    have "concat fs = concat (take ?i fs) @ fs ! ?i @ concat (drop (Suc ?i) fs)"
      by (subst id_take_nth_drop [OF assms(2)]) simp
    then show ?thesis
      using slice_append_middle [of "concat (take ?i fs)" _ "fs ! ?i"] len
      by (simp add: filter_block_bytes_def)
  qed
  ultimately show ?thesis
    using offset_of_eq [OF assms(1), of ?i fp] offset_of_eq [OF assms(1), of "Suc ?i" fp] assms(2,3) num ix
    by (simp add: fbr_key_may_match_def reader_of_def Let_def del: of_nat_Suc)
qed

end

lemma bloom_bytes_mono: "m \<le> n \<Longrightarrow> bloom_bytes bp m \<le> bloom_bytes bp n"
proof -
  assume "m \<le> n"
  then have "m * unat (bits_per_key bp) \<le> n * unat (bits_per_key bp)" by simp
  moreover have "(if a < 64 then 8 else (a + 7) div 8) \<le> (if b < 64 then 8 else (b + 7) div 8)" if "a \<le> b" for a b :: nat
    using that div_le_mono [of "a + 7" "b + 7" 8] div_le_mono [of 64 "b + 7" 8] by auto
  ultimately show ?thesis unfolding bloom_bytes_def Let_def by blast
qed

interpretation table_filter: nonempty_filter_laws "InternalFilterPolicy (BloomPolicy ie (bloom_new bits))"
    "\<lambda>ks. (\<forall>k \<in> set ks. 8 \<le> length k) \<and> bloom_good (bloom_new bits) (map (\<lambda>k. take (length k - 8) k) ks)"
  for ie bits
proof
  fix ks xs ys zs :: "bytes list" and f
  let ?good = "\<lambda>ks. (\<forall>k \<in> set ks. 8 \<le> length k) \<and> bloom_good (bloom_new bits) (map (\<lambda>k. take (length k - 8) k) ks)"
  show "?good (xs @ ys @ zs) \<Longrightarrow> ?good ys"
    using bloom_bytes_mono [of "length ys" "length (xs @ ys @ zs)" "bloom_new bits"] by (simp add: bloom_good_def)
  show "?good ks \<Longrightarrow> [] \<notin> set ks" by auto
  assume g: "?good ks"
    and f: "fp_create_filter (InternalFilterPolicy (BloomPolicy ie (bloom_new bits))) (concat ks) (key_offsets_of 0 ks) = Some f"
  then show "f \<noteq> []"
    using bloom_filter_ok [OF bloom_new_k, of bits "map (\<lambda>k. take (length k - 8) k) ks" ie]
    by (auto simp: internal_create_eq BloomPolicy_def bloom_good_def)
qed

context nonempty_filter_laws
begin

lemma filled_groups_match:
  assumes "good (concat gs)" "list_all2 (group_filter fp) gs fs" "i < length gs" "k \<in> set (gs ! i)"
  shows "i < length fs" "fs ! i \<noteq> []" "fp_key_may_match fp k (fs ! i) = Some True"
proof -
  have "concat gs = concat (take i gs) @ gs ! i @ concat (drop (Suc i) gs)"
    by (subst id_take_nth_drop [OF assms(3)]) simp
  then have g: "good (gs ! i)" using assms(1) good_sublist by metis
  have f: "fp_create_filter fp (concat (gs ! i)) (key_offsets_of 0 (gs ! i)) = Some (fs ! i)"
    using list_all2_nthD [OF assms(2,3)] assms(4) by (auto simp: group_filter_def split: if_splits)
  show "i < length fs" using assms(2,3) by (simp add: list_all2_lengthD)
  show "fs ! i \<noteq> []" "fp_key_may_match fp k (fs ! i) = Some True"
    using nonempty [OF g f] may_match [OF g f assms(4)] by auto
qed

lemma filter_block_complete:
  assumes "integer_encoding ie" "good (concat (map fst blocks))" "sorted (map snd blocks)"
    "\<forall>(ks, off) \<in> set blocks. off div 2048 < 2 ^ 32"
  shows "\<exists>b data. fill_filter (filter_block_builder_new fp) blocks = Some b \<and> fb_finish ie b = Some data \<and>
    (length data < 2 ^ 32 \<longrightarrow> (\<exists>r. filter_block_reader_new ie fp data = Some r \<and>
      (\<forall>(off, ks) \<in> set (block_starts 0 blocks). \<forall>k \<in> set ks. fbr_key_may_match ie r off k = Some True)))"
proof -
  obtain b gs fs cur where b: "fill_filter (filter_block_builder_new fp) blocks = Some b" "fb_rep fp b gs fs cur"
      "concat (gs @ [cur]) = concat (map fst blocks)" "blocks_filed (block_starts 0 blocks) gs cur"
    using fill_filter_rep [OF fb_rep_new, of blocks 0 "[]"] assms by (auto simp: blocks_filed_def)
  have cur: "good cur" using assms(2) good_sublist [of "concat gs" cur "[]"] b(3) by simp
  define gs' where "gs' = gs @ (if cur = [] then [] else [cur])"
  obtain fs' where fin: "fb_finish ie b = Some (filter_block_bytes ie fs')" and
      fs': "list_all2 (group_filter fp) gs' fs'"
    using fb_finish_rep [OF b(2) cur] unfolding filter_block_bytes_def gs'_def by blast
  have gs': "concat gs' = concat (map fst blocks)" using b(3) by (cases "cur = []") (simp_all add: gs'_def)
  have "fbr_key_may_match ie (reader_of ie fp fs') off k = Some True"
    if len: "length (filter_block_bytes ie fs') < 2 ^ 32" and k: "(off, ks) \<in> set (block_starts 0 blocks)" "k \<in> set ks"
    for off ks k
  proof -
    have "off div 2048 \<le> length gs" "k \<in> set ((gs @ [cur]) ! (off div 2048))"
      using b(4) k by (auto simp: blocks_filed_def)
    then have "off div 2048 < length gs'" "k \<in> set (gs' ! (off div 2048))"
      by (auto simp: gs'_def nth_append split: if_splits)
    from filled_groups_match [OF _ fs' this] show ?thesis
      using integer_encoding.fbr_key_may_match_eq [OF assms(1) len, of off fp k] gs' assms(2) by simp
  qed
  then show ?thesis
    using b(1) fin integer_encoding.filter_block_reader_new_eq [OF assms(1), of fs' fp] by auto
qed

end


section \<open>Properties\<close>

text \<open>C16: The filter block of a table has no false negatives: built from the keys of any sequence of
  data blocks at non-decreasing offsets with the Bloom policy for internal keys, it is read back, and
  a lookup with the start offset of a data block and one of its keys never answers no and never
  panics.\<close>

theorem filter_block_no_false_negatives:
  assumes "integer_encoding ie" "fp = InternalFilterPolicy (BloomPolicy ie (bloom_new bits))"
    "\<forall>(ks, off) \<in> set blocks. off div 2048 < 2 ^ 32 \<and> (\<forall>k \<in> set ks. 8 \<le> length k)" "sorted (map snd blocks)"
    "length (concat (map fst blocks)) * unat bits < 2 ^ 32 - 8"
  shows "\<exists>b data. fill_filter (filter_block_builder_new fp) blocks = Some b \<and> fb_finish ie b = Some data \<and>
    (length data < 2 ^ 32 \<longrightarrow> (\<exists>r. filter_block_reader_new ie fp data = Some r \<and>
      (\<forall>(off, ks) \<in> set (block_starts 0 blocks). \<forall>k \<in> set ks. fbr_key_may_match ie r off k = Some True)))"
  unfolding assms(2)
proof (rule table_filter.filter_block_complete [OF assms(1) _ assms(4)])
  show "(\<forall>k \<in> set (concat (map fst blocks)). 8 \<le> length k) \<and>
      bloom_good (bloom_new bits) (map (\<lambda>k. take (length k - 8) k) (concat (map fst blocks)))"
    using assms(3,5) by (auto simp: bloom_good_def bloom_bytes_def bloom_new_def Let_def)
qed (use assms(3) in auto)

theorem filter_block_no_false_negatives_witness:
  "let k = \<lambda>b. b # replicate 8 (0 :: byte); fp = InternalFilterPolicy (BloomPolicy wire_codec (bloom_new 10));
       blocks = [([k 1, k 2], 3000), ([k 3], 9000)]
   in \<exists>b data. fill_filter (filter_block_builder_new fp) blocks = Some b \<and> fb_finish wire_codec b = Some data \<and>
    (length data < 2 ^ 32 \<longrightarrow> (\<exists>r. filter_block_reader_new wire_codec fp data = Some r \<and>
      (\<forall>(off, ks) \<in> set (block_starts 0 blocks). \<forall>k \<in> set ks. fbr_key_may_match wire_codec r off k = Some True)))"
  unfolding Let_def
  by (rule filter_block_no_false_negatives [OF wire.integer_encoding_axioms refl]) simp_all

text \<open>C32: The number of filters is off by one in the reader's guard: a lookup at an offset whose filter
  index equals the number of filters, for which there is no filter, panics instead of answering that
  the key may match. So does a lookup for a block whose filter is empty, as all are without a filter
  policy.\<close>

theorem filter_block_lookup_panics:
  assumes "integer_encoding ie" "length (filter_block_bytes ie fs) < 2 ^ 32"
    "blk div 2048 = length fs \<or> blk div 2048 < length fs \<and> fs ! (blk div 2048) = []"
  shows "\<exists>r. filter_block_reader_new ie fp (filter_block_bytes ie fs) = Some r \<and>
    fbr_key_may_match ie r blk key = None"
proof -
  let ?i = "blk div 2048" and ?r = "reader_of ie fp fs"
  have n: "length fs < 2 ^ 32 - 1" using assms(2) integer_encoding.length_filter_block [OF assms(1), of fs] by simp
  have ix: "get_filter_index blk 11 = of_nat ?i" by (simp add: get_filter_index_def)
  have num: "fbr_num ?r = Some (of_nat (length fs))"
    by (simp add: fbr_num_def reader_of_def integer_encoding.length_filter_block [OF assms(1)] usub_def)
  have le: "\<not> of_nat ?i > (of_nat (length fs) :: u32)"
    using n assms(3) by (auto simp: word_less_nat_alt unat_of_nat)
  note off = integer_encoding.offset_of_eq [OF assms(1,2), of _ fp]
  have "fbr_key_may_match ie ?r blk key = None"
  proof (cases "?i = length fs")
    case True
    then have "offset_of ie ?r (of_nat (Suc ?i)) = None"
      using n integer_encoding.length_filter_block [OF assms(1), of fs]
      by (simp add: offset_of_def reader_of_def Let_def slice_range_def unat_of_nat del: of_nat_Suc)
    with True le num ix off [of ?i] show ?thesis
      by (simp add: fbr_key_may_match_def Let_def reader_of_def add.commute)
  next
    case False
    then have i: "?i < length fs" "fs ! ?i = []" using assms(3) by auto
    then have "length (concat (take (Suc ?i) fs)) = length (concat (take ?i fs))"
      by (simp add: take_Suc_conv_app_nth)
    with i le num ix off [of ?i] off [of "Suc ?i"] show ?thesis
      by (simp add: fbr_key_may_match_def Let_def reader_of_def add.commute)
  qed
  then show ?thesis using integer_encoding.filter_block_reader_new_eq [OF assms(1,2)] by blast
qed

theorem filter_block_lookup_panics_witness:
  "\<exists>r. filter_block_reader_new wire_codec NoFilterPolicy (filter_block_bytes wire_codec [[]]) = Some r \<and>
    fbr_key_may_match wire_codec r 7 [1] = None"
  by (rule filter_block_lookup_panics [OF wire.integer_encoding_axioms])
    (simp_all add: wire.length_filter_block)

end
