(* ===== verification/File_Names.thy ===== *)
theory File_Names
  imports Errors
begin

text \<open>
  The names of the files of a database: the functions that form them (in \<open>src/src/version_set.rs\<close>,
  \<open>src/src/db_impl.rs\<close>, \<open>src/src/table_cache.rs\<close>) and \<open>parse_file_name\<close> (\<open>src/src/types.rs\<close>), which
  recognises them again. Paths are strings; decimal numbers are printed and read as the standard
  library does it.
\<close>

section \<open>Decimal numbers\<close>

definition digit_char :: "nat \<Rightarrow> char" where
  "digit_char d = char_of (48 + d)"

definition digit_value :: "char \<Rightarrow> nat option" where
  "digit_value c = (let n = (of_char c :: nat) in if 48 \<le> n \<and> n \<le> 57 then Some (n - 48) else None)"

fun show_nat :: "nat \<Rightarrow> string" where
  "show_nat n = (if n < 10 then [digit_char n] else show_nat (n div 10) @ [digit_char (n mod 10)])"

declare show_nat.simps [simp del]

text \<open>\<open>{:06}\<close>\<close>

definition show_padded :: "nat \<Rightarrow> string" where
  "show_padded n = replicate (6 - length (show_nat n)) (CHR ''0'') @ show_nat n"

fun read_digits :: "string \<Rightarrow> nat \<Rightarrow> nat option" where
  "read_digits [] acc = Some acc"
| "read_digits (c # cs) acc = (case digit_value c of None \<Rightarrow> None | Some d \<Rightarrow> read_digits cs (10 * acc + d))"

text \<open>\<open>u64::from_str_radix(s, 10)\<close>: at least one digit, perhaps after a plus sign, and no overflow.\<close>

definition parse_u64 :: "string \<Rightarrow> u64 option" where
  "parse_u64 s =
     (let ds = (case s of c # cs \<Rightarrow> if c = CHR ''+'' then cs else s | [] \<Rightarrow> [])
      in if ds = [] then None
         else case read_digits ds 0 of None \<Rightarrow> None
              | Some n \<Rightarrow> if n < 2 ^ 64 then Some (of_nat n) else None)"


section \<open>Names\<close>

type_synonym file_num = u64

datatype file_type = Log | DBLock | Table | Descriptor | Current | Temp | InfoLog

definition path_join :: "string \<Rightarrow> string \<Rightarrow> string" where
  "path_join dir name = (if dir = [] then name else if last dir = CHR ''/'' then dir @ name else dir @ ''/'' @ name)"

definition manifest_name :: "file_num \<Rightarrow> string" where
  "manifest_name num = ''MANIFEST-'' @ show_padded (unat num)"

definition manifest_file_name :: "string \<Rightarrow> file_num \<Rightarrow> string" where
  "manifest_file_name dbname num = path_join dbname (manifest_name num)"

definition temp_file_name :: "string \<Rightarrow> file_num \<Rightarrow> string" where
  "temp_file_name dbname num = path_join dbname (show_padded (unat num) @ ''.dbtmp'')"

definition current_file_name :: "string \<Rightarrow> string" where
  "current_file_name dbname = path_join dbname ''CURRENT''"

definition log_file_name :: "string \<Rightarrow> file_num \<Rightarrow> string" where
  "log_file_name dbname num = path_join dbname (show_padded (unat num) @ ''.log'')"

definition lock_file_name :: "string \<Rightarrow> string" where
  "lock_file_name dbname = path_join dbname ''LOCK''"

definition table_file_name :: "string \<Rightarrow> file_num \<Rightarrow> string run" where
  "table_file_name dbname num =
     do { ensure (num > 0); Some (path_join dbname (show_padded (unat num) @ ''.ldb'')) }"

definition find_char :: "char \<Rightarrow> string \<Rightarrow> nat option" where
  "find_char c s = (if c \<in> set s then Some (length (takeWhile (\<lambda>x. x \<noteq> c) s)) else None)"

definition parse_file_name :: "string \<Rightarrow> (file_num \<times> file_type) result" where
  "parse_file_name f =
     (if f = ''CURRENT'' then Inr (0, Current)
      else if f = ''LOCK'' then Inr (0, DBLock)
      else if f = ''LOG'' \<or> f = ''LOG.old'' then Inr (0, InfoLog)
      else if take 9 f = ''MANIFEST-'' then
        (case find_char (CHR ''-'') f of
           Some ix \<Rightarrow> (case parse_u64 (drop (ix + 1) f) of
               Some num \<Rightarrow> Inr (num, Descriptor)
             | None \<Rightarrow> err InvalidArgument ''manifest file number is invalid'')
         | None \<Rightarrow> err InvalidArgument ''manifest file has no dash'')
      else case find_char (CHR ''.'') f of
          Some ix \<Rightarrow> (case parse_u64 (take ix f) of
              Some num \<Rightarrow>
                (let ext = drop (ix + 1) f
                 in if ext = ''log'' then Inr (num, Log)
                    else if ext = ''sst'' \<or> ext = ''ldb'' then Inr (num, Table)
                    else if ext = ''dbtmp'' then Inr (num, Temp)
                    else err InvalidArgument ''unknown numbered file extension'')
            | None \<Rightarrow> err InvalidArgument ''invalid file number for table or temp file'')
        | None \<Rightarrow> err InvalidArgument ''unknown file type'')"


section \<open>Printing and reading numbers\<close>

lemma digit_value_char: "d < 10 \<Longrightarrow> digit_value (digit_char d) = Some d"
  by (simp add: digit_value_def digit_char_def)

definition is_digit :: "char \<Rightarrow> bool" where
  "is_digit c \<longleftrightarrow> digit_value c \<noteq> None"

lemma digit_char_is_digit [simp]: "d < 10 \<Longrightarrow> is_digit (digit_char d)"
  by (simp add: is_digit_def digit_value_char)

lemma zero_is_digit: "is_digit (CHR ''0'')" "digit_value (CHR ''0'') = Some 0"
  by (simp_all add: is_digit_def digit_value_def)

lemma show_nat_digits: "\<forall>c \<in> set (show_nat n). is_digit c"
  by (induction n rule: show_nat.induct) (subst show_nat.simps, auto)

lemma show_nat_nonempty [simp]: "show_nat n \<noteq> []"
  by (subst show_nat.simps) simp

lemma show_padded_digits: "c \<in> set (show_padded n) \<Longrightarrow> is_digit c"
  using show_nat_digits [of n] zero_is_digit by (auto simp: show_padded_def split: if_splits)

lemma not_digits [simp]:
  "\<not> is_digit (CHR ''+'')" "\<not> is_digit (CHR ''-'')" "\<not> is_digit (CHR ''.'')" "\<not> is_digit (CHR ''C'')"
  "\<not> is_digit (CHR ''L'')" "\<not> is_digit (CHR ''M'')"
  by (simp_all add: is_digit_def digit_value_def)

lemma read_digits_append:
  "read_digits (xs @ ys) acc = (case read_digits xs acc of None \<Rightarrow> None | Some n \<Rightarrow> read_digits ys n)"
  by (induction xs arbitrary: acc) (auto split: option.splits)

lemma read_show_nat: "read_digits (show_nat n) 0 = Some n"
proof (induction n rule: show_nat.induct)
  case (1 n)
  then show ?case
    by (subst show_nat.simps) (auto simp: read_digits_append digit_value_char)
qed

lemma read_show_padded: "read_digits (show_padded n) 0 = Some n"
proof -
  have "read_digits (replicate m (CHR ''0'')) 0 = Some 0" for m
    by (induction m) (auto simp: zero_is_digit)
  then show ?thesis by (simp add: show_padded_def read_digits_append read_show_nat)
qed

lemma parse_show_padded: "parse_u64 (show_padded (unat num)) = Some num"
proof -
  have ne: "show_padded (unat num) \<noteq> []" by (simp add: show_padded_def)
  then obtain c cs where c: "show_padded (unat num) = c # cs" by (cases "show_padded (unat num)") auto
  then have "c \<noteq> CHR ''+''" using show_padded_digits [of c "unat num"] by auto
  then show ?thesis
    using read_show_padded [of "unat num"] c unsigned_less [of num, where 'a = nat]
    by (simp add: parse_u64_def)
qed

lemma find_char_after:
  assumes "\<forall>x \<in> set xs. x \<noteq> c"
  shows "find_char c (xs @ c # ys) = Some (length xs)"
  using assms by (simp add: find_char_def)

lemma numbered_name:
  assumes "CHR ''.'' \<notin> set ext"
  shows "parse_file_name (show_padded (unat num) @ ''.'' @ ext) =
    (if ext = ''log'' then Inr (num, Log)
     else if ext = ''sst'' \<or> ext = ''ldb'' then Inr (num, Table)
     else if ext = ''dbtmp'' then Inr (num, Temp)
     else err InvalidArgument ''unknown numbered file extension'')"
proof -
  let ?d = "show_padded (unat num)"
  have ne: "?d \<noteq> []" by (simp add: show_padded_def)
  then obtain c cs where c: "?d = c # cs" by (cases ?d) auto
  then have dig: "is_digit c" using show_padded_digits [of c "unat num"] by simp
  have "\<forall>x \<in> set ?d. x \<noteq> CHR ''.''" using show_padded_digits [of _ "unat num"] by fastforce
  then have "find_char (CHR ''.'') (?d @ ''.'' @ ext) = Some (length ?d)"
    using find_char_after [of ?d "CHR ''.''" ext] by simp
  moreover have "\<not> (?d @ ''.'' @ ext) \<in> {''CURRENT'', ''LOCK'', ''LOG'', ''LOG.old''}"
    using c dig by auto
  moreover have "take 9 (?d @ ''.'' @ ext) \<noteq> ''MANIFEST-''" using c dig by auto
  ultimately show ?thesis by (auto simp: parse_file_name_def parse_show_padded)
qed

lemma manifest_name_parsed: "parse_file_name (manifest_name num) = Inr (num, Descriptor)"
proof -
  have "find_char (CHR ''-'') (''MANIFEST'' @ CHR ''-'' # show_padded (unat num)) = Some 8"
    using find_char_after [of "''MANIFEST''" "CHR ''-''"] by simp
  then show ?thesis by (simp add: parse_file_name_def manifest_name_def parse_show_padded)
qed


section \<open>Properties\<close>

text \<open>C33: Every name the database gives to a file is recognised by \<open>parse_file_name\<close> with its number
  and kind, for every 64-bit file number; a table has no file name for number 0.\<close>

theorem file_names_roundtrip:
  "parse_file_name (manifest_file_name '''' num) = Inr (num, Descriptor) \<and>
   parse_file_name (log_file_name '''' num) = Inr (num, Log) \<and>
   parse_file_name (temp_file_name '''' num) = Inr (num, Temp) \<and>
   map_option parse_file_name (table_file_name '''' num) = (if num = 0 then None else Some (Inr (num, Table))) \<and>
   parse_file_name (current_file_name '''') = Inr (0, Current) \<and>
   parse_file_name (lock_file_name '''') = Inr (0, DBLock)"
  using manifest_name_parsed [of num] numbered_name [of "''log''" num] numbered_name [of "''dbtmp''" num]
    numbered_name [of "''ldb''" num] word_greater_zero_iff [of num]
  by (simp add: manifest_file_name_def log_file_name_def temp_file_name_def table_file_name_def current_file_name_def
      lock_file_name_def path_join_def parse_file_name_def)

end
