(* ===== verification/Options.thy ===== *)
theory Options
  imports Comparator Filter_Policy File_Names
begin

text \<open>
  Compressors (\<open>src/src/compressor.rs\<close>) and the options of a database (\<open>src/src/options.rs\<close>). The
  snappy codec of the snap crate is a parameter. The environment, the logger and the block cache,
  which \<open>Options\<close> shares by reference, are passed to the components that use them instead.
\<close>

section \<open>Compressors\<close>

record compressor =
  comp_encode :: "bytes \<Rightarrow> bytes result"
  comp_decode :: "bytes \<Rightarrow> bytes result"

definition NoneCompressor :: compressor where
  "NoneCompressor = \<lparr>comp_encode = Inr, comp_decode = Inr\<rparr>"

definition NoneCompressor_ID :: byte where
  "NoneCompressor_ID = 0"

record snap_codec =
  compress_vec :: "bytes \<Rightarrow> bytes result"
  decompress_vec :: "bytes \<Rightarrow> bytes result"

text \<open>A codec that stores blocks as literals, used in examples.\<close>

definition literal_snap :: snap_codec where
  "literal_snap = \<lparr>compress_vec = Inr, decompress_vec = Inr\<rparr>"

definition SnappyCompressor :: "snap_codec \<Rightarrow> compressor" where
  "SnappyCompressor snap = \<lparr>comp_encode = compress_vec snap, comp_decode = decompress_vec snap\<rparr>"

definition SnappyCompressor_ID :: byte where
  "SnappyCompressor_ID = 1"

text \<open>
  A compressor without loss: what it encodes, it decodes to the same bytes. Bytes of 32-bit length
  come from bytes of 32-bit length; Snappy cannot represent longer ones.
\<close>

locale lossless =
  fixes c :: compressor
  assumes decode_encode: "comp_encode c b = Inr d \<Longrightarrow> comp_decode c d = Inr b"
    and encode_small: "comp_encode c b = Inr d \<Longrightarrow> length d < 2 ^ 32 \<Longrightarrow> length b < 2 ^ 32"

interpretation none_compressor: lossless NoneCompressor
  by unfold_locales (simp_all add: NoneCompressor_def)

text \<open>The array of 256 compressors, indexed by the id.\<close>

type_synonym compressor_list = "byte \<Rightarrow> compressor option"

definition compressor_list_new :: compressor_list where
  "compressor_list_new = (\<lambda>_. None)"

definition set_with_id :: "compressor_list \<Rightarrow> byte \<Rightarrow> compressor \<Rightarrow> compressor_list" where
  "set_with_id l i c = l(i := Some c)"

definition compressor_is_set :: "compressor_list \<Rightarrow> byte \<Rightarrow> bool" where
  "compressor_is_set l i \<longleftrightarrow> l i \<noteq> None"

definition compressor_get :: "compressor_list \<Rightarrow> byte \<Rightarrow> compressor result" where
  "compressor_get l i =
     (case l i of Some c \<Rightarrow> Inr c
      | None \<Rightarrow> Inl \<lparr>code = NotSupported, err_msg = ''invalid compression id `'' @ show_nat (unat i) @ ''`''\<rparr>)"

definition compressor_list_default :: "snap_codec \<Rightarrow> compressor_list" where
  "compressor_list_default snap =
     set_with_id (set_with_id compressor_list_new NoneCompressor_ID NoneCompressor)
       SnappyCompressor_ID (SnappyCompressor snap)"


section \<open>Options\<close>

record options =
  opt_cmp :: comparator
  create_if_missing :: bool
  error_if_exists :: bool
  paranoid_checks :: bool
  write_buffer_size :: nat
  max_open_files :: nat
  max_file_size :: nat
  block_size :: nat
  block_restart_interval :: nat
  opt_compressor :: byte
  opt_compressor_list :: compressor_list
  reuse_logs :: bool
  reuse_manifest :: bool
  opt_filter_policy :: filter_policy

definition BLOCK_MAX_SIZE :: nat where
  "BLOCK_MAX_SIZE = 4 * 2 ^ 10"

definition WRITE_BUFFER_SIZE :: nat where
  "WRITE_BUFFER_SIZE = 4 * 2 ^ 20"

definition DEFAULT_BITS_PER_KEY :: u32 where
  "DEFAULT_BITS_PER_KEY = 10"

definition options_default :: "int_codec \<Rightarrow> snap_codec \<Rightarrow> options" where
  "options_default ie snap =
     \<lparr>opt_cmp = DefaultCmp, create_if_missing = True, error_if_exists = False, paranoid_checks = False,
      write_buffer_size = WRITE_BUFFER_SIZE, max_open_files = 2 ^ 10, max_file_size = 2 * 2 ^ 20,
      block_size = BLOCK_MAX_SIZE, block_restart_interval = 16, opt_compressor = 0,
      opt_compressor_list = compressor_list_default snap, reuse_logs = True, reuse_manifest = True,
      opt_filter_policy = BloomPolicy ie (bloom_new DEFAULT_BITS_PER_KEY)\<rparr>"

lemma compressor_set_get [simp]:
  "compressor_get (set_with_id l i c) j = (if i = j then Inr c else compressor_get l j)"
  "compressor_is_set (set_with_id l i c) j \<longleftrightarrow> i = j \<or> compressor_is_set l j"
  by (auto simp: compressor_get_def set_with_id_def compressor_is_set_def)

text \<open>The default options write blocks uncompressed.\<close>

lemma default_compressor:
  "compressor_get (opt_compressor_list (options_default ie snap)) (opt_compressor (options_default ie snap)) =
    Inr NoneCompressor"
  by (simp add: options_default_def compressor_list_default_def NoneCompressor_ID_def SnappyCompressor_ID_def)

end
