(* ===== verification/Block_Builder.thy ===== *)
theory Block_Builder
  imports Options
begin

text \<open>
  Building blocks (\<open>src/src/block_builder.rs\<close>): entries in which a key is stored without the prefix
  it shares with the key before it, followed by the offsets of the restart points, at which keys are
  stored whole. The second part describes the bytes of a block abstractly, by its entries and its
  restart points, and shows that the builder produces such bytes.
\<close>

record block_builder =
  bb_opt :: options
  bb_buffer :: bytes
  bb_restarts :: "u32 list"
  bb_last_key :: bytes
  bb_restart_counter :: nat
  bb_counter :: nat

definition block_builder_new :: "options \<Rightarrow> block_builder" where
  "block_builder_new opt = \<lparr>bb_opt = opt, bb_buffer = [], bb_restarts = [0], bb_last_key = [],
     bb_restart_counter = 0, bb_counter = 0\<rparr>"

definition bb_entries :: "block_builder \<Rightarrow> nat" where
  "bb_entries b = bb_counter b"

definition bb_size_estimate :: "block_builder \<Rightarrow> nat" where
  "bb_size_estimate b = length (bb_buffer b) + 4 * length (bb_restarts b) + 4"

definition bb_reset :: "block_builder \<Rightarrow> block_builder" where
  "bb_reset b = b\<lparr>bb_buffer := [], bb_restarts := [], bb_last_key := [], bb_restart_counter := 0, bb_counter := 0\<rparr>"

fun shared_prefix :: "bytes \<Rightarrow> bytes \<Rightarrow> nat" where
  "shared_prefix (a # as) (b # bs) = (if a = b then Suc (shared_prefix as bs) else 0)"
| "shared_prefix _ _ = 0"

definition bb_add :: "int_codec \<Rightarrow> block_builder \<Rightarrow> bytes \<Rightarrow> bytes \<Rightarrow> block_builder run" where
  "bb_add ie b key val =
     do { ensure (bb_restart_counter b \<le> block_restart_interval (bb_opt b));
          (if bb_buffer b = [] then Some ()
           else do { c \<leftarrow> cmp (opt_cmp (bb_opt b)) (bb_last_key b) key; ensure (c = Less) });
          let (shared, b) =
            (if bb_restart_counter b < block_restart_interval (bb_opt b)
             then (shared_prefix (bb_last_key b) key, b)
             else (0, b\<lparr>bb_restarts := bb_restarts b @ [of_nat (length (bb_buffer b))],
                        bb_last_key := resize 0 0 (bb_last_key b), bb_restart_counter := 0\<rparr>));
          non_shared \<leftarrow> usub (length key) shared;
          suffix \<leftarrow> slice_from shared key;
          Some (b\<lparr>bb_buffer := bb_buffer b @ encode_var ie shared @ encode_var ie non_shared @
                       encode_var ie (length val) @ suffix @ val,
                  bb_last_key := resize shared 0 (bb_last_key b) @ suffix,
                  bb_restart_counter := bb_restart_counter b + 1, bb_counter := bb_counter b + 1\<rparr>) }"

definition bb_finish :: "int_codec \<Rightarrow> block_builder \<Rightarrow> bytes" where
  "bb_finish ie b = bb_buffer b @ concat (map (encode_fixed32 ie) (bb_restarts b)) @
     encode_fixed32 ie (of_nat (length (bb_restarts b)))"


section \<open>The bytes of a block\<close>

text \<open>An entry with the length of the prefix it shares with the key before it.\<close>

type_synonym block_entry = "nat \<times> bytes \<times> bytes"

abbreviation shared_of :: "block_entry \<Rightarrow> nat" where "shared_of \<equiv> fst"
abbreviation key_of :: "block_entry \<Rightarrow> bytes" where "key_of x \<equiv> fst (snd x)"
abbreviation val_of :: "block_entry \<Rightarrow> bytes" where "val_of x \<equiv> snd (snd x)"

fun enc_block_entry :: "int_codec \<Rightarrow> block_entry \<Rightarrow> bytes" where
  "enc_block_entry ie (s, k, v) =
     encode_var ie s @ encode_var ie (length k - s) @ encode_var ie (length v) @ drop s k @ v"

definition enc_block_entries :: "int_codec \<Rightarrow> block_entry list \<Rightarrow> bytes" where
  "enc_block_entries ie xs = concat (map (enc_block_entry ie) xs)"

text \<open>The offset of the entry with an index, and the bytes of a block with given restart points.\<close>

definition entry_off :: "int_codec \<Rightarrow> block_entry list \<Rightarrow> nat \<Rightarrow> nat" where
  "entry_off ie xs i = length (enc_block_entries ie (take i xs))"

definition block_bytes :: "int_codec \<Rightarrow> block_entry list \<Rightarrow> nat list \<Rightarrow> bytes" where
  "block_bytes ie xs rs = enc_block_entries ie xs @
     concat (map (encode_fixed32 ie) (map (\<lambda>r. of_nat (entry_off ie xs r)) rs)) @ encode_fixed32 ie (of_nat (length rs))"

text \<open>
  Well-formed entries: the shared prefixes are shared, and none is at a restart point. The first
  entry, if there is one, is a restart point, and restart points are in order.
\<close>

definition entries_wf :: "block_entry list \<Rightarrow> bool" where
  "entries_wf xs \<longleftrightarrow>
     (\<forall>i < length xs. shared_of (xs ! i) \<le> length (key_of (xs ! i)) \<and>
        length (key_of (xs ! i)) < 2 ^ 64 \<and> length (val_of (xs ! i)) < 2 ^ 64 \<and>
        (if i = 0 then shared_of (xs ! i) = 0
         else shared_of (xs ! i) \<le> length (key_of (xs ! (i - 1))) \<and>
           take (shared_of (xs ! i)) (key_of (xs ! i)) = take (shared_of (xs ! i)) (key_of (xs ! (i - 1)))))"

definition restarts_wf :: "block_entry list \<Rightarrow> nat list \<Rightarrow> bool" where
  "restarts_wf xs rs \<longleftrightarrow>
     rs \<noteq> [] \<and> hd rs = 0 \<and> sorted rs \<and> (xs = [] \<longrightarrow> rs = [0]) \<and> (\<forall>r \<in> set rs. r = 0 \<or> r < length xs \<and> shared_of (xs ! r) = 0)"

text \<open>The entries a builder has been given.\<close>

definition bb_rep :: "int_codec \<Rightarrow> block_builder \<Rightarrow> block_entry list \<Rightarrow> nat list \<Rightarrow> bool" where
  "bb_rep ie b xs rs \<longleftrightarrow>
     bb_buffer b = enc_block_entries ie xs \<and> bb_restarts b = map (\<lambda>r. of_nat (entry_off ie xs r)) rs \<and>
     bb_last_key b = (if xs = [] then [] else key_of (last xs)) \<and> bb_counter b = length xs \<and>
     bb_restart_counter b \<le> block_restart_interval (bb_opt b) \<and> entries_wf xs \<and> restarts_wf xs rs"

lemma bb_rep_new: "bb_rep ie (block_builder_new opt) [] [0]"
  by (simp add: bb_rep_def block_builder_new_def enc_block_entries_def entry_off_def entries_wf_def restarts_wf_def)

lemma bb_finish_rep: "bb_rep ie b xs rs \<Longrightarrow> bb_finish ie b = block_bytes ie xs rs"
  by (simp add: bb_finish_def block_bytes_def bb_rep_def)

lemma shared_prefix_ok:
  "shared_prefix as bs \<le> length as \<and> shared_prefix as bs \<le> length bs \<and>
    take (shared_prefix as bs) as = take (shared_prefix as bs) bs"
  by (induction as bs rule: shared_prefix.induct) auto

lemma entry_off_append [simp]: "i \<le> length xs \<Longrightarrow> entry_off ie (xs @ ys) i = entry_off ie xs i"
  by (simp add: entry_off_def)

lemma enc_block_entries_simps [simp]:
  "enc_block_entries ie [] = []" "enc_block_entries ie (x # xs) = enc_block_entry ie x @ enc_block_entries ie xs"
  "enc_block_entries ie (xs @ ys) = enc_block_entries ie xs @ enc_block_entries ie ys"
  by (simp_all add: enc_block_entries_def)

lemma entries_wf_snoc:
  assumes "entries_wf xs" "s \<le> length k" "length k < 2 ^ 64" "length v < 2 ^ 64"
    "if xs = [] then s = 0 else s \<le> length (key_of (last xs)) \<and> take s k = take s (key_of (last xs))"
  shows "entries_wf (xs @ [(s, k, v)])"
proof -
  have "(xs @ [(s, k, v)]) ! (length xs - 1) = last xs" if "xs \<noteq> []"
    using that by (simp add: nth_append last_conv_nth)
  with assms show ?thesis
    unfolding entries_wf_def by (auto simp: nth_append less_Suc_eq split: if_splits)
qed

text \<open>The number of bytes of the blocks is bounded by what the restart offsets can address.\<close>

lemma bb_add_rep:
  assumes "bb_rep ie b xs rs" "0 < block_restart_interval (bb_opt b)" "length key < 2 ^ 64" "length val < 2 ^ 64"
    "bb_buffer b = [] \<or> cmp (opt_cmp (bb_opt b)) (bb_last_key b) key = Some Less" "xs = [] \<longrightarrow> bb_buffer b = []"
  shows "\<exists>b' s rs'. bb_add ie b key val = Some b' \<and> bb_rep ie b' (xs @ [(s, key, val)]) rs' \<and> bb_opt b' = bb_opt b"
proof -
  have i: "bb_buffer b = enc_block_entries ie xs" "bb_restarts b = map (\<lambda>r. of_nat (entry_off ie xs r)) rs"
      "bb_last_key b = (if xs = [] then [] else key_of (last xs))" "bb_counter b = length xs"
      "bb_restart_counter b \<le> block_restart_interval (bb_opt b)" "entries_wf xs" "restarts_wf xs rs"
    using assms(1) by (simp_all add: bb_rep_def)
  have old: "map (\<lambda>r. of_nat (entry_off ie (xs @ [x]) r)) rs = bb_restarts b" for x
    using i(2,7) by (auto simp: restarts_wf_def dest!: bspec)
  show ?thesis
  proof (cases "bb_restart_counter b < block_restart_interval (bb_opt b)")
    case True
    define s where "s = shared_prefix (bb_last_key b) key"
    note s = shared_prefix_ok [of "bb_last_key b" key, folded s_def]
    define b' where "b' = b\<lparr>bb_buffer := bb_buffer b @ enc_block_entry ie (s, key, val), bb_last_key := key,
      bb_restart_counter := bb_restart_counter b + 1, bb_counter := bb_counter b + 1\<rparr>"
    have "resize s 0 (bb_last_key b) @ drop s key = key" using s by (simp add: resize_def)
    then have "bb_add ie b key val = Some b'"
      using True assms(5) s by (auto simp: bb_add_def usub_def slice_from_def b'_def simp flip: s_def)
    moreover have "entries_wf (xs @ [(s, key, val)])"
      using entries_wf_snoc [OF i(6), of s key val] s assms(3,4) i(3) by (auto split: if_splits)
    moreover have "restarts_wf (xs @ [(s, key, val)]) rs" using i(7) by (auto simp: restarts_wf_def nth_append)
    ultimately show ?thesis
      using True i(1,4) old by (intro exI [of _ b'] exI [of _ s] exI [of _ rs]) (simp add: b'_def bb_rep_def)
  next
    case False
    define b' where "b' = b\<lparr>bb_restarts := bb_restarts b @ [of_nat (length (bb_buffer b))],
      bb_buffer := bb_buffer b @ enc_block_entry ie (0, key, val), bb_last_key := key,
      bb_restart_counter := 1, bb_counter := bb_counter b + 1\<rparr>"
    have "bb_add ie b key val = Some b'"
      using False assms(5) i(5) by (auto simp: bb_add_def usub_def slice_from_def resize_def b'_def)
    moreover have "entries_wf (xs @ [(0, key, val)])"
      using entries_wf_snoc [OF i(6), of 0 key val] assms(3,4) by auto
    moreover have "restarts_wf (xs @ [(0, key, val)]) (rs @ [length xs])"
      using i(7) by (fastforce simp: restarts_wf_def nth_append sorted_append)
    moreover have "entry_off ie (xs @ [(0, key, val)]) (length xs) = length (enc_block_entries ie xs)"
      by (simp add: entry_off_def)
    ultimately show ?thesis
      using assms(2) i(1,4) old
      by (intro exI [of _ b'] exI [of _ 0] exI [of _ "rs @ [length xs]"]) (simp add: b'_def bb_rep_def)
  qed
qed

end
