(* ===== verification/Block.thy ===== *)
theory Block
  imports Block_Builder Ldb_Iterator
begin

text \<open>
  Blocks and their iterator (\<open>src/src/block.rs\<close>). The iterator parses entries in place and assembles
  each key from the key before it; it seeks by a binary search over the restart points and a linear
  search from there, and moves backwards by going back to a restart point. Theory Block\_Iter
  shows that on the bytes of a block it walks over the block's entries.
\<close>

record block =
  blk_block :: bytes
  blk_opt :: options

definition block_new :: "options \<Rightarrow> bytes \<Rightarrow> block run" where
  "block_new opt contents = do { ensure (length contents > 4); Some \<lparr>blk_block = contents, blk_opt = opt\<rparr> }"

record block_iter =
  bi_block :: bytes
  bi_opt :: options
  bi_restarts_off :: nat
  bi_offset :: nat
  bi_current_entry_offset :: nat
  bi_current_restart_ix :: nat
  bi_key :: bytes
  bi_val_offset :: nat

definition number_restarts_of :: "int_codec \<Rightarrow> bytes \<Rightarrow> nat run" where
  "number_restarts_of ie bs =
     do { n \<leftarrow> usub (length bs) 4;
          w \<leftarrow> slice_from n bs;
          Some (unat (decode_fixed32 ie w)) }"

definition block_iter_new :: "int_codec \<Rightarrow> block \<Rightarrow> block_iter run" where
  "block_iter_new ie b =
     do { restarts \<leftarrow> number_restarts_of ie (blk_block b);
          n \<leftarrow> usub (length (blk_block b)) 4;
          restart_offset \<leftarrow> usub n (4 * restarts);
          Some \<lparr>bi_block = blk_block b, bi_opt = blk_opt b, bi_restarts_off = restart_offset, bi_offset = 0,
                bi_current_entry_offset = 0, bi_current_restart_ix = 0, bi_key = [], bi_val_offset = 0\<rparr> }"

definition number_restarts :: "int_codec \<Rightarrow> block_iter \<Rightarrow> nat run" where
  "number_restarts ie it = number_restarts_of ie (bi_block it)"

definition get_restart_point :: "int_codec \<Rightarrow> block_iter \<Rightarrow> nat \<Rightarrow> nat run" where
  "get_restart_point ie it ix =
     do { let restart = bi_restarts_off it + 4 * ix;
          w \<leftarrow> slice_range restart (restart + 4) (bi_block it);
          Some (unat (decode_fixed32 ie w)) }"

text \<open>One \<open>usize::decode_var(&self.block[off..])\<close>.\<close>

definition decode_at :: "int_codec \<Rightarrow> block_iter \<Rightarrow> nat \<Rightarrow> (nat \<times> nat) option run" where
  "decode_at ie it off = do { bs \<leftarrow> slice_from off (bi_block it); Some (decode_var ie bs) }"

definition parse_entry_and_advance ::
    "int_codec \<Rightarrow> block_iter \<Rightarrow> ((nat \<times> nat \<times> nat \<times> nat) option \<times> block_iter) run" where
  "parse_entry_and_advance ie it =
     do { r \<leftarrow> decode_at ie it (bi_offset it);
          case r of None \<Rightarrow> Some (None, it) | Some (shared, sharedlen) \<Rightarrow>
          do { let i = sharedlen;
               r \<leftarrow> decode_at ie it (bi_offset it + i);
               case r of None \<Rightarrow> Some (None, it) | Some (non_shared, non_sharedlen) \<Rightarrow>
               do { let i = i + non_sharedlen;
                    r \<leftarrow> decode_at ie it (bi_offset it + i);
                    case r of None \<Rightarrow> Some (None, it) | Some (valsize, valsizelen) \<Rightarrow>
                    do { let i = i + valsizelen;
                         let val_offset = bi_offset it + i + non_shared;
                         Some (Some (shared, non_shared, valsize, i),
                               it\<lparr>bi_val_offset := val_offset, bi_offset := val_offset + valsize\<rparr>) } } } }"

definition assemble_key :: "block_iter \<Rightarrow> nat \<Rightarrow> nat \<Rightarrow> nat \<Rightarrow> block_iter run" where
  "assemble_key it off shared non_shared =
     do { part \<leftarrow> slice_range off (off + non_shared) (bi_block it);
          Some (it\<lparr>bi_key := take shared (bi_key it) @ part\<rparr>) }"

definition bi_valid :: "block_iter \<Rightarrow> bool" where
  "bi_valid it \<longleftrightarrow> bi_key it \<noteq> [] \<and> bi_val_offset it > 0 \<and> bi_val_offset it \<le> bi_restarts_off it"

definition seek_to_restart_point :: "int_codec \<Rightarrow> block_iter \<Rightarrow> nat \<Rightarrow> (unit option \<times> block_iter) run" where
  "seek_to_restart_point ie it ix =
     do { off \<leftarrow> get_restart_point ie it ix;
          let it = it\<lparr>bi_offset := off, bi_current_entry_offset := off, bi_current_restart_ix := ix\<rparr>;
          (r, it) \<leftarrow> parse_entry_and_advance ie it;
          case r of None \<Rightarrow> Some (None, it)
          | Some (shared, non_shared, _, head_len) \<Rightarrow>
              do { ensure (shared = 0);
                   it \<leftarrow> assemble_key it (off + head_len) shared non_shared;
                   ensure (bi_valid it);
                   Some (Some (), it) } }"

definition bi_reset :: "block_iter \<Rightarrow> block_iter" where
  "bi_reset it = it\<lparr>bi_offset := 0, bi_val_offset := 0, bi_current_restart_ix := 0, bi_key := []\<rparr>"

function adjust_restart_ix :: "int_codec \<Rightarrow> block_iter \<Rightarrow> nat \<Rightarrow> nat \<Rightarrow> nat run" where
  "adjust_restart_ix ie it num_restarts ix =
     (if ix + 1 < num_restarts
      then do { p \<leftarrow> get_restart_point ie it (ix + 1);
                if p < bi_current_entry_offset it then adjust_restart_ix ie it num_restarts (ix + 1) else Some ix }
      else Some ix)"
  by pat_completeness auto
termination
  by (relation "measure (\<lambda>(ie, it, n, ix). n - ix)") auto

declare adjust_restart_ix.simps [simp del]

text \<open>An entry that cannot be parsed panics in a debug build; in a release build the result is false.\<close>

definition bi_advance :: "int_codec \<Rightarrow> block_iter \<Rightarrow> (bool \<times> block_iter) run" where
  "bi_advance ie it =
     (if bi_offset it \<ge> bi_restarts_off it then Some (False, bi_reset it)
      else do { let current_off = bi_offset it;
                let it = it\<lparr>bi_current_entry_offset := current_off\<rparr>;
                (r, it) \<leftarrow> parse_entry_and_advance ie it;
                case r of None \<Rightarrow> Some (False, it)
                | Some (shared, non_shared, _, entry_head_len) \<Rightarrow>
                    do { it \<leftarrow> assemble_key it (current_off + entry_head_len) shared non_shared;
                         num_restarts \<leftarrow> number_restarts ie it;
                         ix \<leftarrow> adjust_restart_ix ie it num_restarts (bi_current_restart_ix it);
                         Some (True, it\<lparr>bi_current_restart_ix := ix\<rparr>) } })"

definition bi_current :: "block_iter \<Rightarrow> (bytes \<times> bytes) option run" where
  "bi_current it =
     (if bi_valid it
      then do { v \<leftarrow> slice_range (bi_val_offset it) (bi_offset it) (bi_block it); Some (Some (bi_key it, v)) }
      else Some None)"

text \<open>The trait's \<open>next\<close> for this iterator.\<close>

definition bi_next :: "int_codec \<Rightarrow> block_iter \<Rightarrow> ((bytes \<times> bytes) option \<times> block_iter) run" where
  "bi_next ie it =
     do { (moved, it) \<leftarrow> bi_advance ie it;
          if \<not> moved then Some (None, it)
          else do { c \<leftarrow> bi_current it; Some (c, it) } }"

partial_function (option) last_loop :: "int_codec \<Rightarrow> block_iter \<Rightarrow> block_iter option" where
  "last_loop ie it =
     (if bi_offset it < bi_restarts_off it
      then bi_advance ie it \<bind> (\<lambda>(_, it). last_loop ie it)
      else Some it)"

definition seek_to_last :: "int_codec \<Rightarrow> block_iter \<Rightarrow> (unit option \<times> block_iter) run" where
  "seek_to_last ie it =
     do { num_restarts \<leftarrow> number_restarts ie it;
          (r, it) \<leftarrow> (if num_restarts > 0 then seek_to_restart_point ie it (num_restarts - 1)
                     else Some (Some (), bi_reset it));
          case r of None \<Rightarrow> Some (None, it)
          | Some _ \<Rightarrow> do { it \<leftarrow> last_loop ie it; ensure (bi_valid it); Some (Some (), it) } }"

text \<open>
  Moving backwards: the restart point before the current entry, and then forward to the entry before
  it.
\<close>

fun prev_restart :: "int_codec \<Rightarrow> block_iter \<Rightarrow> nat \<Rightarrow> nat \<Rightarrow> nat run" where
  "prev_restart ie it orig_offset ix =
     do { p \<leftarrow> get_restart_point ie it ix;
          if p \<ge> orig_offset
          then (case ix of 0 \<Rightarrow> number_restarts ie it | Suc ix' \<Rightarrow> prev_restart ie it orig_offset ix')
          else Some ix }"

declare prev_restart.simps [simp del]

partial_function (option) prev_loop :: "int_codec \<Rightarrow> nat \<Rightarrow> block_iter \<Rightarrow> (bool \<times> block_iter) option" where
  "prev_loop ie orig_offset it =
     bi_advance ie it \<bind> (\<lambda>(result, it).
       if bi_offset it \<ge> orig_offset then Some (result, it) else prev_loop ie orig_offset it)"

definition bi_prev :: "int_codec \<Rightarrow> block_iter \<Rightarrow> (bool \<times> block_iter) run" where
  "bi_prev ie it =
     (let orig_offset = bi_current_entry_offset it
      in if orig_offset = 0 then Some (False, bi_reset it)
         else do { ix \<leftarrow> prev_restart ie it orig_offset (bi_current_restart_ix it);
                   let it = it\<lparr>bi_current_restart_ix := ix\<rparr>;
                   off \<leftarrow> get_restart_point ie it ix;
                   let it = it\<lparr>bi_offset := off\<rparr>;
                   ensure (off < orig_offset);
                   prev_loop ie orig_offset it })"

function seek_search :: "int_codec \<Rightarrow> bytes \<Rightarrow> nat \<Rightarrow> nat \<Rightarrow> block_iter \<Rightarrow> (nat \<times> nat \<times> block_iter) run" where
  "seek_search ie to left right it =
     (if left < right
      then do { let middle = (left + right + 1) div 2;
                (_, it) \<leftarrow> seek_to_restart_point ie it middle;
                c \<leftarrow> cmp (opt_cmp (bi_opt it)) (bi_key it) to;
                if c = Less then seek_search ie to middle right it
                else seek_search ie to left (middle - 1) it }
      else Some (left, right, it))"
  by pat_completeness auto
termination
  by (relation "measure (\<lambda>(ie, to, left, right, it). right - left)") auto

declare seek_search.simps [simp del]

partial_function (option) seek_linear :: "int_codec \<Rightarrow> bytes \<Rightarrow> block_iter \<Rightarrow> block_iter option" where
  "seek_linear ie to it =
     bi_next ie it \<bind> (\<lambda>(e, it).
       case e of None \<Rightarrow> Some it
       | Some (k, _) \<Rightarrow> cmp (opt_cmp (bi_opt it)) k to \<bind> (\<lambda>c.
           if c \<ge> Equal then Some it else seek_linear ie to it))"

definition bi_seek :: "int_codec \<Rightarrow> bytes \<Rightarrow> block_iter \<Rightarrow> block_iter run" where
  "bi_seek ie to it =
     do { let it = bi_reset it;
          n \<leftarrow> number_restarts ie it;
          (left, right, it) \<leftarrow> seek_search ie to 0 (if n = 0 then 0 else n - 1) it;
          ensure (left = right);
          let it = it\<lparr>bi_current_restart_ix := left\<rparr>;
          off \<leftarrow> get_restart_point ie it left;
          seek_linear ie to (it\<lparr>bi_offset := off\<rparr>) }"

definition block_iter_ops :: "int_codec \<Rightarrow> block_iter iter_ops" where
  "block_iter_ops ie =
     \<lparr>it_advance = bi_advance ie, it_current = bi_current, it_seek = bi_seek ie,
      it_reset = (\<lambda>it. Some (bi_reset it)), it_valid = bi_valid, it_prev = bi_prev ie\<rparr>"

lemma bi_next_it_next: "bi_next ie it = it_next (block_iter_ops ie) it"
  by (simp add: bi_next_def it_next_def block_iter_ops_def cong: if_cong)

end
