(* ===== verification/Block_Iter.thy ===== *)
theory Block_Iter
  imports Block
begin

text \<open>
  The block iterator walks over the entries of a block. A block is described by its entries and its
  restart points (theory Block\_Builder); the iterator is at an entry or before the first one. The
  iterator satisfies the contract \<open>ldb_seek\<close>, and a block that was built is read back.
\<close>

definition layout_ok :: "int_codec \<Rightarrow> block_entry list \<Rightarrow> nat list \<Rightarrow> bool" where
  "layout_ok ie xs rs \<longleftrightarrow> entries_wf xs \<and> restarts_wf xs rs \<and> length (block_bytes ie xs rs) < 2 ^ 32 \<and>
     (\<forall>x \<in> set xs. key_of x \<noteq> [])"

definition over_block :: "int_codec \<Rightarrow> block_entry list \<Rightarrow> nat list \<Rightarrow> block_iter \<Rightarrow> bool" where
  "over_block ie xs rs it \<longleftrightarrow> layout_ok ie xs rs \<and> bi_block it = block_bytes ie xs rs \<and>
     bi_restarts_off it = entry_off ie xs (length xs)"

text \<open>The iterator is at the entry with an index.\<close>

definition at_entry :: "int_codec \<Rightarrow> block_entry list \<Rightarrow> nat list \<Rightarrow> nat \<Rightarrow> block_iter \<Rightarrow> bool" where
  "at_entry ie xs rs i it \<longleftrightarrow> i < length xs \<and> bi_offset it = entry_off ie xs (Suc i) \<and>
     bi_current_entry_offset it = entry_off ie xs i \<and> bi_key it = key_of (xs ! i) \<and>
     bi_val_offset it + length (val_of (xs ! i)) = entry_off ie xs (Suc i) \<and>
     bi_current_restart_ix it < length rs \<and> rs ! bi_current_restart_ix it \<le> i"

definition at_start :: "block_iter \<Rightarrow> bool" where
  "at_start it \<longleftrightarrow> bi_offset it = 0 \<and> bi_val_offset it = 0 \<and> bi_current_restart_ix it = 0 \<and> bi_key it = []"

text \<open>The iterator is about to parse an entry, and holds the key the entry's prefix is taken from.\<close>

definition before_entry :: "int_codec \<Rightarrow> block_entry list \<Rightarrow> nat list \<Rightarrow> nat \<Rightarrow> block_iter \<Rightarrow> bool" where
  "before_entry ie xs rs i it \<longleftrightarrow> bi_offset it = entry_off ie xs i \<and>
     bi_current_restart_ix it < length rs \<and> rs ! bi_current_restart_ix it \<le> i \<and>
     (i < length xs \<longrightarrow> shared_of (xs ! i) = 0 \<or> 0 < i \<and> bi_key it = key_of (xs ! (i - 1)))"

lemma entry_off_Suc:
  "i < length xs \<Longrightarrow> entry_off ie xs (Suc i) = entry_off ie xs i + length (enc_block_entry ie (xs ! i))"
  by (simp add: entry_off_def take_Suc_conv_app_nth)

lemma entry_off_0 [simp]: "entry_off ie xs 0 = 0"
  by (simp add: entry_off_def)

lemma entry_off_mono: "i \<le> j \<Longrightarrow> entry_off ie xs i \<le> entry_off ie xs j"
proof -
  assume "i \<le> j"
  then have "take i (take j xs) = take i xs" by (simp add: min_def)
  then have "enc_block_entries ie (take j xs) = enc_block_entries ie (take i xs) @ enc_block_entries ie (drop i (take j xs))"
    by (metis append_take_drop_id enc_block_entries_simps(3))
  then show ?thesis by (simp add: entry_off_def)
qed

lemma entry_split:
  assumes "i < length xs"
  shows "\<exists>pre post. block_bytes ie xs rs = pre @ enc_block_entry ie (xs ! i) @ post \<and> length pre = entry_off ie xs i"
proof -
  have "enc_block_entries ie xs = enc_block_entries ie (take i xs) @ enc_block_entry ie (xs ! i) @
      enc_block_entries ie (drop (Suc i) xs)"
    by (subst id_take_nth_drop [OF assms]) simp
  then show ?thesis by (auto simp: block_bytes_def entry_off_def)
qed

lemma entries_wfD:
  assumes "entries_wf xs" "i < length xs"
  shows "shared_of (xs ! i) \<le> length (key_of (xs ! i))" "shared_of (xs ! i) < 2 ^ 64"
    "length (key_of (xs ! i)) < 2 ^ 64" "length (val_of (xs ! i)) < 2 ^ 64"
    "0 < i \<Longrightarrow> shared_of (xs ! i) \<le> length (key_of (xs ! (i - 1))) \<and>
      take (shared_of (xs ! i)) (key_of (xs ! i)) = take (shared_of (xs ! i)) (key_of (xs ! (i - 1)))"
    "i = 0 \<Longrightarrow> shared_of (xs ! i) = 0"
  using assms by (auto simp: entries_wf_def dest: le_less_trans)

lemma layout_okD:
  assumes "layout_ok ie xs rs"
  shows "entries_wf xs" "rs \<noteq> []" "hd rs = 0" "sorted rs" "i < length rs \<Longrightarrow> rs ! i \<le> length xs"
    "i < length rs \<Longrightarrow> rs ! i < length xs \<Longrightarrow> shared_of (xs ! (rs ! i)) = 0"
    "i < length rs \<Longrightarrow> xs \<noteq> [] \<Longrightarrow> rs ! i < length xs"
proof -
  show wf: "entries_wf xs" "rs \<noteq> []" "hd rs = 0" "sorted rs"
    using assms by (auto simp: layout_ok_def restarts_wf_def)
  assume "i < length rs"
  then have "rs ! i = 0 \<or> rs ! i < length xs \<and> shared_of (xs ! (rs ! i)) = 0"
    using assms by (auto simp: layout_ok_def restarts_wf_def)
  then show "rs ! i \<le> length xs" "rs ! i < length xs \<Longrightarrow> shared_of (xs ! (rs ! i)) = 0"
      "xs \<noteq> [] \<Longrightarrow> rs ! i < length xs"
    using entries_wfD(6) [OF wf(1), of 0] by auto
qed

context integer_encoding
begin

lemma length_block_bytes:
  "length (block_bytes ie xs rs) = entry_off ie xs (length xs) + 4 * length rs + 4"
  using length_concat_fixed [of "map (\<lambda>r. of_nat (entry_off ie xs r) :: u32) rs" "encode_fixed32 ie" 4]
  by (simp add: block_bytes_def entry_off_def codec_laws)

lemma entry_off_less:
  assumes "entries_wf xs" "i < j" "j \<le> length xs"
  shows "entry_off ie xs i < entry_off ie xs j"
proof -
  have "encode_var ie (shared_of (xs ! i)) \<noteq> []"
    using encode_var_nonempty entries_wfD(2) [OF assms(1)] assms(2,3) by simp
  then have "entry_off ie xs i < entry_off ie xs (Suc i)"
    using assms(2,3) by (cases "xs ! i") (simp add: entry_off_Suc)
  also have "\<dots> \<le> entry_off ie xs j" using assms(2) by (simp add: entry_off_mono)
  finally show ?thesis .
qed

lemma entry_off_less_iff:
  assumes "entries_wf xs" "i \<le> length xs" "j \<le> length xs"
  shows "entry_off ie xs i < entry_off ie xs j \<longleftrightarrow> i < j"
  using entry_off_less [OF assms(1)] assms(2,3) entry_off_mono [of j i ie xs] by (cases "i < j") auto

lemma number_restarts_eq:
  assumes "over_block ie xs rs it"
  shows "number_restarts ie it = Some (length rs)"
proof -
  let ?b = "block_bytes ie xs rs" and ?n = "encode_fixed32 ie (of_nat (length rs))"
  have "length ?b < 2 ^ 32" using assms by (simp add: over_block_def layout_ok_def)
  moreover have "\<exists>pre. ?b = pre @ ?n" by (auto simp: block_bytes_def)
  then obtain pre where "?b = pre @ ?n" ..
  then have "slice_from (length ?b - 4) ?b = Some ?n" "4 \<le> length ?b"
    by (simp_all add: slice_from_append codec_laws)
  ultimately show ?thesis
    using assms length_block_bytes [of xs rs]
    by (simp add: number_restarts_def number_restarts_of_def over_block_def usub_def codec_laws unat_of_nat)
qed

lemma get_restart_point_eq:
  assumes "over_block ie xs rs it" "ix < length rs"
  shows "get_restart_point ie it ix = Some (entry_off ie xs (rs ! ix))"
proof -
  have l: "layout_ok ie xs rs" using assms(1) by (simp add: over_block_def)
  have "entry_off ie xs (rs ! ix) \<le> entry_off ie xs (length xs)"
    using layout_okD(5) [OF l assms(2)] by (rule entry_off_mono)
  then have small: "entry_off ie xs (rs ! ix) < 2 ^ 32"
    using l length_block_bytes [of xs rs] by (simp add: layout_ok_def)
  have "slice_range (length (enc_block_entries ie xs) + 4 * ix) (length (enc_block_entries ie xs) + 4 * ix + 4)
      (block_bytes ie xs rs) = Some (encode_fixed32 ie (map (\<lambda>r. of_nat (entry_off ie xs r)) rs ! ix))"
    unfolding block_bytes_def by (rule slice_fixed_width) (use assms(2) in \<open>simp_all add: codec_laws\<close>)
  with assms small show ?thesis
    by (simp add: get_restart_point_def over_block_def entry_off_def Let_def codec_laws unat_of_nat)
qed

text \<open>Parsing the entry an iterator stands before.\<close>

lemma parse_entry_eq:
  assumes "over_block ie xs rs it" "i < length xs" "bi_offset it = entry_off ie xs i" "xs ! i = (s, k, v)"
  shows "\<exists>h. parse_entry_and_advance ie it = Some (Some (s, length k - s, length v, h),
      it\<lparr>bi_val_offset := entry_off ie xs (Suc i) - length v, bi_offset := entry_off ie xs (Suc i)\<rparr>) \<and>
    entry_off ie xs (Suc i) = entry_off ie xs i + h + (length k - s) + length v \<and>
    slice_range (entry_off ie xs i + h) (entry_off ie xs i + h + (length k - s)) (bi_block it) = Some (drop s k)"
proof -
  let ?vs = "encode_var ie s" and ?vn = "encode_var ie (length k - s)" and ?vv = "encode_var ie (length v)"
  let ?h = "length ?vs + length ?vn + length ?vv"
  obtain pre post where b: "bi_block it = pre @ (?vs @ ?vn @ ?vv @ drop s k @ v) @ post" and pre: "length pre = entry_off ie xs i"
    using entry_split [OF assms(2), of ie rs] assms(1,4) by (auto simp: over_block_def)
  have w: "s \<le> length k" "s < 2 ^ 64" "length k < 2 ^ 64" "length v < 2 ^ 64"
    using entries_wfD [OF layout_okD(1), of ie xs rs i] assms by (auto simp: over_block_def)
  have d1: "decode_at ie it (length pre) = Some (Some (s, length ?vs))"
    using decode_encode_var [OF w(2)] by (simp add: decode_at_def b slice_from_def)
  have d2: "decode_at ie it (length pre + length ?vs) = Some (Some (length k - s, length ?vn))"
    using decode_encode_var [of "length k - s"] w(3) by (simp add: decode_at_def b slice_from_def)
  have d3: "decode_at ie it (length pre + (length ?vs + length ?vn)) = Some (Some (length v, length ?vv))"
    using decode_encode_var [OF w(4)] by (simp add: decode_at_def b slice_from_def)
  have off: "entry_off ie xs (Suc i) = entry_off ie xs i + ?h + (length k - s) + length v"
    using assms(2,4) w(1) by (simp add: entry_off_Suc)
  have "slice_range (entry_off ie xs i + ?h) (entry_off ie xs i + ?h + (length k - s)) (bi_block it) = Some (drop s k)"
    using slice_append_middle [of "pre @ ?vs @ ?vn @ ?vv" "entry_off ie xs i + ?h" "drop s k" _ "v @ post"] pre w(1)
    by (simp add: b)
  moreover have "parse_entry_and_advance ie it = Some (Some (s, length k - s, length v, ?h),
      it\<lparr>bi_val_offset := entry_off ie xs (Suc i) - length v, bi_offset := entry_off ie xs (Suc i)\<rparr>)"
    using d1 d2 d3 off pre assms(3) by (simp add: parse_entry_and_advance_def Let_def)
  ultimately show ?thesis using off by blast
qed

lemma adjust_restart_ix_ok:
  assumes "over_block ie xs rs it" "bi_current_entry_offset it = entry_off ie xs i" "i < length xs"
    "ix < length rs" "rs ! ix \<le> i"
  shows "\<exists>ix'. adjust_restart_ix ie it (length rs) ix = Some ix' \<and> ix' < length rs \<and> rs ! ix' \<le> i"
  using assms(4,5)
proof (induction "length rs - ix" arbitrary: ix)
  case (Suc n)
  show ?case
  proof (cases "ix + 1 < length rs \<and> entry_off ie xs (rs ! (ix + 1)) < entry_off ie xs i")
    case True
    then have "rs ! (ix + 1) \<le> i"
      using entry_off_mono [of i "rs ! (ix + 1)" ie xs] by (cases "i \<le> rs ! (ix + 1)") auto
    then show ?thesis
      using Suc.hyps(1) [of "ix + 1"] Suc.hyps(2) True get_restart_point_eq [OF assms(1), of "ix + 1"] assms(2)
      by (subst adjust_restart_ix.simps) simp
  next
    case False
    then show ?thesis
      using Suc.prems get_restart_point_eq [OF assms(1), of "ix + 1"] assms(2)
      by (subst adjust_restart_ix.simps) auto
  qed
qed simp

text \<open>Advancing onto an entry, from wherever the iterator stands before it.\<close>

lemma advance_onto:
  assumes "over_block ie xs rs it" "before_entry ie xs rs i it" "i < length xs"
  shows "\<exists>it'. bi_advance ie it = Some (True, it') \<and> over_block ie xs rs it' \<and> at_entry ie xs rs i it' \<and>
    bi_opt it' = bi_opt it"
proof -
  obtain s k v where x: "xs ! i = (s, k, v)" by (cases "xs ! i")
  have wf: "entries_wf xs" using layout_okD(1) assms(1) by (auto simp: over_block_def)
  let ?it1 = "it\<lparr>bi_current_entry_offset := bi_offset it\<rparr>"
  have over1: "over_block ie xs rs ?it1" using assms(1) by (simp add: over_block_def)
  obtain h where h: "parse_entry_and_advance ie ?it1 = Some (Some (s, length k - s, length v, h),
      ?it1\<lparr>bi_val_offset := entry_off ie xs (Suc i) - length v, bi_offset := entry_off ie xs (Suc i)\<rparr>)"
      "entry_off ie xs (Suc i) = entry_off ie xs i + h + (length k - s) + length v"
      "slice_range (entry_off ie xs i + h) (entry_off ie xs i + h + (length k - s)) (bi_block ?it1) = Some (drop s k)"
    using parse_entry_eq [OF over1 assms(3) _ x] assms(2) by (auto simp: before_entry_def)
  have "take s (bi_key it) = take s k"
  proof (cases "s = 0")
    case False
    then have "0 < i" "bi_key it = key_of (xs ! (i - 1))" using assms(2,3) x by (auto simp: before_entry_def)
    then show ?thesis using entries_wfD(5) [OF wf assms(3)] x by simp
  qed simp
  then have key: "take s (bi_key it) @ drop s k = k" by simp
  define it2 where "it2 = ?it1\<lparr>bi_val_offset := entry_off ie xs (Suc i) - length v,
    bi_offset := entry_off ie xs (Suc i), bi_key := k\<rparr>"
  have over2: "over_block ie xs rs it2" using assms(1) by (simp add: it2_def over_block_def)
  obtain ix where ix: "adjust_restart_ix ie it2 (length rs) (bi_current_restart_ix it) = Some ix"
      "ix < length rs" "rs ! ix \<le> i"
    using adjust_restart_ix_ok [OF over2, of i "bi_current_restart_ix it"] assms(2,3)
    by (auto simp: it2_def before_entry_def)
  have "bi_offset it < bi_restarts_off it"
    using assms entry_off_less [OF wf assms(3)] by (simp add: over_block_def before_entry_def)
  then have "bi_advance ie it = Some (True, it2\<lparr>bi_current_restart_ix := ix\<rparr>)"
    using h assms(2) key ix(1) number_restarts_eq [OF over2]
    by (simp add: bi_advance_def Let_def assemble_key_def before_entry_def it2_def)
  moreover have "at_entry ie xs rs i (it2\<lparr>bi_current_restart_ix := ix\<rparr>)"
    using assms h(2) x ix by (simp add: at_entry_def it2_def before_entry_def)
  ultimately show ?thesis using over2 by (auto simp: over_block_def it2_def)
qed

lemma at_entry_before_next:
  assumes "at_entry ie xs rs i it"
  shows "before_entry ie xs rs (Suc i) it"
  using assms by (auto simp: at_entry_def before_entry_def)

lemma at_start_before_first:
  assumes "over_block ie xs rs it" "at_start it"
  shows "before_entry ie xs rs 0 it"
proof -
  have l: "layout_ok ie xs rs" using assms(1) by (simp add: over_block_def)
  then show ?thesis
    using assms(2) layout_okD(2,3) [OF l] entries_wfD(6) [OF layout_okD(1) [OF l], of 0]
    by (cases rs) (auto simp: before_entry_def at_start_def)
qed

lemma advance_past_end:
  assumes "over_block ie xs rs it" "before_entry ie xs rs (length xs) it"
  shows "bi_advance ie it = Some (False, bi_reset it)" "over_block ie xs rs (bi_reset it)" "at_start (bi_reset it)"
  using assms by (simp_all add: bi_advance_def over_block_def before_entry_def bi_reset_def at_start_def)

lemma at_entry_valid:
  assumes "over_block ie xs rs it" "at_entry ie xs rs i it"
  shows "bi_valid it" "bi_current it = Some (Some (snd (xs ! i)))"
proof -
  obtain s k v where x: "xs ! i = (s, k, v)" by (cases "xs ! i")
  have i: "i < length xs" using assms(2) by (simp add: at_entry_def)
  have l: "layout_ok ie xs rs" using assms(1) by (simp add: over_block_def)
  have k: "k \<noteq> []" using l i x nth_mem [OF i] by (auto simp: layout_ok_def)
  have "encode_var ie s \<noteq> []" using entries_wfD(2) [OF layout_okD(1) [OF l] i] x encode_var_nonempty by simp
  then have pos: "0 < bi_val_offset it" using assms(2) x i by (simp add: at_entry_def entry_off_Suc)
  have "entry_off ie xs (Suc i) \<le> entry_off ie xs (length xs)" using i by (simp add: entry_off_mono)
  then show v: "bi_valid it" using assms x k pos by (simp add: bi_valid_def at_entry_def over_block_def)
  obtain pre post where b: "bi_block it = pre @ enc_block_entry ie (xs ! i) @ post" and pre: "length pre = entry_off ie xs i"
    using entry_split [OF i, of ie rs] assms(1) by (auto simp: over_block_def)
  have "slice_range (bi_val_offset it) (bi_offset it) (bi_block it) = Some v"
    using slice_append_middle [of "pre @ encode_var ie s @ encode_var ie (length k - s) @ encode_var ie (length v) @ drop s k"
        "bi_val_offset it" v "bi_offset it" post] assms(2) i x pre
    by (simp add: at_entry_def b entry_off_Suc)
  with v x assms(2) show "bi_current it = Some (Some (snd (xs ! i)))" by (simp add: bi_current_def at_entry_def)
qed

lemma at_start_invalid: "at_start it \<Longrightarrow> \<not> bi_valid it" "at_start it \<Longrightarrow> bi_current it = Some None"
  by (simp_all add: at_start_def bi_valid_def bi_current_def)

lemma seek_to_restart_point_ok:
  assumes "over_block ie xs rs it" "ix < length rs" "rs ! ix < length xs"
  shows "\<exists>it'. seek_to_restart_point ie it ix = Some (Some (), it') \<and> over_block ie xs rs it' \<and>
    at_entry ie xs rs (rs ! ix) it' \<and> bi_opt it' = bi_opt it"
proof -
  let ?i = "rs ! ix"
  let ?it1 = "it\<lparr>bi_offset := entry_off ie xs ?i, bi_current_entry_offset := entry_off ie xs ?i, bi_current_restart_ix := ix\<rparr>"
  have l: "layout_ok ie xs rs" using assms(1) by (simp add: over_block_def)
  obtain k v where x: "xs ! ?i = (0, k, v)"
    using layout_okD(6) [OF l assms(2,3)] by (cases "xs ! ?i") auto
  have over1: "over_block ie xs rs ?it1" using assms(1) by (simp add: over_block_def)
  obtain h where h: "parse_entry_and_advance ie ?it1 = Some (Some (0, length k, length v, h),
      ?it1\<lparr>bi_val_offset := entry_off ie xs (Suc ?i) - length v, bi_offset := entry_off ie xs (Suc ?i)\<rparr>)"
      "entry_off ie xs (Suc ?i) = entry_off ie xs ?i + h + length k + length v"
      "slice_range (entry_off ie xs ?i + h) (entry_off ie xs ?i + h + length k) (bi_block ?it1) = Some k"
    using parse_entry_eq [OF over1 assms(3) _ x] by auto
  define it2 where "it2 = ?it1\<lparr>bi_val_offset := entry_off ie xs (Suc ?i) - length v,
    bi_offset := entry_off ie xs (Suc ?i), bi_key := k\<rparr>"
  have at: "over_block ie xs rs it2" "at_entry ie xs rs ?i it2"
    using assms h(2) x by (simp_all add: it2_def over_block_def at_entry_def)
  then have "bi_valid it2" by (rule at_entry_valid)
  then have "seek_to_restart_point ie it ix = Some (Some (), it2)"
    using h get_restart_point_eq [OF assms(1,2)]
    by (simp add: seek_to_restart_point_def Let_def assemble_key_def it2_def)
  with at show ?thesis by (auto simp: it2_def)
qed

lemma last_loop_ok:
  assumes "over_block ie xs rs it" "at_entry ie xs rs i it"
  shows "\<exists>it'. last_loop ie it = Some it' \<and> over_block ie xs rs it' \<and> at_entry ie xs rs (length xs - 1) it' \<and>
    bi_opt it' = bi_opt it"
  using assms
proof (induction "length xs - i" arbitrary: i it)
  case 0
  then show ?case by (simp add: at_entry_def)
next
  case (Suc n)
  have wf: "entries_wf xs" using layout_okD(1) Suc.prems(1) by (auto simp: over_block_def)
  show ?case
  proof (cases "Suc i < length xs")
    case True
    obtain it1 where it1: "bi_advance ie it = Some (True, it1)" "over_block ie xs rs it1"
        "at_entry ie xs rs (Suc i) it1" "bi_opt it1 = bi_opt it"
      using advance_onto [OF Suc.prems(1) at_entry_before_next [OF Suc.prems(2)] True] by blast
    have "bi_offset it < bi_restarts_off it"
      using Suc.prems entry_off_less [OF wf True] by (simp add: over_block_def at_entry_def)
    with it1 Suc.hyps(1) [of "Suc i" it1] Suc.hyps(2) show ?thesis by (subst last_loop.simps) simp
  next
    case False
    then have "length xs = Suc i" using Suc.prems(2) by (simp add: at_entry_def)
    with Suc.prems show ?thesis by (subst last_loop.simps) (simp add: over_block_def at_entry_def)
  qed
qed

lemma seek_to_last_ok:
  assumes "over_block ie xs rs it" "xs \<noteq> []"
  shows "\<exists>it'. seek_to_last ie it = Some (Some (), it') \<and> over_block ie xs rs it' \<and>
    at_entry ie xs rs (length xs - 1) it' \<and> bi_opt it' = bi_opt it"
proof -
  let ?ix = "length rs - 1"
  have l: "layout_ok ie xs rs" using assms(1) by (simp add: over_block_def)
  have ix: "?ix < length rs" using layout_okD(2) [OF l] by simp
  then have "rs ! ?ix < length xs" using layout_okD(7) [OF l] assms(2) by blast
  then obtain it1 where it1: "seek_to_restart_point ie it ?ix = Some (Some (), it1)" "over_block ie xs rs it1"
      "at_entry ie xs rs (rs ! ?ix) it1" "bi_opt it1 = bi_opt it"
    using seek_to_restart_point_ok [OF assms(1) ix] by blast
  obtain it2 where it2: "last_loop ie it1 = Some it2" "over_block ie xs rs it2"
      "at_entry ie xs rs (length xs - 1) it2" "bi_opt it2 = bi_opt it1"
    using last_loop_ok [OF it1(2,3)] by blast
  then show ?thesis
    using it1 at_entry_valid(1) [OF it2(2,3)] number_restarts_eq [OF assms(1)] layout_okD(2) [OF l]
    by (simp add: seek_to_last_def)
qed

lemma prev_restart_ok:
  assumes "over_block ie xs rs it" "0 < i" "i \<le> length xs" "ix < length rs"
  shows "\<exists>ix'. prev_restart ie it (entry_off ie xs i) ix = Some ix' \<and> ix' < length rs \<and> rs ! ix' < i"
  using assms(4)
proof (induction ix)
  case 0
  have l: "layout_ok ie xs rs" using assms(1) by (simp add: over_block_def)
  have "rs ! 0 = 0" using layout_okD(2,3) [OF l] by (cases rs) auto
  then show ?case
    using 0 get_restart_point_eq [OF assms(1) 0] entry_off_less [OF layout_okD(1) [OF l] assms(2,3)] assms(2)
    by (subst prev_restart.simps) simp
next
  case (Suc ix)
  have l: "layout_ok ie xs rs" using assms(1) by (simp add: over_block_def)
  have "entry_off ie xs i \<le> entry_off ie xs (rs ! Suc ix) \<longleftrightarrow> i \<le> rs ! Suc ix"
    using entry_off_less_iff [OF layout_okD(1) [OF l] layout_okD(5) [OF l Suc.prems] assms(3)] by linarith
  then show ?case
    using Suc get_restart_point_eq [OF assms(1) Suc.prems] by (subst prev_restart.simps) auto
qed

lemma prev_loop_ok:
  assumes "over_block ie xs rs it" "before_entry ie xs rs j it" "j < i" "i \<le> length xs"
  shows "\<exists>it'. prev_loop ie (entry_off ie xs i) it = Some (True, it') \<and> over_block ie xs rs it' \<and>
    at_entry ie xs rs (i - 1) it' \<and> bi_opt it' = bi_opt it"
  using assms
proof (induction "i - j" arbitrary: j it)
  case (Suc n)
  have wf: "entries_wf xs" using layout_okD(1) Suc.prems(1) by (auto simp: over_block_def)
  obtain it1 where it1: "bi_advance ie it = Some (True, it1)" "over_block ie xs rs it1" "at_entry ie xs rs j it1"
      "bi_opt it1 = bi_opt it"
    using advance_onto [OF Suc.prems(1,2)] Suc.prems(3,4) by auto
  have off: "bi_offset it1 = entry_off ie xs (Suc j)" using it1(3) by (simp add: at_entry_def)
  show ?case
  proof (cases "Suc j = i")
    case True
    then show ?thesis using it1 off by (subst prev_loop.simps) auto
  next
    case False
    then have lt: "Suc j < i" using Suc.prems(3) by simp
    then have "\<not> bi_offset it1 \<ge> entry_off ie xs i" using off entry_off_less [OF wf lt Suc.prems(4)] by simp
    then show ?thesis
      using Suc.hyps(1) [OF _ it1(2) at_entry_before_next [OF it1(3)] lt Suc.prems(4)] Suc.hyps(2) it1(1,4)
      by (subst prev_loop.simps) simp
  qed
qed simp

lemma bi_prev_ok:
  assumes "over_block ie xs rs it" "at_entry ie xs rs i it"
  shows "\<exists>it'. bi_prev ie it = Some (0 < i, it') \<and> over_block ie xs rs it' \<and>
    (if i = 0 then at_start it' else at_entry ie xs rs (i - 1) it') \<and> bi_opt it' = bi_opt it"
proof (cases "i = 0")
  case True
  then show ?thesis
    using assms by (auto simp: bi_prev_def at_entry_def bi_reset_def at_start_def over_block_def)
next
  case False
  have l: "layout_ok ie xs rs" using assms(1) by (simp add: over_block_def)
  have i: "i < length xs" "bi_current_entry_offset it = entry_off ie xs i" using assms(2) by (auto simp: at_entry_def)
  have orig: "entry_off ie xs i \<noteq> 0" using entry_off_less [OF layout_okD(1) [OF l], of 0 i] i False by simp
  obtain ix where ix: "prev_restart ie it (entry_off ie xs i) (bi_current_restart_ix it) = Some ix" "ix < length rs" "rs ! ix < i"
    using prev_restart_ok [OF assms(1), of i "bi_current_restart_ix it"] False i assms(2) by (auto simp: at_entry_def)
  let ?it1 = "it\<lparr>bi_current_restart_ix := ix\<rparr>"
  let ?it2 = "?it1\<lparr>bi_offset := entry_off ie xs (rs ! ix)\<rparr>"
  have over: "over_block ie xs rs ?it1" "over_block ie xs rs ?it2" using assms(1) by (simp_all add: over_block_def)
  have "before_entry ie xs rs (rs ! ix) ?it2"
    using ix layout_okD(6) [OF l ix(2)] by (simp add: before_entry_def)
  then obtain it3 where it3: "prev_loop ie (entry_off ie xs i) ?it2 = Some (True, it3)" "over_block ie xs rs it3"
      "at_entry ie xs rs (i - 1) it3" "bi_opt it3 = bi_opt it"
    using prev_loop_ok [OF over(2) _ ix(3)] i(1) by auto
  have "entry_off ie xs (rs ! ix) < entry_off ie xs i"
    using entry_off_less [OF layout_okD(1) [OF l] ix(3)] i(1) by simp
  then show ?thesis
    using it3 False i(2) orig ix(1) get_restart_point_eq [OF over(1) ix(2)] by (simp add: bi_prev_def Let_def)
qed

end


section \<open>Seeking\<close>

text \<open>Entries whose keys are sorted by a comparator.\<close>

definition keys_sorted :: "(bytes \<Rightarrow> bytes \<Rightarrow> ordering run) \<Rightarrow> bytes set \<Rightarrow> block_entry list \<Rightarrow> bool" where
  "keys_sorted cm K xs \<longleftrightarrow> cmp_order cm K \<and> key_of ` set xs \<subseteq> K \<and> sorted_wrt (\<lambda>x y. cmp_lt cm (key_of x) (key_of y)) xs"

definition found_entry :: "int_codec \<Rightarrow> block_entry list \<Rightarrow> nat list \<Rightarrow> nat option \<Rightarrow> block_iter \<Rightarrow> bool" where
  "found_entry ie xs rs p it \<longleftrightarrow> (case p of None \<Rightarrow> at_start it | Some i \<Rightarrow> at_entry ie xs rs i it)"

lemma keys_sortedD:
  assumes "keys_sorted cm K xs" "i < length xs"
  shows "cmp_order cm K" "key_of (xs ! i) \<in> K"
    "j < i \<Longrightarrow> cmp_lt cm (key_of (xs ! j)) (key_of (xs ! i))"
proof -
  have "xs ! i \<in> set xs" using assms(2) by simp
  then show "cmp_order cm K" "key_of (xs ! i) \<in> K"
      "j < i \<Longrightarrow> cmp_lt cm (key_of (xs ! j)) (key_of (xs ! i))"
    using assms by (auto simp: keys_sorted_def sorted_wrt_iff_nth_less)
qed

context integer_encoding
begin

lemma seek_linear_ok:
  assumes "over_block ie xs rs it" "before_entry ie xs rs j it" "j \<le> length xs"
    "keys_sorted (cmp (opt_cmp (bi_opt it))) K xs" "to \<in> K"
  shows "\<exists>it'. seek_linear ie to it = Some it' \<and> over_block ie xs rs it' \<and> bi_opt it' = bi_opt it \<and>
    found_entry ie xs rs (map_option ((+) j)
      (pos_find (\<lambda>x. \<not> cmp_lt (cmp (opt_cmp (bi_opt it))) (key_of x) to) (drop j xs))) it'"
  using assms
proof (induction "length xs - j" arbitrary: j it)
  case 0
  then have "j = length xs" by simp
  with 0 advance_past_end [of xs rs it] show ?case
    by (subst seek_linear.simps) (simp add: bi_next_def found_entry_def bi_reset_def)
next
  case (Suc n)
  let ?cm = "cmp (opt_cmp (bi_opt it))"
  have j: "j < length xs" using Suc.hyps(2) by simp
  obtain it1 where it1: "bi_advance ie it = Some (True, it1)" "over_block ie xs rs it1" "at_entry ie xs rs j it1"
      "bi_opt it1 = bi_opt it"
    using advance_onto [OF Suc.prems(1,2) j] by blast
  have nxt: "bi_next ie it = Some (Some (snd (xs ! j)), it1)"
    using it1(1) at_entry_valid(2) [OF it1(2,3)] by (simp add: bi_next_def)
  obtain c where c: "?cm (key_of (xs ! j)) to = Some c"
    using cmp_order.cmp_total [OF keys_sortedD(1,2) [OF Suc.prems(4) j] Suc.prems(5)] by blast
  have d: "drop j xs = xs ! j # drop (Suc j) xs" using j by (simp add: Cons_nth_drop_Suc)
  show ?case
  proof (cases "c = Less")
    case True
    then have lt: "cmp_lt ?cm (key_of (xs ! j)) to" using c by (simp add: cmp_lt_def)
    have "\<exists>it'. seek_linear ie to it1 = Some it' \<and> over_block ie xs rs it' \<and> bi_opt it' = bi_opt it1 \<and>
        found_entry ie xs rs (map_option ((+) (Suc j))
          (pos_find (\<lambda>x. \<not> cmp_lt (cmp (opt_cmp (bi_opt it1))) (key_of x) to) (drop (Suc j) xs))) it'"
      using Suc.hyps(2) j Suc.prems(4,5) it1(4)
      by (intro Suc.hyps(1) [OF _ it1(2) at_entry_before_next [OF it1(3)]]) auto
    moreover have "(+) (Suc j) = (\<lambda>x. Suc (j + x))" by auto
    ultimately show ?thesis
      using nxt c True lt d it1(4) by (subst seek_linear.simps) (simp add: case_prod_beta option.map_comp o_def)
  next
    case False
    then have "\<not> cmp_lt ?cm (key_of (xs ! j)) to" using c by (simp add: cmp_lt_def)
    with nxt c False d it1 show ?thesis
      by (subst seek_linear.simps) (simp add: case_prod_beta found_entry_def)
  qed
qed

lemma seek_search_ok:
  assumes "over_block ie xs rs it" "left \<le> right" "right < length rs"
    "keys_sorted (cmp (opt_cmp (bi_opt it))) K xs" "to \<in> K"
    "left = 0 \<or> cmp_lt (cmp (opt_cmp (bi_opt it))) (key_of (xs ! (rs ! left))) to"
  shows "\<exists>l it'. seek_search ie to left right it = Some (l, l, it') \<and> l < length rs \<and> over_block ie xs rs it' \<and>
    bi_opt it' = bi_opt it \<and> (l = 0 \<or> cmp_lt (cmp (opt_cmp (bi_opt it))) (key_of (xs ! (rs ! l))) to)"
  using assms
proof (induction "right - left" arbitrary: left right it rule: less_induct)
  case less
  let ?cm = "cmp (opt_cmp (bi_opt it))"
  show ?case
  proof (cases "left < right")
    case False
    then show ?thesis using less.prems by (subst seek_search.simps) simp
  next
    case True
    let ?m = "(left + right + 1) div 2"
    have m: "left < ?m" "?m \<le> right" "?m < length rs" using True less.prems(3) by auto
    have l: "layout_ok ie xs rs" using less.prems(1) by (simp add: over_block_def)
    have "xs \<noteq> []" using l m(3) True by (auto simp: layout_ok_def restarts_wf_def)
    then have r: "rs ! ?m < length xs" using layout_okD(7) [OF l m(3)] by blast
    obtain it1 where it1: "seek_to_restart_point ie it ?m = Some (Some (), it1)" "over_block ie xs rs it1"
        "at_entry ie xs rs (rs ! ?m) it1" "bi_opt it1 = bi_opt it"
      using seek_to_restart_point_ok [OF less.prems(1) m(3) r] by blast
    have key: "bi_key it1 = key_of (xs ! (rs ! ?m))" using it1(3) by (simp add: at_entry_def)
    obtain c where c: "?cm (bi_key it1) to = Some c"
      using cmp_order.cmp_total [OF keys_sortedD(1,2) [OF less.prems(4) r] less.prems(5)] key by auto
    show ?thesis
    proof (cases "c = Less")
      case True
      then have "cmp_lt ?cm (key_of (xs ! (rs ! ?m))) to" using c key by (simp add: cmp_lt_def)
      with less.hyps [OF _ it1(2) m(2) less.prems(3), unfolded it1(4)] m(1,2) less.prems(4,5) it1(1,4) c True show ?thesis
        by (subst seek_search.simps) simp
    next
      case False
      with less.hyps [OF _ it1(2) _ _, of "?m - 1" left, unfolded it1(4)] m less.prems(4-6) it1(1,4) c \<open>left < right\<close>
      show ?thesis by (subst seek_search.simps) simp
    qed
  qed
qed

lemma bi_seek_ok:
  assumes "over_block ie xs rs it" "keys_sorted (cmp (opt_cmp (bi_opt it))) K xs" "to \<in> K"
  shows "\<exists>it'. bi_seek ie to it = Some it' \<and> over_block ie xs rs it' \<and> bi_opt it' = bi_opt it \<and>
    found_entry ie xs rs (pos_find (\<lambda>x. \<not> cmp_lt (cmp (opt_cmp (bi_opt it))) (key_of x) to) xs) it'"
proof -
  let ?cm = "cmp (opt_cmp (bi_opt it))" and ?it0 = "bi_reset it"
  have l: "layout_ok ie xs rs" using assms(1) by (simp add: over_block_def)
  have over0: "over_block ie xs rs ?it0" "bi_opt ?it0 = bi_opt it" using assms(1) by (simp_all add: over_block_def bi_reset_def)
  have len: "0 < length rs" using layout_okD(2) [OF l] by simp
  obtain n it1 where it1: "seek_search ie to 0 (length rs - 1) ?it0 = Some (n, n, it1)" "n < length rs" "over_block ie xs rs it1"
      "bi_opt it1 = bi_opt it" "n = 0 \<or> cmp_lt ?cm (key_of (xs ! (rs ! n))) to"
    using seek_search_ok [OF over0(1), of 0 "length rs - 1" K to] assms(2,3) len over0(2) by auto
  let ?it2 = "it1\<lparr>bi_current_restart_ix := n\<rparr>"
  let ?it3 = "?it2\<lparr>bi_offset := entry_off ie xs (rs ! n)\<rparr>"
  have over: "over_block ie xs rs ?it2" "over_block ie xs rs ?it3" using it1(3) by (simp_all add: over_block_def)
  have before: "before_entry ie xs rs (rs ! n) ?it3"
    using it1(2) layout_okD(6) [OF l it1(2)] by (simp add: before_entry_def)
  have below: "\<forall>x \<in> set (take (rs ! n) xs). cmp_lt ?cm (key_of x) to"
  proof
    fix x
    assume "x \<in> set (take (rs ! n) xs)"
    then obtain i where i: "i < rs ! n" "i < length xs" "x = xs ! i" by (auto simp: in_set_conv_nth)
    have "rs ! 0 = 0" using layout_okD(2,3) [OF l] by (simp add: hd_conv_nth)
    then have n: "n \<noteq> 0" using i(1) by (cases n) auto
    have r: "rs ! n < length xs" using layout_okD(7) [OF l it1(2)] i(2) by (cases xs) auto
    show "cmp_lt ?cm (key_of x) to"
      using cmp_order.lt_trans [OF keys_sortedD(1) [OF assms(2) r] keys_sortedD(2) [OF assms(2) i(2)]
          keys_sortedD(2) [OF assms(2) r] assms(3) keys_sortedD(3) [OF assms(2) r i(1)]] it1(5) n i(3) by simp
  qed
  obtain it4 where it4: "seek_linear ie to ?it3 = Some it4" "over_block ie xs rs it4" "bi_opt it4 = bi_opt it"
      "found_entry ie xs rs (map_option ((+) (rs ! n)) (pos_find (\<lambda>x. \<not> cmp_lt ?cm (key_of x) to) (drop (rs ! n) xs))) it4"
    using seek_linear_ok [OF over(2) before layout_okD(5) [OF l it1(2)], of K to] assms(2,3) it1(4) by auto
  have "pos_find (\<lambda>x. \<not> cmp_lt ?cm (key_of x) to) xs =
      map_option ((+) (rs ! n)) (pos_find (\<lambda>x. \<not> cmp_lt ?cm (key_of x) to) (drop (rs ! n) xs))"
    by (rule pos_find_drop) (use below in simp)
  with it4 it1(1) number_restarts_eq [OF over0(1)] get_restart_point_eq [OF over(1) it1(2)] len show ?thesis
    by (auto simp: bi_seek_def Let_def)
qed

end


section \<open>The contract of the iterator\<close>

definition bi_pos :: "int_codec \<Rightarrow> block_entry list \<Rightarrow> block_iter \<Rightarrow> nat option" where
  "bi_pos ie xs it =
     (if bi_key it = [] then None else find (\<lambda>i. entry_off ie xs i = bi_current_entry_offset it) [0..<length xs])"

definition bi_inv :: "int_codec \<Rightarrow> block_entry list \<Rightarrow> nat list \<Rightarrow> bytes set \<Rightarrow> block_iter \<Rightarrow> bool" where
  "bi_inv ie xs rs K it \<longleftrightarrow> integer_encoding ie \<and> over_block ie xs rs it \<and> (\<exists>p. found_entry ie xs rs p it) \<and>
     keys_sorted (cmp (opt_cmp (bi_opt it))) K xs"

lemma found_entry_pos:
  assumes "integer_encoding ie" "over_block ie xs rs it" "found_entry ie xs rs p it"
  shows "bi_pos ie xs it = p"
proof (cases p)
  case None
  then show ?thesis using assms(3) by (simp add: found_entry_def at_start_def bi_pos_def)
next
  case (Some i)
  have l: "layout_ok ie xs rs" using assms(2) by (simp add: over_block_def)
  have i: "i < length xs" "bi_current_entry_offset it = entry_off ie xs i" "bi_key it = key_of (xs ! i)"
    using assms(3) Some by (auto simp: found_entry_def at_entry_def)
  have "entry_off ie xs j \<noteq> entry_off ie xs i" if "j < i" for j
    using integer_encoding.entry_off_less [OF assms(1) layout_okD(1) [OF l] that] i(1) by simp
  then have "find (\<lambda>j. entry_off ie xs j = entry_off ie xs i) [0..<length xs] = Some i"
    using i(1) by (auto simp: find_Some_iff)
  moreover have "bi_key it \<noteq> []" using l nth_mem [OF i(1)] i(3) by (auto simp: layout_ok_def)
  ultimately show ?thesis using Some i(2) by (simp add: bi_pos_def)
qed

lemma bi_inv_found:
  assumes "bi_inv ie xs rs K it"
  shows "integer_encoding ie" "over_block ie xs rs it" "found_entry ie xs rs (bi_pos ie xs it) it"
    "keys_sorted (cmp (opt_cmp (bi_opt it))) K xs"
  using assms found_entry_pos [of ie xs rs it] by (auto simp: bi_inv_def)

lemma bi_invI:
  assumes "bi_inv ie xs rs K it" "over_block ie xs rs it'" "found_entry ie xs rs p it'" "bi_opt it' = bi_opt it"
  shows "bi_inv ie xs rs K it'" "bi_pos ie xs it' = p"
  using assms found_entry_pos [OF bi_inv_found(1) [OF assms(1)] assms(2,3)] by (auto simp: bi_inv_def)

lemma bi_advance_pos:
  assumes "bi_inv ie xs rs K it"
  shows "\<exists>it'. bi_advance ie it = Some (bi_pos ie xs it' \<noteq> None, it') \<and> bi_inv ie xs rs K it' \<and>
    bi_pos ie xs it' = pos_advance (length xs) (bi_pos ie xs it)"
proof -
  note inv = bi_inv_found [OF assms]
  define j where "j = (case bi_pos ie xs it of None \<Rightarrow> 0 | Some i \<Rightarrow> Suc i)"
  have before: "before_entry ie xs rs j it" and j: "j \<le> length xs"
    using inv(3) integer_encoding.at_start_before_first [OF inv(1,2)] integer_encoding.at_entry_before_next [OF inv(1)]
    by (auto simp: j_def found_entry_def at_entry_def split: option.splits)
  have adv: "pos_advance (length xs) (bi_pos ie xs it) = (if j < length xs then Some j else None)"
    by (cases "bi_pos ie xs it") (auto simp: j_def)
  show ?thesis
  proof (cases "j < length xs")
    case True
    obtain it' where it': "bi_advance ie it = Some (True, it')" "over_block ie xs rs it'" "at_entry ie xs rs j it'"
        "bi_opt it' = bi_opt it"
      using integer_encoding.advance_onto [OF inv(1,2) before True] by blast
    then have "found_entry ie xs rs (Some j) it'" by (simp add: found_entry_def)
    with bi_invI [OF assms it'(2) this it'(4)] it'(1) adv True show ?thesis by auto
  next
    case False
    then have e: "before_entry ie xs rs (length xs) it" using before j by simp
    note past = integer_encoding.advance_past_end [OF inv(1,2) e]
    have "found_entry ie xs rs None (bi_reset it)" using past(3) by (simp add: found_entry_def)
    from bi_invI [OF assms past(2) this] past(1) adv False show ?thesis by (auto simp: bi_reset_def)
  qed
qed

interpretation bi: ldb_seek "block_iter_ops ie" "bi_inv ie xs rs K" "\<lambda>_. map snd xs" "bi_pos ie xs"
    "\<lambda>it. cmp_lt (cmp (opt_cmp (bi_opt it)))" "\<lambda>_ k. k \<in> K" for ie xs rs K
proof
  fix s
  assume inv: "bi_inv ie xs rs K s"
  note f = bi_inv_found [OF inv]
  show "i < length (map snd xs)" if "bi_pos ie xs s = Some i" for i
    using f(3) that by (simp add: found_entry_def at_entry_def)
  show "it_valid (block_iter_ops ie) s \<longleftrightarrow> bi_pos ie xs s \<noteq> None"
    using f(3) integer_encoding.at_start_invalid(1) [OF f(1)] integer_encoding.at_entry_valid(1) [OF f(1,2)]
    by (auto simp: block_iter_ops_def found_entry_def split: option.splits)
  show "it_current (block_iter_ops ie) s = Some (map_option ((!) (map snd xs)) (bi_pos ie xs s))"
    using f(3) integer_encoding.at_start_invalid(2) [OF f(1)] integer_encoding.at_entry_valid(2) [OF f(1,2)]
    by (auto simp: block_iter_ops_def found_entry_def at_entry_def split: option.splits)
  show "\<exists>s'. it_advance (block_iter_ops ie) s = Some (bi_pos ie xs s' \<noteq> None, s') \<and> bi_inv ie xs rs K s' \<and>
      map snd xs = map snd xs \<and> bi_pos ie xs s' = pos_advance (length (map snd xs)) (bi_pos ie xs s)"
    using bi_advance_pos [OF inv] by (simp add: block_iter_ops_def del: not_None_eq)
  have "over_block ie xs rs (bi_reset s)" "found_entry ie xs rs None (bi_reset s)" "bi_opt (bi_reset s) = bi_opt s"
    using f(2) by (simp_all add: over_block_def found_entry_def bi_reset_def at_start_def)
  from bi_invI [OF inv this]
  show "\<exists>s'. it_reset (block_iter_ops ie) s = Some s' \<and> bi_inv ie xs rs K s' \<and>
      map snd xs = map snd xs \<and> bi_pos ie xs s' = None"
    by (simp add: block_iter_ops_def)
  show "\<exists>s'. it_seek (block_iter_ops ie) k s = Some s' \<and> bi_inv ie xs rs K s' \<and> map snd xs = map snd xs \<and>
      bi_pos ie xs s' = pos_find (\<lambda>(k', v). \<not> cmp_lt (cmp (opt_cmp (bi_opt s))) k' k) (map snd xs)"
    if "k \<in> K" for k
    using integer_encoding.bi_seek_ok [OF f(1,2,4) that] bi_invI [OF inv]
    by (auto simp: block_iter_ops_def pos_find_map case_prod_beta)
qed


section \<open>Built blocks\<close>

fun bb_add_all :: "int_codec \<Rightarrow> block_builder \<Rightarrow> (bytes \<times> bytes) list \<Rightarrow> block_builder run" where
  "bb_add_all ie b [] = Some b"
| "bb_add_all ie b ((k, v) # es) = do { b \<leftarrow> bb_add ie b k v; bb_add_all ie b es }"

text \<open>Entries that can go into a block: keys in order and not empty, lengths of 64 bits.\<close>

definition block_input :: "(bytes \<Rightarrow> bytes \<Rightarrow> ordering run) \<Rightarrow> bytes set \<Rightarrow> (bytes \<times> bytes) list \<Rightarrow> bool" where
  "block_input cm K es \<longleftrightarrow> cmp_order cm K \<and> sorted_wrt (\<lambda>x y. cmp_lt cm (fst x) (fst y)) es \<and>
     (\<forall>(k, v) \<in> set es. k \<in> K \<and> k \<noteq> [] \<and> length k < 2 ^ 64 \<and> length v < 2 ^ 64)"

lemma bb_add_all_rep:
  assumes "bb_rep ie b xs rs" "0 < block_restart_interval (bb_opt b)"
    "block_input (cmp (opt_cmp (bb_opt b))) K (map snd xs @ es)"
  shows "\<exists>b' xs' rs'. bb_add_all ie b es = Some b' \<and> bb_rep ie b' xs' rs' \<and> map snd xs' = map snd xs @ es"
  using assms
proof (induction es arbitrary: b xs rs)
  case (Cons e es)
  obtain k v where e: "e = (k, v)" by (cases e)
  have kv: "length k < 2 ^ 64" "length v < 2 ^ 64" using Cons.prems(3) e by (auto simp: block_input_def)
  have "cmp_lt (cmp (opt_cmp (bb_opt b))) (key_of (last xs)) k" if "xs \<noteq> []"
    using Cons.prems(3) e that by (auto simp: block_input_def sorted_wrt_append)
  then have guard: "bb_buffer b = [] \<or> cmp (opt_cmp (bb_opt b)) (bb_last_key b) k = Some Less"
    using Cons.prems(1) by (cases "xs = []") (auto simp: bb_rep_def cmp_lt_def)
  have "xs = [] \<longrightarrow> bb_buffer b = []" using Cons.prems(1) by (simp add: bb_rep_def)
  then obtain b1 s rs1 where b1: "bb_add ie b k v = Some b1" "bb_rep ie b1 (xs @ [(s, k, v)]) rs1" "bb_opt b1 = bb_opt b"
    using bb_add_rep [OF Cons.prems(1,2) kv guard] by blast
  then show ?case using Cons.IH [OF b1(2)] Cons.prems(2,3) e by simp
qed auto

text \<open>The iterator of a block with given entries and restart points.\<close>

lemma finished_block:
  assumes "integer_encoding ie" "block_input (cmp (opt_cmp opt)) K (map snd xs)" "entries_wf xs" "restarts_wf xs rs"
    "length (block_bytes ie xs rs) < 2 ^ 32"
  shows "\<exists>blk it. block_new opt (block_bytes ie xs rs) = Some blk \<and>
    block_iter_new ie blk = Some it \<and> bi_inv ie xs rs K it \<and> bi_pos ie xs it = None \<and> bi_opt it = opt"
proof -
  let ?bs = "block_bytes ie xs rs"
  define it where "it = \<lparr>bi_block = ?bs, bi_opt = opt, bi_restarts_off = entry_off ie xs (length xs), bi_offset = 0,
    bi_current_entry_offset = 0, bi_current_restart_ix = 0, bi_key = [], bi_val_offset = 0\<rparr>"
  have "\<forall>x \<in> set xs. key_of x \<noteq> []" "keys_sorted (cmp (opt_cmp opt)) K xs"
    using assms(2) by (auto simp: block_input_def keys_sorted_def sorted_wrt_map)
  then have over: "over_block ie xs rs it" and sorted: "keys_sorted (cmp (opt_cmp (bi_opt it))) K xs"
    using assms(3-5) by (auto simp: over_block_def it_def layout_ok_def)
  have "found_entry ie xs rs None it" by (simp add: it_def found_entry_def at_start_def)
  then have "bi_inv ie xs rs K it" using assms(1) over sorted by (auto simp: bi_inv_def)
  moreover have "length ?bs = entry_off ie xs (length xs) + 4 * length rs + 4"
    by (rule integer_encoding.length_block_bytes [OF assms(1)])
  moreover have "rs \<noteq> []" using assms(4) by (auto simp: restarts_wf_def)
  moreover have "number_restarts_of ie ?bs = Some (length rs)"
    using integer_encoding.number_restarts_eq [OF assms(1) over] by (simp add: number_restarts_def it_def)
  ultimately show ?thesis by (simp add: block_new_def block_iter_new_def usub_def it_def bi_pos_def)
qed

text \<open>The iterator of a block that was built.\<close>

lemma built_block:
  assumes "integer_encoding ie" "0 < block_restart_interval opt" "block_input (cmp (opt_cmp opt)) K es"
  obtains b xs rs where "bb_add_all ie (block_builder_new opt) es = Some b" "map snd xs = es"
    "length (bb_finish ie b) < 2 ^ 32 \<Longrightarrow> \<exists>blk it. block_new opt (bb_finish ie b) = Some blk \<and>
      block_iter_new ie blk = Some it \<and> bi_inv ie xs rs K it \<and> bi_pos ie xs it = None \<and> bi_opt it = opt"
proof -
  have opt: "bb_opt (block_builder_new opt) = opt" by (simp add: block_builder_new_def)
  obtain b xs rs where b: "bb_add_all ie (block_builder_new opt) es = Some b" "bb_rep ie b xs rs" "map snd xs = es"
    using bb_add_all_rep [OF bb_rep_new, of opt K es ie] assms(2,3) opt by auto
  show ?thesis
    by (rule that [OF b(1,3), of rs])
      (use finished_block [OF assms(1), of opt K xs rs] assms(3) b bb_finish_rep [OF b(2)] in \<open>simp add: bb_rep_def\<close>)
qed


section \<open>Properties\<close>

text \<open>C13: A block holds exactly what was put into it: entries with keys in order go into a new builder
  one after the other without a panic, and the iterator of the finished block yields these entries,
  with their whole keys, in the same order, whatever prefixes are shared and wherever the restart
  points are.\<close>

theorem block_roundtrip:
  assumes "integer_encoding ie" "0 < block_restart_interval opt" "block_input (cmp (opt_cmp opt)) K es"
  shows "\<exists>b. bb_add_all ie (block_builder_new opt) es = Some b \<and>
    (length (bb_finish ie b) < 2 ^ 32 \<longrightarrow> (\<exists>blk it. block_new opt (bb_finish ie b) = Some blk \<and>
      block_iter_new ie blk = Some it \<and> collect (block_iter_ops ie) (length es + 1) it = Some es))"
proof -
  obtain b xs rs where b: "bb_add_all ie (block_builder_new opt) es = Some b" "map snd xs = es"
    "length (bb_finish ie b) < 2 ^ 32 \<Longrightarrow> \<exists>blk it. block_new opt (bb_finish ie b) = Some blk \<and>
      block_iter_new ie blk = Some it \<and> bi_inv ie xs rs K it \<and> bi_pos ie xs it = None \<and> bi_opt it = opt"
    using built_block [OF assms] by blast
  then show ?thesis using bi.collect_all [of ie xs rs K _ "length es + 1"] by fastforce
qed

theorem block_roundtrip_witness:
  "\<exists>b. bb_add_all wire_codec (block_builder_new (options_default wire_codec literal_snap)) [([1, 2], [7]), ([1, 3], [])] = Some b \<and>
    (length (bb_finish wire_codec b) < 2 ^ 32 \<longrightarrow>
      (\<exists>blk it. block_new (options_default wire_codec literal_snap) (bb_finish wire_codec b) = Some blk \<and>
        block_iter_new wire_codec blk = Some it \<and>
        collect (block_iter_ops wire_codec) (length [([1, 2] :: bytes, [7] :: bytes), ([1, 3], [])] + 1) it = Some [([1, 2], [7]), ([1, 3], [])]))"
  by (rule block_roundtrip [OF wire.integer_encoding_axioms, of _ UNIV])
    (simp_all add: options_default_def block_input_def default_cmp.cmp_order_axioms cmp_lt_def)

text \<open>C14: Seeking in a block stops at the first entry whose key is not before the target, and at none if
  there is no such entry; the binary search over the restart points loses nothing. Going back from
  there reaches the entry before it.\<close>

theorem block_seek_correct:
  assumes "integer_encoding ie" "0 < block_restart_interval opt" "block_input (cmp (opt_cmp opt)) K es" "k \<in> K"
  shows "\<exists>b. bb_add_all ie (block_builder_new opt) es = Some b \<and>
    (length (bb_finish ie b) < 2 ^ 32 \<longrightarrow> (\<exists>blk it it'. block_new opt (bb_finish ie b) = Some blk \<and>
      block_iter_new ie blk = Some it \<and> bi_seek ie k it = Some it' \<and>
      (case pos_find (\<lambda>(k', v). \<not> cmp_lt (cmp (opt_cmp opt)) k' k) es of
         None \<Rightarrow> bi_current it' = Some None
       | Some i \<Rightarrow> bi_current it' = Some (Some (es ! i)) \<and>
           (\<exists>it''. bi_prev ie it' = Some (0 < i, it'') \<and>
             bi_current it'' = Some (if i = 0 then None else Some (es ! (i - 1)))))))"
proof -
  obtain b xs rs where b: "bb_add_all ie (block_builder_new opt) es = Some b" "map snd xs = es"
    "length (bb_finish ie b) < 2 ^ 32 \<Longrightarrow> \<exists>blk it. block_new opt (bb_finish ie b) = Some blk \<and>
      block_iter_new ie blk = Some it \<and> bi_inv ie xs rs K it \<and> bi_pos ie xs it = None \<and> bi_opt it = opt"
    using built_block [OF assms(1-3)] by blast
  let ?p = "pos_find (\<lambda>(k', v). \<not> cmp_lt (cmp (opt_cmp opt)) k' k) es"
  have "\<exists>it'. bi_seek ie k it = Some it' \<and> (case ?p of None \<Rightarrow> bi_current it' = Some None
       | Some i \<Rightarrow> bi_current it' = Some (Some (es ! i)) \<and> (\<exists>it''. bi_prev ie it' = Some (0 < i, it'') \<and>
           bi_current it'' = Some (if i = 0 then None else Some (es ! (i - 1)))))"
    if it: "bi_inv ie xs rs K it" "bi_opt it = opt" for it
  proof -
    obtain it' where it': "bi_seek ie k it = Some it'" "bi_inv ie xs rs K it'" "bi_pos ie xs it' = ?p"
      using bi.seek_pos [OF it(1) assms(4)] it(2) b(2) by (auto simp: block_iter_ops_def)
    note f = bi_inv_found [OF it'(2)]
    have cur: "bi_current it' = Some (map_option ((!) es) ?p)"
      using bi.current_pos [OF it'(2)] it'(3) b(2) by (simp add: block_iter_ops_def)
    show ?thesis
    proof (cases ?p)
      case (Some i)
      then have at: "at_entry ie xs rs i it'" using f(3) it'(3) by (simp add: found_entry_def)
      obtain it'' where "bi_prev ie it' = Some (0 < i, it'')" "over_block ie xs rs it''"
          "if i = 0 then at_start it'' else at_entry ie xs rs (i - 1) it''"
        using integer_encoding.bi_prev_ok [OF assms(1) f(2) at] by blast
      moreover have "es ! (i - 1) = snd (xs ! (i - 1))" if "0 < i"
        using at b(2) by (auto simp: at_entry_def)
      ultimately show ?thesis
        using it'(1) cur Some integer_encoding.at_entry_valid(2) [OF assms(1), of xs rs it'' "i - 1"]
          integer_encoding.at_start_invalid(2) [OF assms(1), of it'']
        by (cases "i = 0") auto
    qed (use it'(1) cur in simp)
  qed
  with b show ?thesis by blast
qed

theorem block_seek_correct_witness:
  "\<exists>b. bb_add_all wire_codec (block_builder_new (options_default wire_codec literal_snap)) [([1, 2], [7]), ([1, 3], [])] = Some b \<and>
    (length (bb_finish wire_codec b) < 2 ^ 32 \<longrightarrow>
      (\<exists>blk it it'. block_new (options_default wire_codec literal_snap) (bb_finish wire_codec b) = Some blk \<and>
        block_iter_new wire_codec blk = Some it \<and> bi_seek wire_codec [1, 2, 0] it = Some it' \<and>
        bi_current it' = Some (Some ([1, 3], []))))"
  using block_seek_correct [OF wire.integer_encoding_axioms, of "options_default wire_codec literal_snap" UNIV
    "[([1, 2], [7]), ([1, 3], [])]" "[1, 2, 0]"]
  by (simp add: options_default_def block_input_def default_cmp.cmp_order_axioms cmp_lt_def) blast

end
