(* ===== verification/Version_Edit.thy ===== *)
theory Version_Edit
  imports Key_Types File_Names
begin

text \<open>
  Version edits (\<open>src/src/version_edit.rs\<close>), the records of the manifest: what changed in the set of
  table files. An edit is encoded as a sequence of tagged fields; the main result is that decoding
  gives back the edit. A \<open>String\<close> is the list of its UTF-8 bytes. The set of deleted files is a list
  without duplicates, in any order in which the hash set may be iterated.
\<close>

section \<open>The edit\<close>

record file_meta_data =
  allowed_seeks :: nat
  fnum :: file_num
  fsize :: nat
  smallest :: bytes
  largest :: bytes

record compaction_pointer =
  cp_level :: nat
  cp_key :: bytes

datatype edit_tag = TagComparator | TagLogNumber | TagNextFileNumber | TagLastSequence | TagCompactPointer
  | TagDeletedFile | TagNewFile | TagPrevLogNumber

fun edit_tag_code :: "edit_tag \<Rightarrow> u32" where
  "edit_tag_code TagComparator = 1"
| "edit_tag_code TagLogNumber = 2"
| "edit_tag_code TagNextFileNumber = 3"
| "edit_tag_code TagLastSequence = 4"
| "edit_tag_code TagCompactPointer = 5"
| "edit_tag_code TagDeletedFile = 6"
| "edit_tag_code TagNewFile = 7"
| "edit_tag_code TagPrevLogNumber = 9"

definition tag_to_enum :: "u32 \<Rightarrow> edit_tag option" where
  "tag_to_enum t =
     (if t = 1 then Some TagComparator else if t = 2 then Some TagLogNumber
      else if t = 3 then Some TagNextFileNumber else if t = 4 then Some TagLastSequence
      else if t = 5 then Some TagCompactPointer else if t = 6 then Some TagDeletedFile
      else if t = 7 then Some TagNewFile else if t = 9 then Some TagPrevLogNumber else None)"

record version_edit =
  ve_comparator :: "bytes option"
  ve_log_number :: "file_num option"
  ve_prev_log_number :: "file_num option"
  ve_next_file_number :: "file_num option"
  ve_last_seq :: "sequence_number option"
  ve_compaction_ptrs :: "compaction_pointer list"
  ve_deleted :: "(nat \<times> file_num) list"
  ve_new_files :: "(nat \<times> file_meta_data) list"

definition version_edit_new :: version_edit where
  "version_edit_new = \<lparr>ve_comparator = None, ve_log_number = None, ve_prev_log_number = None,
     ve_next_file_number = None, ve_last_seq = None, ve_compaction_ptrs = [], ve_deleted = [], ve_new_files = []\<rparr>"

definition ve_clear :: "version_edit \<Rightarrow> version_edit" where
  "ve_clear ve = version_edit_new"

definition ve_add_file :: "version_edit \<Rightarrow> nat \<Rightarrow> file_meta_data \<Rightarrow> version_edit" where
  "ve_add_file ve level f = ve\<lparr>ve_new_files := ve_new_files ve @ [(level, f)]\<rparr>"

text \<open>\<open>HashSet::insert\<close>\<close>

definition hs_insert :: "'a \<Rightarrow> 'a list \<Rightarrow> 'a list" where
  "hs_insert x xs = (if x \<in> set xs then xs else xs @ [x])"

definition ve_delete_file :: "version_edit \<Rightarrow> nat \<Rightarrow> file_num \<Rightarrow> version_edit" where
  "ve_delete_file ve level num = ve\<lparr>ve_deleted := hs_insert (level, num) (ve_deleted ve)\<rparr>"

definition set_comparator_name :: "version_edit \<Rightarrow> bytes \<Rightarrow> version_edit" where
  "set_comparator_name ve name = ve\<lparr>ve_comparator := Some name\<rparr>"

definition set_log_num :: "version_edit \<Rightarrow> file_num \<Rightarrow> version_edit" where
  "set_log_num ve num = ve\<lparr>ve_log_number := Some num\<rparr>"

definition set_prev_log_num :: "version_edit \<Rightarrow> file_num \<Rightarrow> version_edit" where
  "set_prev_log_num ve num = ve\<lparr>ve_prev_log_number := Some num\<rparr>"

definition set_last_seq :: "version_edit \<Rightarrow> sequence_number \<Rightarrow> version_edit" where
  "set_last_seq ve num = ve\<lparr>ve_last_seq := Some num\<rparr>"

definition set_next_file :: "version_edit \<Rightarrow> file_num \<Rightarrow> version_edit" where
  "set_next_file ve num = ve\<lparr>ve_next_file_number := Some num\<rparr>"

definition set_compact_pointer :: "version_edit \<Rightarrow> nat \<Rightarrow> bytes \<Rightarrow> version_edit" where
  "set_compact_pointer ve level key =
     ve\<lparr>ve_compaction_ptrs := ve_compaction_ptrs ve @ [\<lparr>cp_level = level, cp_key = key\<rparr>]\<rparr>"


section \<open>Encoding\<close>

definition enc_tag :: "int_codec \<Rightarrow> edit_tag \<Rightarrow> bytes" where
  "enc_tag ie t = encode_var ie (unat (edit_tag_code t))"

definition enc_prefixed :: "int_codec \<Rightarrow> bytes \<Rightarrow> bytes" where
  "enc_prefixed ie bs = encode_var ie (length bs) @ bs"

definition enc_number_field :: "int_codec \<Rightarrow> edit_tag \<Rightarrow> u64 option \<Rightarrow> bytes" where
  "enc_number_field ie t f = (case f of None \<Rightarrow> [] | Some n \<Rightarrow> enc_tag ie t @ encode_var ie (unat n))"

definition ve_encode :: "int_codec \<Rightarrow> version_edit \<Rightarrow> bytes" where
  "ve_encode ie ve =
     (case ve_comparator ve of None \<Rightarrow> [] | Some c \<Rightarrow> enc_tag ie TagComparator @ enc_prefixed ie c) @
     enc_number_field ie TagLogNumber (ve_log_number ve) @
     enc_number_field ie TagPrevLogNumber (ve_prev_log_number ve) @
     enc_number_field ie TagNextFileNumber (ve_next_file_number ve) @
     enc_number_field ie TagLastSequence (ve_last_seq ve) @
     concat (map (\<lambda>p. enc_tag ie TagCompactPointer @ encode_var ie (cp_level p) @ enc_prefixed ie (cp_key p))
       (ve_compaction_ptrs ve)) @
     concat (map (\<lambda>(level, num). enc_tag ie TagDeletedFile @ encode_var ie level @ encode_var ie (unat num)) (ve_deleted ve)) @
     concat (map (\<lambda>(level, f). enc_tag ie TagNewFile @ encode_var ie level @ encode_var ie (unat (fnum f)) @
       encode_var ie (fsize f) @ enc_prefixed ie (smallest f) @ enc_prefixed ie (largest f)) (ve_new_files ve))"


section \<open>Decoding\<close>

text \<open>A reader consumes the input or fails; it panics on a length that no vector can have.\<close>

type_synonym 'a reader = "bytes \<Rightarrow> ('a \<times> bytes) result run"

definition rd_then :: "'a reader \<Rightarrow> ('a \<Rightarrow> 'b reader) \<Rightarrow> 'b reader" where
  "rd_then m f bs = m bs \<bind> (\<lambda>r. case r of Inl e \<Rightarrow> Some (Inl e) | Inr (x, rest) \<Rightarrow> f x rest)"

definition rd_return :: "'a \<Rightarrow> 'a reader" where
  "rd_return x bs = Some (Inr (x, bs))"

definition read_number :: "int_codec \<Rightarrow> string \<Rightarrow> nat reader" where
  "read_number ie msg bs =
     Some (case read_varint ie bs of None \<Rightarrow> err IOError msg | Some (n, rest) \<Rightarrow> Inr (n, rest))"

definition read_length_prefixed :: "int_codec \<Rightarrow> bytes reader" where
  "read_length_prefixed ie =
     rd_then (read_number ie ''Couldn't read key length'') (\<lambda>klen bs.
       do { ensure (klen < 2 ^ 63);
            Some (if length bs < klen then err IOError ''Couldn't read full key''
                  else Inr (take klen bs, drop klen bs)) })"

fun utf8_valid :: "bytes \<Rightarrow> bool" where
  "utf8_valid [] = True"
| "utf8_valid (a # bs) =
     (let cont = (\<lambda>b. 0x80 \<le> b \<and> b \<le> 0xbf)
      in if a < 0x80 then utf8_valid bs
         else case bs of
             [] \<Rightarrow> False
           | b # cs \<Rightarrow>
               if 0xc2 \<le> a \<and> a \<le> 0xdf then cont b \<and> utf8_valid cs
               else case cs of
                   [] \<Rightarrow> False
                 | c # ds \<Rightarrow>
                     if 0xe0 \<le> a \<and> a \<le> 0xef then
                       (if a = 0xe0 then 0xa0 \<le> b else True) \<and> (if a = 0xed then b \<le> 0x9f else True) \<and>
                       cont b \<and> cont c \<and> utf8_valid ds
                     else case ds of
                         [] \<Rightarrow> False
                       | d # es \<Rightarrow> 0xf0 \<le> a \<and> a \<le> 0xf4 \<and> (if a = 0xf0 then 0x90 \<le> b else True) \<and>
                           (if a = 0xf4 then b \<le> 0x8f else True) \<and> cont b \<and> cont c \<and> cont d \<and> utf8_valid es)"

definition read_comparator :: "int_codec \<Rightarrow> version_edit \<Rightarrow> version_edit reader" where
  "read_comparator ie ve =
     rd_then (read_length_prefixed ie) (\<lambda>buf bs.
       if utf8_valid buf then Some (Inr (ve\<lparr>ve_comparator := Some buf\<rparr>, bs))
       else Some (err Corruption ''Bad comparator encoding''))"

definition read_file :: "int_codec \<Rightarrow> version_edit \<Rightarrow> version_edit reader" where
  "read_file ie ve =
     rd_then (read_number ie ''Couldn't read file level'') (\<lambda>level.
     rd_then (read_number ie ''Couldn't read file num'') (\<lambda>num.
     rd_then (read_number ie ''Couldn't read file size'') (\<lambda>size.
     rd_then (read_length_prefixed ie) (\<lambda>small.
     rd_then (read_length_prefixed ie) (\<lambda>large.
     rd_return (ve\<lparr>ve_new_files := ve_new_files ve @
       [(level, \<lparr>allowed_seeks = 0, fnum = of_nat num, fsize = size, smallest = small, largest = large\<rparr>)]\<rparr>))))))"

fun decode_field :: "int_codec \<Rightarrow> edit_tag \<Rightarrow> version_edit \<Rightarrow> version_edit reader" where
  "decode_field ie TagComparator ve = read_comparator ie ve"
| "decode_field ie TagLogNumber ve =
     rd_then (read_number ie ''Couldn't read lognumber'') (\<lambda>n. rd_return (ve\<lparr>ve_log_number := Some (of_nat n)\<rparr>))"
| "decode_field ie TagPrevLogNumber ve =
     rd_then (read_number ie ''Couldn't read prevlognumber'') (\<lambda>n. rd_return (ve\<lparr>ve_prev_log_number := Some (of_nat n)\<rparr>))"
| "decode_field ie TagNextFileNumber ve =
     rd_then (read_number ie ''Couldn't read next_file_number'') (\<lambda>n. rd_return (ve\<lparr>ve_next_file_number := Some (of_nat n)\<rparr>))"
| "decode_field ie TagLastSequence ve =
     rd_then (read_number ie ''Couldn't read last_sequence'') (\<lambda>n. rd_return (ve\<lparr>ve_last_seq := Some (of_nat n)\<rparr>))"
| "decode_field ie TagCompactPointer ve =
     rd_then (read_number ie ''Couldn't read level'') (\<lambda>level.
     rd_then (read_length_prefixed ie) (\<lambda>key.
     rd_return (ve\<lparr>ve_compaction_ptrs := ve_compaction_ptrs ve @ [\<lparr>cp_level = level, cp_key = key\<rparr>]\<rparr>)))"
| "decode_field ie TagDeletedFile ve =
     rd_then (read_number ie ''Couldn't read level'') (\<lambda>level.
     rd_then (read_number ie ''Couldn't read file num'') (\<lambda>num.
     rd_return (ve\<lparr>ve_deleted := hs_insert (level, of_nat num) (ve_deleted ve)\<rparr>)))"
| "decode_field ie TagNewFile ve = read_file ie ve"

partial_function (option) decode_loop :: "int_codec \<Rightarrow> version_edit \<Rightarrow> bytes \<Rightarrow> version_edit result option" where
  "decode_loop ie ve bs =
     (case read_varint32 ie bs of
        None \<Rightarrow> Some (Inr ve)
      | Some (tag, bs) \<Rightarrow>
          (case tag_to_enum tag of
             None \<Rightarrow> Some (err Corruption (''Invalid tag number '' @ show_nat (unat tag)))
           | Some t \<Rightarrow> decode_field ie t ve bs \<bind> (\<lambda>r.
               case r of Inl e \<Rightarrow> Some (Inl e) | Inr (ve, bs) \<Rightarrow> decode_loop ie ve bs)))"

definition decode_from :: "int_codec \<Rightarrow> bytes \<Rightarrow> version_edit result run" where
  "decode_from ie src = decode_loop ie version_edit_new src"


section \<open>Decoding an encoded edit\<close>

text \<open>Edits whose numbers have 64 bits and whose strings fit into memory; the name of the comparator is text.\<close>

definition file_ok :: "nat \<times> file_meta_data \<Rightarrow> bool" where
  "file_ok lf \<longleftrightarrow> fst lf < 2 ^ 64 \<and> fsize (snd lf) < 2 ^ 64 \<and> length (smallest (snd lf)) < 2 ^ 63 \<and>
     length (largest (snd lf)) < 2 ^ 63"

definition edit_ok :: "version_edit \<Rightarrow> bool" where
  "edit_ok ve \<longleftrightarrow>
     (case ve_comparator ve of None \<Rightarrow> True | Some c \<Rightarrow> utf8_valid c \<and> length c < 2 ^ 63) \<and>
     (\<forall>p \<in> set (ve_compaction_ptrs ve). cp_level p < 2 ^ 64 \<and> length (cp_key p) < 2 ^ 63) \<and>
     distinct (ve_deleted ve) \<and> (\<forall>(level, num) \<in> set (ve_deleted ve). level < 2 ^ 64) \<and>
     (\<forall>lf \<in> set (ve_new_files ve). file_ok lf)"

text \<open>The number of allowed seeks is not stored.\<close>

definition forget_seeks :: "nat \<times> file_meta_data \<Rightarrow> nat \<times> file_meta_data" where
  "forget_seeks lf = (fst lf, (snd lf)\<lparr>allowed_seeks := 0\<rparr>)"

lemma tag_to_enum_code [simp]: "tag_to_enum (edit_tag_code t) = Some t"
  by (cases t) (simp_all add: tag_to_enum_def)

lemma u64_number: "unat (n :: u64) < 2 ^ 64"
  using unsigned_less [of n, where 'a = nat] by simp

lemma edit_unset:
  "ve_comparator ve = None \<Longrightarrow> ve\<lparr>ve_comparator := None\<rparr> = ve" "ve_log_number ve = None \<Longrightarrow> ve\<lparr>ve_log_number := None\<rparr> = ve"
  "ve_prev_log_number ve = None \<Longrightarrow> ve\<lparr>ve_prev_log_number := None\<rparr> = ve"
  "ve_next_file_number ve = None \<Longrightarrow> ve\<lparr>ve_next_file_number := None\<rparr> = ve"
  "ve_last_seq ve = None \<Longrightarrow> ve\<lparr>ve_last_seq := None\<rparr> = ve" for ve :: version_edit
  by (cases ve; simp)+

lemma hs_insert_new: "x \<notin> set xs \<Longrightarrow> hs_insert x xs = xs @ [x]"
  by (simp add: hs_insert_def)

context integer_encoding
begin

lemma read_number_enc:
  "n < 2 ^ 64 \<Longrightarrow> rd_then (read_number ie msg) f (encode_var ie n @ rest) = f n rest"
  "rd_then (read_number ie msg) f (encode_var ie (unat (w :: u64)) @ rest) = f (unat w) rest"
  by (simp_all add: read_number_def rd_then_def codec_laws read_encode_varint [OF u64_number])

lemma read_prefixed_enc:
  "length bs < 2 ^ 63 \<Longrightarrow> rd_then (read_length_prefixed ie) f (enc_prefixed ie bs @ rest) = f bs rest"
  by (simp add: read_length_prefixed_def enc_prefixed_def read_number_enc rd_then_def [of "rd_then _ _"])

lemmas read_enc = read_number_enc read_prefixed_enc rd_return_def

lemma decode_loop_tag:
  assumes "decode_field ie t ve (payload @ rest) = Some (Inr (ve', rest))"
  shows "decode_loop ie ve (enc_tag ie t @ payload @ rest) = decode_loop ie ve' rest"
  using assms by (subst decode_loop.simps) (simp add: enc_tag_def codec_laws)

lemma decode_comparator:
  assumes "case c of None \<Rightarrow> True | Some c \<Rightarrow> utf8_valid c \<and> length c < 2 ^ 63" "ve_comparator ve = None"
  shows "decode_loop ie ve ((case c of None \<Rightarrow> [] | Some c \<Rightarrow> enc_tag ie TagComparator @ enc_prefixed ie c) @ rest) =
    decode_loop ie (ve\<lparr>ve_comparator := c\<rparr>) rest"
proof (cases c)
  case (Some n)
  then show ?thesis
    using assms(1) decode_loop_tag [of TagComparator ve "enc_prefixed ie n" rest]
    by (simp add: read_comparator_def read_enc)
qed (use assms(2) in \<open>simp add: edit_unset\<close>)

lemma decode_number_fields:
  "ve_log_number ve = None \<Longrightarrow>
    decode_loop ie ve (enc_number_field ie TagLogNumber n @ rest) = decode_loop ie (ve\<lparr>ve_log_number := n\<rparr>) rest"
  "ve_prev_log_number ve = None \<Longrightarrow>
    decode_loop ie ve (enc_number_field ie TagPrevLogNumber n @ rest) = decode_loop ie (ve\<lparr>ve_prev_log_number := n\<rparr>) rest"
  "ve_next_file_number ve = None \<Longrightarrow>
    decode_loop ie ve (enc_number_field ie TagNextFileNumber n @ rest) = decode_loop ie (ve\<lparr>ve_next_file_number := n\<rparr>) rest"
  "ve_last_seq ve = None \<Longrightarrow>
    decode_loop ie ve (enc_number_field ie TagLastSequence n @ rest) = decode_loop ie (ve\<lparr>ve_last_seq := n\<rparr>) rest"
  using decode_loop_tag [of _ ve "encode_var ie (unat (the n))" rest]
  by (cases n; simp add: enc_number_field_def read_enc edit_unset)+

lemma decode_ptrs:
  assumes "\<forall>p \<in> set ps. cp_level p < 2 ^ 64 \<and> length (cp_key p) < 2 ^ 63"
  shows "decode_loop ie ve (concat (map (\<lambda>p. enc_tag ie TagCompactPointer @ encode_var ie (cp_level p) @
      enc_prefixed ie (cp_key p)) ps) @ rest) =
    decode_loop ie (ve\<lparr>ve_compaction_ptrs := ve_compaction_ptrs ve @ ps\<rparr>) rest"
  using assms
proof (induction ps arbitrary: ve)
  case (Cons p ps)
  obtain l k where "p = \<lparr>cp_level = l, cp_key = k\<rparr>" by (cases p)
  with Cons show ?case
    using decode_loop_tag [of TagCompactPointer ve "encode_var ie (cp_level p) @ enc_prefixed ie (cp_key p)"]
    by (simp add: read_enc)
qed simp

lemma decode_deleted:
  assumes "\<forall>(level, num) \<in> set ds. level < 2 ^ 64" "distinct (ve_deleted ve @ ds)"
  shows "decode_loop ie ve (concat (map (\<lambda>(level, num). enc_tag ie TagDeletedFile @ encode_var ie level @
      encode_var ie (unat num)) ds) @ rest) =
    decode_loop ie (ve\<lparr>ve_deleted := ve_deleted ve @ ds\<rparr>) rest"
  using assms
proof (induction ds arbitrary: ve)
  case (Cons d ds)
  obtain level num where d: "d = (level, num)" by (cases d)
  then show ?case
    using Cons decode_loop_tag [of TagDeletedFile ve "encode_var ie level @ encode_var ie (unat num)"]
    by (simp add: read_enc hs_insert_new)
qed simp

lemma decode_files:
  assumes "\<forall>lf \<in> set fs. file_ok lf"
  shows "decode_loop ie ve (concat (map (\<lambda>(level, f). enc_tag ie TagNewFile @ encode_var ie level @
      encode_var ie (unat (fnum f)) @ encode_var ie (fsize f) @ enc_prefixed ie (smallest f) @ enc_prefixed ie (largest f)) fs) @ rest) =
    decode_loop ie (ve\<lparr>ve_new_files := ve_new_files ve @ map forget_seeks fs\<rparr>) rest"
  using assms
proof (induction fs arbitrary: ve)
  case (Cons lf fs)
  obtain level f where lf: "lf = (level, f)" by (cases lf)
  moreover obtain a n z s l where "f = \<lparr>allowed_seeks = a, fnum = n, fsize = z, smallest = s, largest = l\<rparr>"
    by (cases f)
  ultimately show ?case
    using Cons decode_loop_tag [of TagNewFile ve "encode_var ie level @ encode_var ie (unat (fnum f)) @
        encode_var ie (fsize f) @ enc_prefixed ie (smallest f) @ enc_prefixed ie (largest f)"]
    by (simp add: read_file_def file_ok_def read_enc forget_seeks_def)
qed simp

lemma decode_loop_end: "decode_loop ie ve [] = Some (Inr ve)"
  by (subst decode_loop.simps) (simp add: read_varint32_Nil)

lemma decode_encode_edit:
  assumes "edit_ok ve"
  shows "decode_from ie (ve_encode ie ve) = Some (Inr (ve\<lparr>ve_new_files := map forget_seeks (ve_new_files ve)\<rparr>))"
proof -
  note ok = assms [unfolded edit_ok_def]
  show ?thesis
    unfolding decode_from_def ve_encode_def
    using ok decode_files [of "ve_new_files ve" _ "[]"]
    by (simp add: decode_comparator decode_number_fields decode_ptrs decode_deleted decode_loop_end version_edit_new_def)
qed

end


section \<open>Properties\<close>

text \<open>C19: Decoding an encoded version edit gives back the edit, with the allowed seeks of its files
  set to 0: the comparator name, the four numbers, and the lists of compaction pointers, deleted and
  new files, in whatever order the set of deleted files is written.\<close>

theorem version_edit_roundtrip:
  assumes "integer_encoding ie" "edit_ok ve"
  shows "decode_from ie (ve_encode ie ve) = Some (Inr (ve\<lparr>ve_new_files := map forget_seeks (ve_new_files ve)\<rparr>))"
  by (rule integer_encoding.decode_encode_edit [OF assms])

definition sample_edit :: version_edit where
  "sample_edit = set_compact_pointer (ve_delete_file (ve_add_file (set_log_num (set_comparator_name version_edit_new [0x78, 0xc3, 0xa9]) 12)
     1 \<lparr>allowed_seeks = 7, fnum = 5, fsize = 300, smallest = [1, 2], largest = [3]\<rparr>) 2 9) 0 [8]"

theorem version_edit_roundtrip_witness:
  "edit_ok sample_edit \<and> decode_from wire_codec (ve_encode wire_codec sample_edit) =
     Some (Inr (sample_edit\<lparr>ve_new_files := map forget_seeks (ve_new_files sample_edit)\<rparr>))"
proof -
  have "edit_ok sample_edit"
    by (simp add: sample_edit_def edit_ok_def set_compact_pointer_def ve_delete_file_def ve_add_file_def set_log_num_def
        set_comparator_name_def version_edit_new_def hs_insert_def file_ok_def)
  then show ?thesis using version_edit_roundtrip [OF wire.integer_encoding_axioms] by blast
qed

end
