(* ===== verification/Snapshot.thy ===== *)
theory Snapshot
  imports Key_Types "HOL-Library.AList"
begin

text \<open>
  The list of snapshots (\<open>src/src/snapshot.rs\<close>). A snapshot has a handle, by which the list's map is
  keyed, and a sequence number. Dropping the last reference to a snapshot removes its handle. The
  hash map is an association list; what is computed from it does not depend on its order.

  The steps of the list's owner, acquiring and dropping snapshots, are a transition relation; the
  invariant is that the map holds exactly the handles of the snapshots that are alive.
\<close>

type_synonym snapshot_handle = u64

record snapshot_list =
  sl_map :: "(snapshot_handle \<times> sequence_number) list"
  sl_newest :: snapshot_handle
  sl_oldest :: snapshot_handle

record snapshot =
  snap_id :: snapshot_handle
  snap_seq :: sequence_number

definition snapshot_list_new :: snapshot_list where
  "snapshot_list_new = \<lparr>sl_map = [], sl_newest = 0, sl_oldest = 0\<rparr>"

definition new_snapshot :: "snapshot_list \<Rightarrow> sequence_number \<Rightarrow> snapshot \<times> snapshot_list" where
  "new_snapshot sl seq =
     (let newest = sl_newest sl + 1
      in (\<lparr>snap_id = newest, snap_seq = seq\<rparr>,
          sl\<lparr>sl_newest := newest, sl_map := AList.update newest seq (sl_map sl),
             sl_oldest := if sl_oldest sl = 0 then newest else sl_oldest sl\<rparr>))"

definition snapshot_sequence :: "snapshot \<Rightarrow> sequence_number" where
  "snapshot_sequence s = snap_seq s"

definition sl_delete :: "snapshot_list \<Rightarrow> snapshot_handle \<Rightarrow> snapshot_list" where
  "sl_delete sl i = sl\<lparr>sl_map := AList.delete i (sl_map sl)\<rparr>"

text \<open>The folds of \<open>oldest\<close> and \<open>newest\<close> take the first component of the map's pairs.\<close>

definition snapshots_oldest :: "snapshot_list \<Rightarrow> sequence_number" where
  "snapshots_oldest sl =
     (let oldest = fold (\<lambda>(seq, _) s. if seq < s then seq else s) (sl_map sl) MAX_SEQUENCE_NUMBER
      in if oldest = MAX_SEQUENCE_NUMBER then 0 else oldest)"

definition snapshots_newest :: "snapshot_list \<Rightarrow> sequence_number" where
  "snapshots_newest sl = fold (\<lambda>(seq, _) s. if seq > s then seq else s) (sl_map sl) 0"

definition snapshots_empty :: "snapshot_list \<Rightarrow> bool" where
  "snapshots_empty sl \<longleftrightarrow> sl_oldest sl = 0"


section \<open>Acquiring and dropping\<close>

text \<open>The list together with the snapshots that are alive.\<close>

inductive snapshot_step :: "snapshot_list \<times> snapshot list \<Rightarrow> snapshot_list \<times> snapshot list \<Rightarrow> bool" where
  acquire: "new_snapshot sl seq = (s, sl') \<Longrightarrow> snapshot_step (sl, live) (sl', s # live)"
| release: "s \<in> set live \<Longrightarrow> snapshot_step (sl, live) (sl_delete sl (snap_id s), remove1 s live)"

inductive snapshots_reach :: "nat \<Rightarrow> snapshot_list \<times> snapshot list \<Rightarrow> bool" where
  start: "snapshots_reach 0 (snapshot_list_new, [])"
| step: "snapshots_reach n st \<Longrightarrow> snapshot_step st st' \<Longrightarrow> snapshots_reach (Suc n) st'"

inductive_simps snapshot_step_simps: "snapshot_step (sl, live) (sl', live')"

definition snapshots_inv :: "nat \<Rightarrow> snapshot_list \<times> snapshot list \<Rightarrow> bool" where
  "snapshots_inv n st \<longleftrightarrow> (case st of (sl, live) \<Rightarrow>
     map_of (sl_map sl) = map_of (map (\<lambda>s. (snap_id s, snap_seq s)) live) \<and> distinct (map fst (sl_map sl)) \<and>
     distinct (map snap_id live) \<and> unat (sl_newest sl) \<le> n \<and>
     (\<forall>s \<in> set live. 0 < unat (snap_id s) \<and> unat (snap_id s) \<le> unat (sl_newest sl)) \<and>
     (live \<noteq> [] \<longrightarrow> sl_oldest sl \<noteq> 0))"

lemma unat_Suc_small: "unat w < 2 ^ 64 - 1 \<Longrightarrow> unat (w + 1) = Suc (unat (w :: u64))"
  by (simp add: unat_word_ariths)

lemma map_of_remove1:
  "distinct (map snap_id live) \<Longrightarrow> s \<in> set live \<Longrightarrow>
    map_of (map (\<lambda>s. (snap_id s, snap_seq s)) (remove1 s live)) =
      (map_of (map (\<lambda>s. (snap_id s, snap_seq s)) live))(snap_id s := None)"
proof (induction live)
  case (Cons a live)
  show ?case
  proof (cases "s = a")
    case True
    then have "map_of (map (\<lambda>s. (snap_id s, snap_seq s)) live) (snap_id s) = None"
      using Cons.prems(1) by (auto simp: map_of_eq_None_iff)
    with True show ?thesis by (auto simp: fun_eq_iff)
  next
    case False
    then have "snap_id a \<noteq> snap_id s" using Cons.prems by auto
    with False Cons show ?thesis by (auto simp: fun_eq_iff)
  qed
qed simp

lemma snapshots_inv_step:
  assumes "snapshots_inv n st" "snapshot_step st st'" "n < 2 ^ 64 - 1"
  shows "snapshots_inv (Suc n) st'"
  using assms(2)
proof cases
  case (acquire sl seq s sl' live)
  note inv = assms(1) [unfolded acquire(1) snapshots_inv_def prod.case]
  have u: "unat (sl_newest sl + 1) = Suc (unat (sl_newest sl))"
    by (rule unat_Suc_small) (use inv assms(3) in linarith)
  then have ne: "sl_newest sl + 1 \<noteq> 0" by (metis nat.distinct(1) unsigned_0)
  have fresh: "\<forall>s \<in> set live. snap_id s \<noteq> sl_newest sl + 1" using inv u by (metis Suc_n_not_le_n)
  show ?thesis
    using acquire inv u ne fresh
    by (auto simp: snapshots_inv_def new_snapshot_def Let_def update_conv' distinct_update le_SucI split: if_splits)
next
  case (release s live sl)
  note inv = assms(1) [unfolded release(1) snapshots_inv_def prod.case]
  have "distinct (map snap_id live)" using inv by simp
  then have "map_of (map (\<lambda>s. (snap_id s, snap_seq s)) (remove1 s live)) =
      (map_of (map (\<lambda>s. (snap_id s, snap_seq s)) live))(snap_id s := None)"
    using map_of_remove1 release(3) by blast
  moreover have "distinct (map fst (AList.delete (snap_id s) (sl_map sl)))" using inv by (simp add: distinct_delete)
  moreover have "distinct (map snap_id (remove1 s live))"
    using \<open>distinct (map snap_id live)\<close> set_remove1_subset [of s live]
    by (auto simp: distinct_map distinct_remove1 inj_on_def)
  ultimately show ?thesis
    using release inv set_remove1_subset [of s live]
    by (auto simp: snapshots_inv_def sl_delete_def delete_conv')
qed

lemma snapshots_reach_inv: "snapshots_reach n st \<Longrightarrow> n < 2 ^ 64 \<Longrightarrow> snapshots_inv n st"
proof (induction rule: snapshots_reach.induct)
  case start
  then show ?case by (simp add: snapshots_inv_def snapshot_list_new_def)
next
  case (step n st st')
  then show ?case using snapshots_inv_step by simp
qed


section \<open>Properties\<close>

lemma fold_min_Min:
  fixes m :: "'a::linorder"
  shows "fold (\<lambda>(x, _) s. if x < s then x else s) ps m = Min (insert m (fst ` set ps))"
proof (induction ps arbitrary: m)
  case (Cons p ps)
  have "Min (insert (if fst p < m then fst p else m) (fst ` set ps)) = Min (insert m (insert (fst p) (fst ` set ps)))"
    by (cases "ps = []") (auto simp: min_def)
  with Cons show ?case by (simp add: case_prod_beta)
qed simp

text \<open>C34: After any sequence of acquisitions and drops, the snapshot list holds exactly the live
  snapshots with their sequence numbers. What \<open>oldest\<close> returns is the smallest live handle, that is,
  a count of the snapshots taken, and not, as documented, a sequence number.\<close>

theorem snapshots_oldest_is_handle:
  assumes "snapshots_reach n (sl, live)" "n < 2 ^ 56 - 1"
  shows "map_of (sl_map sl) = map_of (map (\<lambda>s. (snap_id s, snap_seq s)) live) \<and>
    snapshots_oldest sl = (if live = [] then 0 else Min (snap_id ` set live))"
proof -
  have inv: "snapshots_inv n (sl, live)" using snapshots_reach_inv [OF assms(1)] assms(2) by simp
  then have eq: "map_of (sl_map sl) = map_of (map (\<lambda>s. (snap_id s, snap_seq s)) live)"
    by (simp add: snapshots_inv_def)
  then have dom: "fst ` set (sl_map sl) = snap_id ` set live"
    using dom_map_of_conv_image_fst [of "sl_map sl"] dom_map_of_conv_image_fst [of "map (\<lambda>s. (snap_id s, snap_seq s)) live"]
    by (simp add: image_image)
  have max: "unat MAX_SEQUENCE_NUMBER = 2 ^ 56 - 1" by (simp add: MAX_SEQUENCE_NUMBER_def)
  have small: "\<forall>s \<in> set live. snap_id s < MAX_SEQUENCE_NUMBER"
    using inv assms(2) max by (auto simp: snapshots_inv_def word_less_nat_alt)
  have "snapshots_oldest sl = (if live = [] then 0 else Min (snap_id ` set live))"
  proof (cases "live = []")
    case False
    then have "Min (snap_id ` set live) \<in> snap_id ` set live" by (intro Min_in) auto
    then have lt: "Min (snap_id ` set live) < MAX_SEQUENCE_NUMBER" using small by auto
    have "min MAX_SEQUENCE_NUMBER (Min (snap_id ` set live)) = Min (snap_id ` set live)"
      by (rule min_absorb2) (rule less_imp_le [OF lt])
    then have "Min (insert MAX_SEQUENCE_NUMBER (snap_id ` set live)) = Min (snap_id ` set live)"
      using False by (subst Min_insert) auto
    with less_imp_neq [OF lt] show ?thesis
      using False by (simp add: snapshots_oldest_def fold_min_Min dom Let_def del: Min_insert)
  qed (use dom in \<open>simp add: snapshots_oldest_def\<close>)
  with eq show ?thesis by blast
qed

theorem snapshots_oldest_is_handle_witness:
  "\<exists>sl. snapshots_reach 3 (sl, [\<lparr>snap_id = 2, snap_seq = 0\<rparr>]) \<and> snapshots_oldest sl = 2"
proof -
  let ?n = "\<lambda>sl. new_snapshot sl 0"
  let ?s1 = "\<lparr>snap_id = 1, snap_seq = 0\<rparr>" and ?s2 = "\<lparr>snap_id = 2, snap_seq = 0\<rparr>"
  let ?l1 = "snd (?n snapshot_list_new)" let ?l2 = "snd (?n ?l1)"
  have n1: "?n snapshot_list_new = (?s1, ?l1)" by (simp add: new_snapshot_def snapshot_list_new_def Let_def)
  have n2: "?n ?l1 = (?s2, ?l2)" by (simp add: new_snapshot_def snapshot_list_new_def Let_def)
  have "snapshots_reach (Suc (Suc (Suc 0))) (sl_delete ?l2 (snap_id ?s1), remove1 ?s1 [?s2, ?s1])"
    by (rule snapshots_reach.step [OF snapshots_reach.step [OF snapshots_reach.step [OF snapshots_reach.start
      snapshot_step.acquire [OF n1]] snapshot_step.acquire [OF n2]] snapshot_step.release]) simp
  then have r: "snapshots_reach 3 (sl_delete ?l2 1, [?s2])" by (simp add: numeral_3_eq_3)
  have "snapshots_oldest (sl_delete ?l2 1) = 2"
    using snapshots_oldest_is_handle [OF r] by simp
  with r show ?thesis by blast
qed

end
