(* ===== verification/Version.thy ===== *)
theory Version
  imports Complex_Main Key_Cmp Version_Edit Ldb_Iterator
begin

text \<open>
  Versions (\<open>src/src/version.rs\<close>): the table files of every level, lookups in them, the searches for
  overlapping files and the iterator over the files of a level. The table cache is reached through
  two functions the operations take as arguments: \<open>tget\<close> looks up an internal key in the table with a
  number, \<open>open_table\<close> gives an iterator over it. File metadata are values; the one place where a
  shared handle is written through, the allowed seeks in \<open>update_stats\<close>, updates the file in the
  version it belongs to.
\<close>

definition NUM_LEVELS :: nat where
  "NUM_LEVELS = 7"

type_synonym table_get = "file_num \<Rightarrow> bytes \<Rightarrow> (bytes \<times> bytes) option result run"

record get_stats =
  gs_file :: "file_meta_data option"
  gs_level :: nat

text \<open>Scores, which the code computes as \<open>f64\<close>, are rational numbers.\<close>

record version =
  v_user_cmp :: comparator
  v_files :: "file_meta_data list list"
  v_file_to_compact :: "file_meta_data option"
  v_file_to_compact_lvl :: nat
  v_compaction_score :: "rat option"
  v_compaction_level :: "nat option"

definition version_new :: "comparator \<Rightarrow> version" where
  "version_new ucmp = \<lparr>v_user_cmp = ucmp, v_files = replicate NUM_LEVELS [], v_file_to_compact = None,
     v_file_to_compact_lvl = 0, v_compaction_score = None, v_compaction_level = None\<rparr>"

definition total_size :: "file_meta_data list \<Rightarrow> nat" where
  "total_size fs = fold (\<lambda>f a. a + fsize f) fs 0"

definition num_level_bytes :: "version \<Rightarrow> nat \<Rightarrow> nat run" where
  "num_level_bytes v l = do { ensure (l < NUM_LEVELS); fs \<leftarrow> index (v_files v) l; Some (total_size fs) }"

definition num_level_files :: "version \<Rightarrow> nat \<Rightarrow> nat run" where
  "num_level_files v l = do { ensure (l < NUM_LEVELS); fs \<leftarrow> index (v_files v) l; Some (length fs) }"

text \<open>The user key of an internal key, \<open>parse_internal_key(k).2\<close>.\<close>

definition user_part :: "int_codec \<Rightarrow> bytes \<Rightarrow> bytes run" where
  "user_part ie k = do { (_, _, u) \<leftarrow> parse_internal_key ie k; Some u }"


section \<open>Files and ranges\<close>

definition key_is_after_file :: "int_codec \<Rightarrow> comparator \<Rightarrow> bytes \<Rightarrow> file_meta_data \<Rightarrow> bool run" where
  "key_is_after_file ie ucmp key f =
     do { ulargest \<leftarrow> user_part ie (largest f);
          if key = [] then Some False
          else do { c \<leftarrow> cmp_inner ucmp key ulargest; Some (c = Greater) } }"

definition key_is_before_file :: "int_codec \<Rightarrow> comparator \<Rightarrow> bytes \<Rightarrow> file_meta_data \<Rightarrow> bool run" where
  "key_is_before_file ie ucmp key f =
     do { usmallest \<leftarrow> user_part ie (smallest f);
          if key = [] then Some False
          else do { c \<leftarrow> cmp_inner ucmp key usmallest; Some (c = Less) } }"

function find_file_loop :: "comparator \<Rightarrow> file_meta_data list \<Rightarrow> bytes \<Rightarrow> nat \<Rightarrow> nat \<Rightarrow> nat run" where
  "find_file_loop icmp files key left right =
     (if left < right
      then do { let mid = (left + right) div 2;
                f \<leftarrow> index files mid;
                c \<leftarrow> cmp icmp (largest f) key;
                if c = Less then find_file_loop icmp files key (mid + 1) right
                else find_file_loop icmp files key left mid }
      else Some right)"
  by pat_completeness auto
termination
  by (relation "measure (\<lambda>(icmp, files, key, left, right). right - left)") auto

declare find_file_loop.simps [simp del]

definition find_file :: "comparator \<Rightarrow> file_meta_data list \<Rightarrow> bytes \<Rightarrow> nat option run" where
  "find_file icmp files key =
     do { right \<leftarrow> find_file_loop icmp files key 0 (length files);
          Some (if right < length files then Some right else None) }"

definition some_file_overlaps_range_disjoint ::
    "int_codec \<Rightarrow> comparator \<Rightarrow> file_meta_data list \<Rightarrow> bytes \<Rightarrow> bytes \<Rightarrow> bool run" where
  "some_file_overlaps_range_disjoint ie ucmp files small large =
     do { lk \<leftarrow> lookup_key_new ie small MAX_SEQUENCE_NUMBER;
          ik \<leftarrow> internal_key lk;
          r \<leftarrow> find_file (InternalKeyCmp ie ucmp) files ik;
          case r of
            Some ix \<Rightarrow> do { f \<leftarrow> index files ix; b \<leftarrow> key_is_before_file ie ucmp large f; Some (\<not> b) }
          | None \<Rightarrow> Some False }"

fun some_file_overlaps_range ::
    "int_codec \<Rightarrow> comparator \<Rightarrow> file_meta_data list \<Rightarrow> bytes \<Rightarrow> bytes \<Rightarrow> bool run" where
  "some_file_overlaps_range ie ucmp [] small large = Some False"
| "some_file_overlaps_range ie ucmp (f # fs) small large =
     do { after \<leftarrow> key_is_after_file ie ucmp small f;
          outside \<leftarrow> (if after then Some True else key_is_before_file ie ucmp large f);
          if \<not> outside then Some True else some_file_overlaps_range ie ucmp fs small large }"

definition overlap_in_level :: "int_codec \<Rightarrow> version \<Rightarrow> nat \<Rightarrow> bytes \<Rightarrow> bytes \<Rightarrow> bool run" where
  "overlap_in_level ie v level small large =
     do { ensure (level < NUM_LEVELS);
          fs \<leftarrow> index (v_files v) level;
          if level = 0 then some_file_overlaps_range_disjoint ie (v_user_cmp v) fs small large
          else some_file_overlaps_range ie (v_user_cmp v) fs small large }"

text \<open>The inner search of \<open>overlapping_inputs\<close>: a wider range, or the overlapping files.\<close>

fun do_search ::
    "int_codec \<Rightarrow> comparator \<Rightarrow> nat \<Rightarrow> bytes \<Rightarrow> bytes \<Rightarrow> file_meta_data list \<Rightarrow> file_meta_data list \<Rightarrow>
      ((bytes \<times> bytes) option \<times> file_meta_data list) run" where
  "do_search ie ucmp level ubegin uend [] inputs = Some (None, inputs)"
| "do_search ie ucmp level ubegin uend (f # fs) inputs =
     do { fsmallest \<leftarrow> user_part ie (smallest f);
          flargest \<leftarrow> user_part ie (largest f);
          below \<leftarrow> (if ubegin = [] then Some False
                    else do { c \<leftarrow> cmp ucmp flargest ubegin; Some (c = Less) });
          above \<leftarrow> (if below \<or> uend = [] then Some False
                    else do { c \<leftarrow> cmp ucmp fsmallest uend; Some (c = Greater) });
          if below \<or> above then do_search ie ucmp level ubegin uend fs inputs
          else do { let inputs = inputs @ [f];
                    lower \<leftarrow> (if level = 0 \<and> ubegin \<noteq> []
                              then do { c \<leftarrow> cmp ucmp fsmallest ubegin; Some (c = Less) } else Some False);
                    higher \<leftarrow> (if level = 0 \<and> \<not> lower \<and> uend \<noteq> []
                               then do { c \<leftarrow> cmp ucmp flargest uend; Some (c = Greater) } else Some False);
                    if lower then Some (Some (fsmallest, uend), inputs)
                    else if higher then Some (Some (ubegin, flargest), inputs)
                    else do_search ie ucmp level ubegin uend fs inputs } }"

partial_function (option) search_loop ::
    "int_codec \<Rightarrow> comparator \<Rightarrow> nat \<Rightarrow> file_meta_data list \<Rightarrow> bytes \<Rightarrow> bytes \<Rightarrow> file_meta_data list option" where
  "search_loop ie ucmp level files ubegin uend =
     do_search ie ucmp level ubegin uend files [] \<bind> (\<lambda>(range, inputs).
       case range of None \<Rightarrow> Some inputs
       | Some (b, e) \<Rightarrow> search_loop ie ucmp level files b e)"

definition overlapping_inputs :: "int_codec \<Rightarrow> version \<Rightarrow> nat \<Rightarrow> bytes \<Rightarrow> bytes \<Rightarrow> file_meta_data list run" where
  "overlapping_inputs ie v level b e =
     do { ensure (level < NUM_LEVELS);
          ubegin \<leftarrow> user_part ie b;
          uend \<leftarrow> user_part ie e;
          fs \<leftarrow> index (v_files v) level;
          search_loop ie (v_user_cmp v) level fs ubegin uend }"

function pick_level_loop :: "int_codec \<Rightarrow> version \<Rightarrow> bytes \<Rightarrow> bytes \<Rightarrow> bytes \<Rightarrow> bytes \<Rightarrow> nat \<Rightarrow> nat run" where
  "pick_level_loop ie v mn mx start limit level =
     (if level < 2
      then do { o1 \<leftarrow> overlap_in_level ie v (level + 1) mn mx;
                if o1 then Some level
                else do { size \<leftarrow> (if level + 2 < NUM_LEVELS
                                  then do { fs \<leftarrow> overlapping_inputs ie v (level + 2) start limit; Some (total_size fs) }
                                  else Some 0);
                          if size > 10 * (2 * 2 ^ 20) then Some level
                          else pick_level_loop ie v mn mx start limit (level + 1) } }
      else Some level)"
  by pat_completeness auto
termination
  by (relation "measure (\<lambda>(ie, v, mn, mx, start, limit, level). 2 - level)") auto

declare pick_level_loop.simps [simp del]

definition pick_memtable_output_level :: "int_codec \<Rightarrow> version \<Rightarrow> bytes \<Rightarrow> bytes \<Rightarrow> nat run" where
  "pick_memtable_output_level ie v mn mx =
     do { o0 \<leftarrow> overlap_in_level ie v 0 mn mx;
          if o0 then Some 0
          else do { start \<leftarrow> lookup_key_new ie mn MAX_SEQUENCE_NUMBER;
                    limit \<leftarrow> new_full ie mx 0 TypeDeletion;
                    s \<leftarrow> internal_key start;
                    l \<leftarrow> internal_key limit;
                    pick_level_loop ie v mn mx s l 0 } }"

fun max_overlap_files :: "int_codec \<Rightarrow> version \<Rightarrow> nat \<Rightarrow> file_meta_data list \<Rightarrow> nat \<Rightarrow> nat run" where
  "max_overlap_files ie v lvl [] mx = Some mx"
| "max_overlap_files ie v lvl (f # fs) mx =
     do { ols \<leftarrow> overlapping_inputs ie v (lvl + 1) (smallest f) (largest f);
          max_overlap_files ie v lvl fs (if total_size ols > mx then total_size ols else mx) }"

fun max_overlap_levels :: "int_codec \<Rightarrow> version \<Rightarrow> nat list \<Rightarrow> nat \<Rightarrow> nat run" where
  "max_overlap_levels ie v [] mx = Some mx"
| "max_overlap_levels ie v (lvl # lvls) mx =
     do { fs \<leftarrow> index (v_files v) lvl; mx \<leftarrow> max_overlap_files ie v lvl fs mx; max_overlap_levels ie v lvls mx }"

definition max_next_level_overlapping_bytes :: "int_codec \<Rightarrow> version \<Rightarrow> nat run" where
  "max_next_level_overlapping_bytes ie v = max_overlap_levels ie v [1..<NUM_LEVELS - 1] 0"


section \<open>Lookups\<close>

fun overlapping_level0 :: "int_codec \<Rightarrow> comparator \<Rightarrow> bytes \<Rightarrow> file_meta_data list \<Rightarrow> file_meta_data list run" where
  "overlapping_level0 ie ucmp ukey [] = Some []"
| "overlapping_level0 ie ucmp ukey (f # fs) =
     do { fsmallest \<leftarrow> user_part ie (smallest f);
          flargest \<leftarrow> user_part ie (largest f);
          c \<leftarrow> cmp ucmp ukey fsmallest;
          inside \<leftarrow> (if c \<ge> Equal then do { d \<leftarrow> cmp ucmp ukey flargest; Some (d \<le> Equal) } else Some False);
          rest \<leftarrow> overlapping_level0 ie ucmp ukey fs;
          Some (if inside then f # rest else rest) }"

text \<open>The stable sort by descending file number.\<close>

definition newest_first :: "file_meta_data list \<Rightarrow> file_meta_data list" where
  "newest_first fs = sort_key (\<lambda>f. - int (unat (fnum f))) fs"

definition overlapping_level :: "int_codec \<Rightarrow> comparator \<Rightarrow> bytes \<Rightarrow> bytes \<Rightarrow> file_meta_data list \<Rightarrow> file_meta_data list run" where
  "overlapping_level ie ucmp ik ukey files =
     do { r \<leftarrow> find_file (InternalKeyCmp ie ucmp) files ik;
          case r of
            None \<Rightarrow> Some []
          | Some ix \<Rightarrow> do { f \<leftarrow> index files ix;
                            fsmallest \<leftarrow> user_part ie (smallest f);
                            c \<leftarrow> cmp ucmp ukey fsmallest;
                            Some (if c \<ge> Equal then [f] else []) } }"

fun overlapping_levels :: "int_codec \<Rightarrow> version \<Rightarrow> bytes \<Rightarrow> bytes \<Rightarrow> nat list \<Rightarrow> file_meta_data list list run" where
  "overlapping_levels ie v ik ukey [] = Some []"
| "overlapping_levels ie v ik ukey (level # levels) =
     do { files \<leftarrow> index (v_files v) level;
          fs \<leftarrow> overlapping_level ie (v_user_cmp v) ik ukey files;
          rest \<leftarrow> overlapping_levels ie v ik ukey levels;
          Some (fs # rest) }"

definition get_overlapping :: "int_codec \<Rightarrow> version \<Rightarrow> bytes \<Rightarrow> file_meta_data list list run" where
  "get_overlapping ie v ik =
     do { ukey \<leftarrow> user_part ie ik;
          files \<leftarrow> index (v_files v) 0;
          level0 \<leftarrow> overlapping_level0 ie (v_user_cmp v) ukey files;
          rest \<leftarrow> overlapping_levels ie v ik ukey [1..<NUM_LEVELS];
          Some (newest_first level0 # rest) }"

text \<open>The loop over the files of a level: an answer, or \<open>None\<close> to go on with the next level.\<close>

fun get_in_files ::
    "int_codec \<Rightarrow> comparator \<Rightarrow> table_get \<Rightarrow> bytes \<Rightarrow> bytes \<Rightarrow> nat \<Rightarrow> file_meta_data list \<Rightarrow> file_meta_data option \<Rightarrow>
      get_stats \<Rightarrow> ((bytes \<times> get_stats) option option \<times> get_stats) run" where
  "get_in_files ie ucmp tget ik ukey level [] last_read stats = Some (None, stats)"
| "get_in_files ie ucmp tget ik ukey level (f # fs) last_read stats =
     (let stats = (if last_read \<noteq> None \<and> gs_file stats = None then \<lparr>gs_file = last_read, gs_level = level\<rparr> else stats)
      in do { r \<leftarrow> tget (fnum f) ik;
              case r of
                Inr (Some (k, val)) \<Rightarrow>
                  do { (typ, _, foundkey) \<leftarrow> parse_internal_key ie k;
                       same \<leftarrow> (if typ = TypeValue then do { c \<leftarrow> cmp ucmp foundkey ukey; Some (c = Equal) } else Some False);
                       if same then Some (Some (Some (val, stats)), stats)
                       else if typ = TypeDeletion then Some (Some None, stats)
                       else get_in_files ie ucmp tget ik ukey level fs (Some f) stats }
              | _ \<Rightarrow> get_in_files ie ucmp tget ik ukey level fs (Some f) stats })"

fun get_in_levels ::
    "int_codec \<Rightarrow> comparator \<Rightarrow> table_get \<Rightarrow> bytes \<Rightarrow> bytes \<Rightarrow> nat \<Rightarrow> file_meta_data list list \<Rightarrow> get_stats \<Rightarrow>
      (bytes \<times> get_stats) option run" where
  "get_in_levels ie ucmp tget ik ukey level [] stats = Some None"
| "get_in_levels ie ucmp tget ik ukey level (fs # rest) stats =
     do { (r, stats) \<leftarrow> get_in_files ie ucmp tget ik ukey level fs None stats;
          case r of Some ans \<Rightarrow> Some ans
          | None \<Rightarrow> get_in_levels ie ucmp tget ik ukey (level + 1) rest stats }"

definition version_get :: "int_codec \<Rightarrow> table_get \<Rightarrow> version \<Rightarrow> bytes \<Rightarrow> (bytes \<times> get_stats) option result run" where
  "version_get ie tget v ik =
     do { levels \<leftarrow> get_overlapping ie v ik;
          ukey \<leftarrow> user_part ie ik;
          ans \<leftarrow> get_in_levels ie (v_user_cmp v) tget ik ukey 0 levels \<lparr>gs_file = None, gs_level = 0\<rparr>;
          Some (Inr ans) }"

definition set_allowed_seeks :: "version \<Rightarrow> file_num \<Rightarrow> nat \<Rightarrow> version" where
  "set_allowed_seeks v num n =
     v\<lparr>v_files := map (map (\<lambda>f. if fnum f = num then f\<lparr>allowed_seeks := n\<rparr> else f)) (v_files v)\<rparr>"

definition update_stats :: "version \<Rightarrow> get_stats \<Rightarrow> bool \<times> version" where
  "update_stats v stats =
     (case gs_file stats of
        None \<Rightarrow> (False, v)
      | Some f \<Rightarrow>
          if allowed_seeks f \<le> 1 \<and> v_file_to_compact v = None
          then (True, v\<lparr>v_file_to_compact := Some f, v_file_to_compact_lvl := gs_level stats\<rparr>)
          else if allowed_seeks f > 0 then (False, set_allowed_seeks v (fnum f) (allowed_seeks f - 1))
          else (False, v))"

fun first_overlap :: "nat \<Rightarrow> file_meta_data list list \<Rightarrow> (file_meta_data \<times> nat) option" where
  "first_overlap i [] = None"
| "first_overlap i (level # levels) = (case level of [] \<Rightarrow> first_overlap (i + 1) levels | f # _ \<Rightarrow> Some (f, i))"

definition record_read_sample :: "int_codec \<Rightarrow> version \<Rightarrow> bytes \<Rightarrow> (bool \<times> version) run" where
  "record_read_sample ie v key =
     do { levels \<leftarrow> get_overlapping ie v key;
          let contained_in = sum_list (map length levels);
          Some (if contained_in > 1
                then update_stats v (case first_overlap 0 levels of
                    None \<Rightarrow> \<lparr>gs_file = None, gs_level = 0\<rparr> | Some (f, i) \<Rightarrow> \<lparr>gs_file = Some f, gs_level = i\<rparr>)
                else (False, v)) }"


section \<open>The iterator over the files of a level\<close>

record 't version_iter =
  vi_files :: "file_meta_data list"
  vi_cmp :: comparator
  vi_current :: "'t option"
  vi_current_ix :: nat

definition new_version_iter :: "int_codec \<Rightarrow> file_meta_data list \<Rightarrow> comparator \<Rightarrow> 't version_iter" where
  "new_version_iter ie files ucmp = \<lparr>vi_files = files, vi_cmp = InternalKeyCmp ie ucmp, vi_current = None, vi_current_ix = 0\<rparr>"

partial_function (option) vi_advance ::
    "(file_num \<Rightarrow> 't result) \<Rightarrow> 't iter_ops \<Rightarrow> 't version_iter \<Rightarrow> (bool \<times> 't version_iter) option" where
  "vi_advance open_table ops it =
     ensure (vi_files it \<noteq> []) \<bind> (\<lambda>_.
     (case vi_current it of
        None \<Rightarrow> Some (None, it)
      | Some t \<Rightarrow> it_advance ops t \<bind> (\<lambda>(moved, t).
          Some (if moved then (Some True, it\<lparr>vi_current := Some t\<rparr>)
                else if vi_current_ix it \<ge> length (vi_files it) - 1 then (Some False, it\<lparr>vi_current := Some t\<rparr>)
                else (None, it\<lparr>vi_current := Some t, vi_current_ix := vi_current_ix it + 1\<rparr>)))) \<bind> (\<lambda>(r, it).
     case r of
       Some b \<Rightarrow> Some (b, it)
     | None \<Rightarrow> index (vi_files it) (vi_current_ix it) \<bind> (\<lambda>f.
         case open_table (fnum f) of
           Inl _ \<Rightarrow> Some (False, it)
         | Inr t \<Rightarrow> vi_advance open_table ops (it\<lparr>vi_current := Some t\<rparr>))))"

definition vi_current_entry :: "'t iter_ops \<Rightarrow> 't version_iter \<Rightarrow> (bytes \<times> bytes) option run" where
  "vi_current_entry ops it = (case vi_current it of None \<Rightarrow> Some None | Some t \<Rightarrow> it_current ops t)"

definition vi_reset :: "'t version_iter \<Rightarrow> 't version_iter" where
  "vi_reset it = it\<lparr>vi_current := None, vi_current_ix := 0\<rparr>"

definition vi_valid :: "'t iter_ops \<Rightarrow> 't version_iter \<Rightarrow> bool" where
  "vi_valid ops it = (case vi_current it of None \<Rightarrow> False | Some t \<Rightarrow> it_valid ops t)"

definition vi_seek :: "(file_num \<Rightarrow> 't result) \<Rightarrow> 't iter_ops \<Rightarrow> bytes \<Rightarrow> 't version_iter \<Rightarrow> 't version_iter run" where
  "vi_seek open_table ops key it =
     do { r \<leftarrow> find_file (vi_cmp it) (vi_files it) key;
          case r of
            None \<Rightarrow> Some (vi_reset it)
          | Some ix \<Rightarrow>
              do { f \<leftarrow> index (vi_files it) ix;
                   case open_table (fnum f) of
                     Inl _ \<Rightarrow> Some (vi_reset it)
                   | Inr t \<Rightarrow> do { t \<leftarrow> it_seek ops key t;
                                  Some (if it_valid ops t then it\<lparr>vi_current_ix := ix, vi_current := Some t\<rparr>
                                        else vi_reset it) } } }"

definition vi_prev :: "(file_num \<Rightarrow> 't result) \<Rightarrow> 't iter_ops \<Rightarrow> 't version_iter \<Rightarrow> (bool \<times> 't version_iter) run" where
  "vi_prev open_table ops it =
     (case vi_current it of
        None \<Rightarrow> Some (False, vi_reset it)
      | Some t \<Rightarrow>
          do { (moved, t) \<leftarrow> it_prev ops t;
               let it = it\<lparr>vi_current := Some t\<rparr>;
               if moved then Some (True, it)
               else if vi_current_ix it > 0 then
                 do { f \<leftarrow> index (vi_files it) (vi_current_ix it - 1);
                      case open_table (fnum f) of
                        Inl _ \<Rightarrow> Some (False, vi_reset it)
                      | Inr t \<Rightarrow> do { t \<leftarrow> it_seek ops (largest f) t;
                                     ensure (it_valid ops t);
                                     Some (True, it\<lparr>vi_current_ix := vi_current_ix it - 1, vi_current := Some t\<rparr>) } }
               else Some (False, vi_reset it) })"

definition version_iter_ops :: "(file_num \<Rightarrow> 't result) \<Rightarrow> 't iter_ops \<Rightarrow> 't version_iter iter_ops" where
  "version_iter_ops open_table ops =
     \<lparr>it_advance = vi_advance open_table ops, it_current = vi_current_entry ops, it_seek = vi_seek open_table ops,
      it_reset = (\<lambda>it. Some (vi_reset it)), it_valid = vi_valid ops, it_prev = vi_prev open_table ops\<rparr>"

text \<open>
  \<open>new_iters\<close>: an iterator over every table of level 0 and one over the files of each other level.
  The boxed iterators of the code are a sum of the two kinds of iterators.
\<close>

definition new_concat_iter :: "int_codec \<Rightarrow> version \<Rightarrow> nat \<Rightarrow> 't version_iter run" where
  "new_concat_iter ie v level = do { fs \<leftarrow> index (v_files v) level; Some (new_version_iter ie fs (v_user_cmp v)) }"

fun level0_iters :: "(file_num \<Rightarrow> 't result) \<Rightarrow> file_meta_data list \<Rightarrow> ('t + 't version_iter) list result" where
  "level0_iters open_table [] = Inr []"
| "level0_iters open_table (f # fs) =
     (case open_table (fnum f) of
        Inl e \<Rightarrow> Inl e
      | Inr t \<Rightarrow> (case level0_iters open_table fs of Inl e \<Rightarrow> Inl e | Inr its \<Rightarrow> Inr (Inl t # its)))"

fun level_iters :: "int_codec \<Rightarrow> version \<Rightarrow> nat list \<Rightarrow> ('t + 't version_iter) list run" where
  "level_iters ie v [] = Some []"
| "level_iters ie v (l # ls) =
     do { fs \<leftarrow> index (v_files v) l;
          its \<leftarrow> level_iters ie v ls;
          if fs = [] then Some its
          else do { it \<leftarrow> new_concat_iter ie v l; Some (Inr it # its) } }"

definition new_iters :: "int_codec \<Rightarrow> (file_num \<Rightarrow> 't result) \<Rightarrow> version \<Rightarrow> ('t + 't version_iter) list result run" where
  "new_iters ie open_table v =
     do { fs \<leftarrow> index (v_files v) 0;
          case level0_iters open_table fs of
            Inl e \<Rightarrow> Some (Inl e)
          | Inr its \<Rightarrow> do { more \<leftarrow> level_iters ie v [1..<NUM_LEVELS]; Some (Inr (its @ more)) } }"

end
