(* ===== verification/Version_Search.thy ===== *)
theory Version_Search
  imports Version
begin

text \<open>
  The searches for files of a version: the binary search of \<open>find_file\<close>, the two tests whether some
  file overlaps a range of user keys, and \<open>overlapping_inputs\<close>, the choice of the files of a
  compaction.
\<close>

section \<open>Files\<close>

abbreviation usmall :: "file_meta_data \<Rightarrow> bytes" where "usmall f \<equiv> ikey_user (smallest f)"
abbreviation ularge :: "file_meta_data \<Rightarrow> bytes" where "ularge f \<equiv> ikey_user (largest f)"

definition file_wf :: "comparator \<Rightarrow> file_meta_data \<Rightarrow> bool" where
  "file_wf U f \<longleftrightarrow> smallest f \<in> internal_keys \<and> largest f \<in> internal_keys \<and> cmp_le (cmp U) (usmall f) (ularge f)"

lemma in_internal_keys [code_unfold]: "k \<in> internal_keys \<longleftrightarrow> 8 \<le> length k"
  by (simp add: internal_keys_def)

lemma user_part_eq: "k \<in> internal_keys \<Longrightarrow> user_part ie k = Some (ikey_user k)"
  by (simp add: user_part_def internal_keys_def parse_internal_key_eq)

lemma file_wf_parts:
  "file_wf U f \<Longrightarrow> user_part ie (smallest f) = Some (usmall f)"
  "file_wf U f \<Longrightarrow> user_part ie (largest f) = Some (ularge f)"
  by (simp_all add: file_wf_def user_part_eq)

text \<open>
  A binary search for the first index from which on a predicate holds. Everything the search needs
  of the files is that the comparison at an index decides the predicate.
\<close>

lemma find_file_loop_ok:
  assumes "\<And>i. i < length files \<Longrightarrow> \<exists>c. cmp icmp (largest (files ! i)) key = Some c \<and> (c = Less \<longleftrightarrow> \<not> P i)"
    "\<And>i j. i \<le> j \<Longrightarrow> j < length files \<Longrightarrow> P i \<Longrightarrow> P j"
    "left \<le> right" "right \<le> length files" "\<forall>i < left. \<not> P i" "\<forall>i. right \<le> i \<and> i < length files \<longrightarrow> P i"
  shows "\<exists>r. find_file_loop icmp files key left right = Some r \<and> r \<le> length files \<and> (\<forall>i < r. \<not> P i) \<and>
    (\<forall>i. r \<le> i \<and> i < length files \<longrightarrow> P i)"
  using assms(3-6)
proof (induction "right - left" arbitrary: left right rule: less_induct)
  case less
  show ?case
  proof (cases "left < right")
    case False
    then show ?thesis using less.prems by (subst find_file_loop.simps) auto
  next
    case True
    let ?m = "(left + right) div 2"
    have m: "left \<le> ?m" "?m < right" "?m < length files" using True less.prems(2) by auto
    obtain c where c: "cmp icmp (largest (files ! ?m)) key = Some c" "c = Less \<longleftrightarrow> \<not> P ?m"
      using assms(1) [OF m(3)] by blast
    show ?thesis
    proof (cases "c = Less")
      case True
      then have "\<forall>i < ?m + 1. \<not> P i" using c(2) assms(2) [of _ ?m] m(3) by (auto simp: less_Suc_eq_le)
      with less.hyps [of right "?m + 1"] less.prems m c(1) True \<open>left < right\<close> show ?thesis
        by (subst find_file_loop.simps) (simp add: index_def)
    next
      case False
      then have "\<forall>i. ?m \<le> i \<and> i < length files \<longrightarrow> P i" using c(2) assms(2) [of ?m] by blast
      with less.hyps [of ?m left] less.prems m c(1) False \<open>left < right\<close> show ?thesis
        by (subst find_file_loop.simps) (simp add: index_def)
    qed
  qed
qed

text \<open>\<open>find_file\<close> on files in the order of their largest keys.\<close>

lemma find_file_ok:
  assumes "cmp_order (cmp icmp) K" "\<forall>f \<in> set files. largest f \<in> K" "key \<in> K"
    "sorted_wrt (\<lambda>f g. cmp_le (cmp icmp) (largest f) (largest g)) files"
  shows "find_file icmp files key = Some (pos_find (\<lambda>f. \<not> cmp_lt (cmp icmp) (largest f) key) files)"
proof -
  let ?P = "\<lambda>i. \<not> cmp_lt (cmp icmp) (largest (files ! i)) key"
  have K: "largest (files ! i) \<in> K" if "i < length files" for i using assms(2) that by simp
  have dec: "\<exists>c. cmp icmp (largest (files ! i)) key = Some c \<and> (c = Less \<longleftrightarrow> \<not> ?P i)" if "i < length files" for i
    using cmp_order.cmp_total [OF assms(1) K [OF that] assms(3)] by (auto simp: cmp_lt_def)
  have up: "?P j" if "i \<le> j" "j < length files" "?P i" for i j
  proof (cases "i = j")
    case False
    with that have "cmp_le (cmp icmp) (largest (files ! i)) (largest (files ! j))"
      using assms(4) by (simp add: sorted_wrt_iff_nth_less)
    then show ?thesis
      using cmp_order.le_lt_trans [OF assms(1) K K assms(3)] that by (meson le_less_trans)
  qed (use that in simp)
  have "\<exists>r. find_file_loop icmp files key 0 (length files) = Some r \<and> r \<le> length files \<and>
      (\<forall>i < r. \<not> ?P i) \<and> (\<forall>i. r \<le> i \<and> i < length files \<longrightarrow> ?P i)"
    by (rule find_file_loop_ok) (use dec up in auto)
  then obtain r where r: "find_file_loop icmp files key 0 (length files) = Some r" "r \<le> length files"
      "\<forall>i < r. \<not> ?P i" "\<forall>i. r \<le> i \<and> i < length files \<longrightarrow> ?P i"
    by blast
  have "length (takeWhile (\<lambda>f. cmp_lt (cmp icmp) (largest f) key) files) = r"
  proof (cases "r < length files")
    case True
    then have "takeWhile (\<lambda>f. cmp_lt (cmp icmp) (largest f) key) files = take r files"
      using r(3,4) by (intro takeWhile_eq_take_P_nth) auto
    then show ?thesis using True by simp
  next
    case False
    then show ?thesis using r(2,3) by (subst takeWhile_eq_all_conv [THEN iffD2]) (auto simp: in_set_conv_nth)
  qed
  with r(1) show ?thesis by (simp add: find_file_def pos_find_def Let_def)
qed


section \<open>Overlapping a range\<close>

text \<open>The file has keys between two user keys.\<close>

definition file_overlaps :: "comparator \<Rightarrow> file_meta_data \<Rightarrow> bytes \<Rightarrow> bytes \<Rightarrow> bool" where
  "file_overlaps U f a b \<longleftrightarrow> cmp_le (cmp U) a (ularge f) \<and> cmp_le (cmp U) (usmall f) b"

context user_cmp
begin

lemma not_Greater: "cmp U a b = Some c \<Longrightarrow> c = Greater \<longleftrightarrow> cmp_lt (cmp U) b a"
  using user.Greater_iff [of a b] by simp

lemma le_not_lt: "cmp_le (cmp U) a b \<longleftrightarrow> \<not> cmp_lt (cmp U) b a"
  using user.not_lt [of b a] by simp

lemma key_is_after_file_eq:
  assumes "file_wf U f" "a \<noteq> []"
  shows "key_is_after_file ie U a f = Some (\<not> cmp_le (cmp U) a (ularge f))"
  using assms user_total [of a "ularge f"] not_Greater [of a "ularge f"]
  by (auto simp: key_is_after_file_def cmp_inner_def file_wf_parts le_not_lt)

lemma key_is_before_file_eq:
  assumes "file_wf U f" "b \<noteq> []"
  shows "key_is_before_file ie U b f = Some (\<not> cmp_le (cmp U) (usmall f) b)"
  using assms user_total [of b "usmall f"]
  by (auto simp: key_is_before_file_def cmp_inner_def file_wf_parts le_not_lt cmp_lt_def)

lemma some_file_overlaps_range_eq:
  assumes "\<forall>f \<in> set files. file_wf U f" "a \<noteq> []" "b \<noteq> []"
  shows "some_file_overlaps_range ie U files a b = Some (\<exists>f \<in> set files. file_overlaps U f a b)"
  using assms(1)
proof (induction files)
  case (Cons f fs)
  then show ?case
    using key_is_after_file_eq [of f a ie] key_is_before_file_eq [of f b ie] assms(2,3)
    by (auto simp: file_overlaps_def)
qed simp

text \<open>Files that are sorted and disjoint, as on every level but the first.\<close>

end

definition level_sorted :: "int_codec \<Rightarrow> comparator \<Rightarrow> file_meta_data list \<Rightarrow> bool" where
  "level_sorted ie U files \<longleftrightarrow> (\<forall>f \<in> set files. file_wf U f) \<and>
     sorted_wrt (\<lambda>f g. cmp_lt (cmp_internal_key ie U) (largest f) (smallest g)) files \<and>
     (\<forall>f \<in> set files. cmp_le (cmp_internal_key ie U) (smallest f) (largest f))"

lemma level_sorted_largest:
  assumes "cmp_order (cmp U) UNIV" "level_sorted ie U files"
  shows "sorted_wrt (\<lambda>f g. cmp_le (cmp (InternalKeyCmp ie U)) (largest f) (largest g)) files"
proof -
  note ord = internal_key_order [OF assms(1), of ie]
  have "cmp_le (cmp (InternalKeyCmp ie U)) (largest f) (largest g)"
    if "f \<in> set files" "g \<in> set files" "cmp_lt (cmp_internal_key ie U) (largest f) (smallest g)" for f g
    using cmp_order.lt_imp_le [OF ord] cmp_order.lt_le_trans [OF ord, of "largest f" "smallest g" "largest g"] assms(2) that
    by (auto simp: level_sorted_def file_wf_def)
  moreover have "sorted_wrt (\<lambda>f g. cmp_lt (cmp_internal_key ie U) (largest f) (smallest g)) files"
    using assms(2) by (simp add: level_sorted_def)
  ultimately show ?thesis by (rule sorted_wrt_mono_rel)
qed

lemma overlaps_disjoint_eq:
  assumes "integer_encoding ie" "cmp_order (cmp U) UNIV" "level_sorted ie U files" "a \<noteq> []" "b \<noteq> []"
    "length a + 8 < 2 ^ 64"
  shows "some_file_overlaps_range_disjoint ie U files a b = Some (\<exists>f \<in> set files. file_overlaps U f a b)"
proof -
  note ord = internal_key_order [OF assms(2), of ie]
  have ucmp: "user_cmp U" using assms(2) by (simp add: user_cmp_def)
  note le = user_cmp.le_not_lt [OF ucmp]
  let ?k = "ikey ie a MAX_SEQUENCE_NUMBER TypeValue" and ?icmp = "InternalKeyCmp ie U"
  let ?p = "pos_find (\<lambda>f. \<not> cmp_lt (cmp ?icmp) (largest f) ?k) files"
  have wf: "\<forall>f \<in> set files. file_wf U f" using assms(3) by (simp add: level_sorted_def)
  obtain lk where lk: "lookup_key_new ie a MAX_SEQUENCE_NUMBER = Some lk" "internal_key lk = Some ?k"
    using integer_encoding.internal_key_new(2) [OF assms(1,6)] by (auto simp: bind_eq_Some_conv)
  have k: "?k \<in> internal_keys" by (rule integer_encoding.ikey_facts(3) [OF assms(1)])
  have find: "find_file ?icmp files ?k = Some ?p"
    by (rule find_file_ok [OF ord _ k level_sorted_largest [OF assms(2,3)]]) (use wf in \<open>simp add: file_wf_def\<close>)
  have lt: "cmp_lt (cmp ?icmp) (largest f) ?k \<longleftrightarrow> cmp_lt (cmp U) (ularge f) a" if "f \<in> set files" for f
    using integer_encoding.cmp_ikey_left(2) [OF assms(1), of MAX_SEQUENCE_NUMBER "largest f" U a TypeValue]
      user_cmp.key_seq_cmp_cases(1) [OF ucmp] ikey_seq_bound [of ie "largest f"] wf that
    by (auto simp: cmp_lt_def file_wf_def internal_keys_def)
  show ?thesis
  proof (cases ?p)
    case None
    then have "\<forall>f \<in> set files. cmp_lt (cmp U) (ularge f) a" using lt by (simp add: pos_find_None)
    then have "\<not> (\<exists>f \<in> set files. file_overlaps U f a b)" by (auto simp: file_overlaps_def le)
    then show ?thesis using lk find None by (simp add: some_file_overlaps_range_disjoint_def)
  next
    case (Some i)
    note i = pos_find_Some [OF Some]
    let ?f = "files ! i"
    have f: "?f \<in> set files" "file_wf U ?f" "cmp_le (cmp U) a (ularge ?f)" using i(1,2) wf lt by (auto simp: le)
    have "cmp_le (cmp U) (usmall ?f) b" if g: "g \<in> set files" "file_overlaps U g a b" for g
    proof -
      obtain j where j: "j < length files" "g = files ! j" using g(1) by (auto simp: in_set_conv_nth)
      have "i \<le> j" using i(3) g j lt [of g] by (auto simp: file_overlaps_def le not_less [symmetric])
      then have "cmp_le (cmp U) (usmall ?f) (usmall g)"
      proof (cases "i = j")
        case False
        with \<open>i \<le> j\<close> have "cmp_lt (cmp_internal_key ie U) (largest ?f) (smallest g)"
          using assms(3) j by (simp add: level_sorted_def sorted_wrt_iff_nth_less)
        moreover have "largest ?f \<in> internal_keys" "smallest g \<in> internal_keys" using f(2) wf g(1) by (auto simp: file_wf_def)
        ultimately have "\<not> cmp_lt (cmp U) (usmall g) (ularge ?f)"
          using user_cmp.key_seq_cmp_cases(1) [OF ucmp] user_cmp.not_Greater [OF ucmp, of "ularge ?f" "usmall g"]
          by (auto simp: cmp_lt_def cmp_internal_key_eq)
        then show ?thesis
          using f(2) cmp_order.le_trans [OF assms(2), of "usmall ?f" "ularge ?f" "usmall g"] by (simp add: file_wf_def le)
      qed (use j cmp_order.le_refl [OF assms(2)] in simp)
      then show ?thesis using g(2) cmp_order.le_trans [OF assms(2), of "usmall ?f" "usmall g" b] by (simp add: file_overlaps_def)
    qed
    then have "(\<exists>f \<in> set files. file_overlaps U f a b) \<longleftrightarrow> cmp_le (cmp U) (usmall ?f) b"
      using f by (auto simp: file_overlaps_def)
    then show ?thesis
      using lk find Some i(1) user_cmp.key_is_before_file_eq [OF ucmp f(2) assms(5), of ie]
      by (auto simp: some_file_overlaps_range_disjoint_def index_def)
  qed
qed


section \<open>The inputs of a compaction\<close>

text \<open>The file is not outside a range; an empty user key is no bound.\<close>

definition in_range :: "comparator \<Rightarrow> bytes \<Rightarrow> bytes \<Rightarrow> file_meta_data \<Rightarrow> bool" where
  "in_range U b e f \<longleftrightarrow> (b = [] \<or> \<not> cmp_lt (cmp U) (ularge f) b) \<and> (e = [] \<or> \<not> cmp_lt (cmp U) e (usmall f))"

definition sticks_out_below :: "comparator \<Rightarrow> bytes \<Rightarrow> file_meta_data \<Rightarrow> bool" where
  "sticks_out_below U b f \<longleftrightarrow> b \<noteq> [] \<and> cmp_lt (cmp U) (usmall f) b"

definition sticks_out_above :: "comparator \<Rightarrow> bytes \<Rightarrow> file_meta_data \<Rightarrow> bool" where
  "sticks_out_above U e f \<longleftrightarrow> e \<noteq> [] \<and> cmp_lt (cmp U) e (ularge f)"

text \<open>How many bounds of files lie outside a range: what decreases when the search starts again.\<close>

definition out_of_range :: "comparator \<Rightarrow> file_meta_data list \<Rightarrow> bytes \<Rightarrow> bytes \<Rightarrow> nat" where
  "out_of_range U files b e =
     length (filter (sticks_out_below U b) files) + length (filter (sticks_out_above U e) files)"

context user_cmp
begin

text \<open>One pass: it either asks for a wider range, on level 0 only, or returns the files in the range.\<close>

lemma do_search_step:
  assumes "file_wf U f"
  shows "do_search ie U level b e (f # fs) inputs =
    (if \<not> in_range U b e f then do_search ie U level b e fs inputs
     else if level = 0 \<and> sticks_out_below U b f then Some (Some (usmall f, e), inputs @ [f])
     else if level = 0 \<and> sticks_out_above U e f then Some (Some (b, ularge f), inputs @ [f])
     else do_search ie U level b e fs (inputs @ [f]))"
proof -
  obtain r1 r2 r3 r4 where r: "cmp U (ularge f) b = Some r1" "cmp U (usmall f) e = Some r2"
      "cmp U (usmall f) b = Some r3" "cmp U (ularge f) e = Some r4"
    using user_total by metis
  have "cmp_lt (cmp U) (ularge f) b \<longleftrightarrow> r1 = Less" "cmp_lt (cmp U) e (usmall f) \<longleftrightarrow> r2 = Greater"
      "cmp_lt (cmp U) (usmall f) b \<longleftrightarrow> r3 = Less" "cmp_lt (cmp U) e (ularge f) \<longleftrightarrow> r4 = Greater"
    using r not_Greater [OF r(2)] not_Greater [OF r(4)] by (simp_all add: cmp_lt_def)
  with r assms show ?thesis
    by (auto simp: file_wf_parts in_range_def sticks_out_below_def sticks_out_above_def Let_def)
qed

lemma do_search_cases:
  assumes "\<forall>f \<in> set fs. file_wf U f"
  shows "(do_search ie U level b e fs inputs = Some (None, inputs @ filter (in_range U b e) fs) \<and>
      (level = 0 \<longrightarrow> (\<forall>f \<in> set fs. in_range U b e f \<longrightarrow> \<not> sticks_out_below U b f \<and> \<not> sticks_out_above U e f))) \<or>
    (level = 0 \<and> (\<exists>f \<in> set fs. \<exists>out. in_range U b e f \<and>
      (sticks_out_below U b f \<and> do_search ie U level b e fs inputs = Some (Some (usmall f, e), out) \<or>
       sticks_out_above U e f \<and> do_search ie U level b e fs inputs = Some (Some (b, ularge f), out))))"
  using assms
proof (induction fs arbitrary: inputs)
  case (Cons f fs)
  have f: "file_wf U f" and fs: "\<forall>f \<in> set fs. file_wf U f" using Cons.prems by auto
  show ?case
    using Cons.IH [OF fs, of inputs] Cons.IH [OF fs, of "inputs @ [f]"]
    unfolding do_search_step [OF f] by (auto simp del: do_search.simps)
qed simp

text \<open>Every wider range leaves fewer files that stick out of it, so the search ends.\<close>

lemma filter_shorter:
  assumes "\<forall>x \<in> set xs. P x \<longrightarrow> Q x" "x \<in> set xs" "Q x" "\<not> P x"
  shows "length (filter P xs) < length (filter Q xs)"
proof -
  have "filter P xs = filter P (filter Q xs)" using assms(1) by (simp add: conj_commute cong: filter_cong) (metis (mono_tags, lifting) filter_cong)
  moreover have "length (filter P (filter Q xs)) < length (filter Q xs)"
    using assms(2-4) by (intro length_filter_less) auto
  ultimately show ?thesis by simp
qed

lemma widen_below:
  assumes "sticks_out_below U b f" "f \<in> set files"
  shows "out_of_range U files (usmall f) e < out_of_range U files b e" "in_range U b e g \<Longrightarrow> in_range U (usmall f) e g"
proof -
  have lt: "cmp_lt (cmp U) (usmall f) b" "b \<noteq> []" using assms(1) by (auto simp: sticks_out_below_def)
  have "length (filter (sticks_out_below U (usmall f)) files) < length (filter (sticks_out_below U b) files)"
    using assms lt user.lt_trans [OF UNIV_I UNIV_I UNIV_I _ lt(1)] user.lt_irrefl [of "usmall f"]
    by (intro filter_shorter [of _ _ _ f]) (auto simp: sticks_out_below_def)
  then show "out_of_range U files (usmall f) e < out_of_range U files b e" by (simp add: out_of_range_def)
  show "in_range U b e g \<Longrightarrow> in_range U (usmall f) e g"
    using lt user.lt_trans [OF UNIV_I UNIV_I UNIV_I _ lt(1), of "ularge g"] by (auto simp: in_range_def)
qed

lemma widen_above:
  assumes "sticks_out_above U e f" "f \<in> set files"
  shows "out_of_range U files b (ularge f) < out_of_range U files b e" "in_range U b e g \<Longrightarrow> in_range U b (ularge f) g"
proof -
  have lt: "cmp_lt (cmp U) e (ularge f)" "e \<noteq> []" using assms(1) by (auto simp: sticks_out_above_def)
  have "length (filter (sticks_out_above U (ularge f)) files) < length (filter (sticks_out_above U e) files)"
    using assms lt user.lt_trans [OF UNIV_I UNIV_I UNIV_I lt(1)] user.lt_irrefl [of "ularge f"]
    by (intro filter_shorter [of _ _ _ f]) (auto simp: sticks_out_above_def)
  then show "out_of_range U files b (ularge f) < out_of_range U files b e" by (simp add: out_of_range_def)
  show "in_range U b e g \<Longrightarrow> in_range U b (ularge f) g"
    using lt user.lt_trans [OF UNIV_I UNIV_I UNIV_I lt(1), of "usmall g"] by (auto simp: in_range_def)
qed

lemma search_loop_ok:
  assumes "\<forall>f \<in> set files. file_wf U f"
  shows "\<exists>b' e'. search_loop ie U level files b e = Some (filter (in_range U b' e') files) \<and>
    (\<forall>g. in_range U b e g \<longrightarrow> in_range U b' e' g) \<and> (level \<noteq> 0 \<longrightarrow> b' = b \<and> e' = e) \<and>
    (level = 0 \<longrightarrow> (\<forall>f \<in> set files. in_range U b' e' f \<longrightarrow> \<not> sticks_out_below U b' f \<and> \<not> sticks_out_above U e' f))"
proof (induction "out_of_range U files b e" arbitrary: b e rule: less_induct)
  case less
  from do_search_cases [OF assms, of ie level b e "[]"] show ?case
  proof (elim disjE conjE bexE exE)
    assume "do_search ie U level b e files [] = Some (None, [] @ filter (in_range U b e) files)"
      "level = 0 \<longrightarrow> (\<forall>f \<in> set files. in_range U b e f \<longrightarrow> \<not> sticks_out_below U b f \<and> \<not> sticks_out_above U e f)"
    then show ?thesis by (intro exI [of _ b] exI [of _ e], subst search_loop.simps) simp
  next
    fix f out
    assume f: "level = 0" "f \<in> set files" "sticks_out_below U b f"
      and s: "do_search ie U level b e files [] = Some (Some (usmall f, e), out)"
    have "search_loop ie U level files b e = search_loop ie U level files (usmall f) e"
      using s by (subst search_loop.simps) simp
    with less.hyps [OF widen_below(1) [OF f(3,2)]] widen_below(2) [OF f(3,2)] f(1) show ?thesis by simp blast
  next
    fix f out
    assume f: "level = 0" "f \<in> set files" "sticks_out_above U e f"
      and s: "do_search ie U level b e files [] = Some (Some (b, ularge f), out)"
    have "search_loop ie U level files b e = search_loop ie U level files b (ularge f)"
      using s by (subst search_loop.simps) simp
    with less.hyps [OF widen_above(1) [OF f(3,2)]] widen_above(2) [OF f(3,2)] f(1) show ?thesis by simp blast
  qed
qed

end

text \<open>Two files that share user keys.\<close>

definition files_overlap :: "comparator \<Rightarrow> file_meta_data \<Rightarrow> file_meta_data \<Rightarrow> bool" where
  "files_overlap U f g \<longleftrightarrow> \<not> cmp_lt (cmp U) (ularge f) (usmall g) \<and> \<not> cmp_lt (cmp U) (ularge g) (usmall f)"

context user_cmp
begin

lemma in_range_closed:
  assumes "in_range U b e f" "\<not> sticks_out_below U b f" "\<not> sticks_out_above U e f" "files_overlap U f g"
  shows "in_range U b e g"
proof -
  have "\<not> cmp_lt (cmp U) (ularge g) b" if "b \<noteq> []"
    using assms(2,4) that user.lt_le_trans [of "ularge g" b "usmall f"] le_not_lt [of b "usmall f"]
    by (auto simp: sticks_out_below_def files_overlap_def)
  moreover have "\<not> cmp_lt (cmp U) e (usmall g)" if "e \<noteq> []"
    using assms(3,4) that user.le_lt_trans [of "ularge f" e "usmall g"] le_not_lt [of "ularge f" e]
    by (auto simp: sticks_out_above_def files_overlap_def)
  ultimately show ?thesis by (auto simp: in_range_def)
qed

end


section \<open>Properties\<close>

text \<open>On files that are sorted and disjoint, as on all levels but level 0, the test by binary
  search and the test file by file whether some file has keys in a range of user keys give the same
  answer, and it is right.\<close>

lemma overlap_tests_agree:
  assumes "integer_encoding ie" "cmp_order (cmp U) UNIV" "level_sorted ie U files" "a \<noteq> []" "b \<noteq> []"
    "length a + 8 < 2 ^ 64"
  shows "some_file_overlaps_range_disjoint ie U files a b = Some (\<exists>f \<in> set files. file_overlaps U f a b) \<and>
    some_file_overlaps_range ie U files a b = Some (\<exists>f \<in> set files. file_overlaps U f a b)"
  using overlaps_disjoint_eq [OF assms] user_cmp.some_file_overlaps_range_eq [of U files a b ie] assms(2-5)
  by (auto simp: user_cmp_def level_sorted_def)

text \<open>A file with the user keys between two bytes, all of them values with sequence number 0.\<close>

definition sample_file :: "file_num \<Rightarrow> byte \<Rightarrow> byte \<Rightarrow> file_meta_data" where
  "sample_file n a b = \<lparr>allowed_seeks = 0, fnum = n, fsize = 100, smallest = [a, 1, 0, 0, 0, 0, 0, 0, 0],
     largest = [b, 1, 0, 0, 0, 0, 0, 0, 0]\<rparr>"

definition sample_version :: "file_meta_data list \<Rightarrow> file_meta_data list \<Rightarrow> version" where
  "sample_version l0 l1 = (version_new DefaultCmp)\<lparr>v_files := [l0, l1, [], [], [], [], []]\<rparr>"

text \<open>C18: The choice of the files of a level for a compaction always ends. It contains every file with
  keys between the two bounds; on levels other than 0 nothing else; and on level 0, where files
  overlap, it is closed: a file that shares keys with a chosen file is chosen as well.\<close>

theorem overlapping_inputs_closed:
  assumes "cmp_order (cmp (v_user_cmp v)) UNIV" "level < NUM_LEVELS" "length (v_files v) = NUM_LEVELS"
    "\<forall>f \<in> set (v_files v ! level). file_wf (v_user_cmp v) f" "b \<in> internal_keys" "e \<in> internal_keys"
    "ikey_user b \<noteq> []" "ikey_user e \<noteq> []"
  shows "\<exists>inputs. overlapping_inputs ie v level b e = Some inputs \<and> set inputs \<subseteq> set (v_files v ! level) \<and>
    (\<forall>f \<in> set (v_files v ! level). file_overlaps (v_user_cmp v) f (ikey_user b) (ikey_user e) \<longrightarrow> f \<in> set inputs) \<and>
    (if level = 0 then \<forall>f \<in> set inputs. \<forall>g \<in> set (v_files v ! level). files_overlap (v_user_cmp v) f g \<longrightarrow> g \<in> set inputs
     else \<forall>f \<in> set inputs. file_overlaps (v_user_cmp v) f (ikey_user b) (ikey_user e))"
proof -
  let ?U = "v_user_cmp v" and ?fs = "v_files v ! level"
  have u: "user_cmp ?U" using assms(1) by (simp add: user_cmp_def)
  have over: "in_range ?U (ikey_user b) (ikey_user e) f \<longleftrightarrow> file_overlaps ?U f (ikey_user b) (ikey_user e)" for f
    using assms(7,8) user_cmp.le_not_lt [OF u] by (simp add: in_range_def file_overlaps_def)
  obtain b' e' where s: "search_loop ie ?U level ?fs (ikey_user b) (ikey_user e) = Some (filter (in_range ?U b' e') ?fs)"
      "\<forall>g. in_range ?U (ikey_user b) (ikey_user e) g \<longrightarrow> in_range ?U b' e' g"
      "level \<noteq> 0 \<longrightarrow> b' = ikey_user b \<and> e' = ikey_user e"
      "level = 0 \<longrightarrow> (\<forall>f \<in> set ?fs. in_range ?U b' e' f \<longrightarrow> \<not> sticks_out_below ?U b' f \<and> \<not> sticks_out_above ?U e' f)"
    using user_cmp.search_loop_ok [OF u assms(4), of ie level "ikey_user b" "ikey_user e"] by blast
  have "overlapping_inputs ie v level b e = Some (filter (in_range ?U b' e') ?fs)"
    using s(1) assms(2,3,5,6) by (simp add: overlapping_inputs_def user_part_eq index_def)
  with s(2-4) over user_cmp.in_range_closed [OF u, of b' e'] show ?thesis
    by (intro exI [of _ "filter (in_range ?U b' e') ?fs"]) (cases "level = 0"; auto)
qed

theorem overlapping_inputs_closed_witness:
  "\<exists>inputs. overlapping_inputs wire_codec (sample_version [sample_file 1 1 4, sample_file 2 3 7, sample_file 3 8 9] []) 0
      [1, 1, 0, 0, 0, 0, 0, 0, 0] [2, 1, 0, 0, 0, 0, 0, 0, 0] = Some inputs \<and>
    sample_file 1 1 4 \<in> set inputs \<and> sample_file 2 3 7 \<in> set inputs"
proof -
  let ?v = "sample_version [sample_file 1 1 4, sample_file 2 3 7, sample_file 3 8 9] []"
  let ?b = "[1, 1, 0, 0, 0, 0, 0, 0, 0] :: bytes" and ?e = "[2, 1, 0, 0, 0, 0, 0, 0, 0] :: bytes"
  have fs: "v_files ?v ! 0 = [sample_file 1 1 4, sample_file 2 3 7, sample_file 3 8 9]" "v_user_cmp ?v = DefaultCmp"
    "length (v_files ?v) = NUM_LEVELS" "(0 :: nat) < NUM_LEVELS"
    by (simp_all add: sample_version_def version_new_def NUM_LEVELS_def)
  have wf: "\<forall>f \<in> set (v_files ?v ! 0). file_wf (v_user_cmp ?v) f" unfolding fs(1,2)
    by (simp add: file_wf_def in_internal_keys sample_file_def ikey_user_def) code_simp
  have k: "?b \<in> internal_keys" "?e \<in> internal_keys" "ikey_user ?b \<noteq> []" "ikey_user ?e \<noteq> []"
    by (simp_all add: internal_keys_def ikey_user_def)
  have o: "file_overlaps DefaultCmp (sample_file 1 1 4) (ikey_user ?b) (ikey_user ?e)"
    "files_overlap DefaultCmp (sample_file 1 1 4) (sample_file 2 3 7)" by code_simp+
  from overlapping_inputs_closed [of ?v 0, OF _ fs(4,3) wf k, of wire_codec] default_cmp.cmp_order_axioms o show ?thesis
    unfolding fs by simp blast
qed

text \<open>C35: \<open>overlap_in_level\<close> uses the two tests the wrong way round: the binary search, which needs
  disjoint files, for level 0. A range of keys inside a file of level 0 is therefore not seen when a
  smaller file follows, and a new table with these keys is placed on level 2, below the older keys
  of level 0.\<close>

theorem level0_overlap_missed:
  "file_overlaps DefaultCmp (sample_file 1 1 9) [6] [7] \<and>
   overlap_in_level wire_codec (sample_version [sample_file 1 1 9, sample_file 2 2 3] []) 0 [6] [7] = Some False \<and>
   pick_memtable_output_level wire_codec (sample_version [sample_file 1 1 9, sample_file 2 2 3] []) [6] [7] = Some 2"
proof (intro conjI)
  have c: "cmp DefaultCmp [3] [6] = Some Less" "cmp_le (cmp DefaultCmp) [1] [7]" "cmp_le (cmp DefaultCmp) [6] [9]" by code_simp+
  then show "file_overlaps DefaultCmp (sample_file 1 1 9) [6] [7]"
    by (simp add: file_overlaps_def sample_file_def ikey_user_def)
  let ?k = "ikey wire_codec [6] MAX_SEQUENCE_NUMBER TypeValue"
  have k: "lookup_key_new wire_codec [6] MAX_SEQUENCE_NUMBER \<bind> internal_key = Some ?k"
      "new_full wire_codec [7] 0 TypeDeletion \<bind> internal_key = Some (ikey wire_codec [7] 0 TypeDeletion)"
    by (simp_all add: wire.internal_key_new)
  have "[3, 1, 0, 0, 0, 0, 0, 0, 0] \<in> internal_keys" by (simp add: in_internal_keys)
  then have "cmp_internal_key wire_codec DefaultCmp [3, 1, 0, 0, 0, 0, 0, 0, 0] ?k = Some Less"
    using c(1) by (simp add: cmp_internal_key_eq wire.ikey_facts key_seq_cmp_def) (simp add: ikey_user_def)
  then have "find_file (InternalKeyCmp wire_codec DefaultCmp) [sample_file 1 1 9, sample_file 2 2 3] ?k = Some None"
    by (simp add: find_file_def find_file_loop.simps index_def sample_file_def)
  then show o: "overlap_in_level wire_codec (sample_version [sample_file 1 1 9, sample_file 2 2 3] []) 0 [6] [7] = Some False"
    using k(1) by (auto simp: overlap_in_level_def sample_version_def version_new_def NUM_LEVELS_def index_def
        some_file_overlaps_range_disjoint_def bind_eq_Some_conv)
  have "overlapping_inputs wire_codec (sample_version l0 []) l ?k (ikey wire_codec [7] 0 TypeDeletion) = Some []"
      "overlap_in_level wire_codec (sample_version l0 []) l [6] [7] = Some False"
    if "l \<in> {1, 2, 3}" for l l0
    using that by (auto simp: overlapping_inputs_def overlap_in_level_def sample_version_def NUM_LEVELS_def index_def
        user_part_eq wire.ikey_facts search_loop.simps)
  note empty = this [of 1] this [of 2] this [of 3]
  from k obtain s l where "lookup_key_new wire_codec [6] MAX_SEQUENCE_NUMBER = Some s" "internal_key s = Some ?k"
      "new_full wire_codec [7] 0 TypeDeletion = Some l" "internal_key l = Some (ikey wire_codec [7] 0 TypeDeletion)"
    by (auto simp: bind_eq_Some_conv)
  with o empty show "pick_memtable_output_level wire_codec (sample_version [sample_file 1 1 9, sample_file 2 2 3] []) [6] [7] = Some 2"
    by (simp add: pick_memtable_output_level_def pick_level_loop.simps NUM_LEVELS_def total_size_def numeral_3_eq_3 numeral_2_eq_2)
qed

end
