(* ===== verification/Version_Lookup.thy ===== *)
theory Version_Lookup
  imports Version_Search
begin

text \<open>
  Lookups in a version: \<open>Version::get\<close> returns the newest entry of the user key that is visible at
  the sequence number of the lookup key, over all files of all levels. What a version must satisfy,
  \<open>version_ok\<close>, is what compactions maintain: the files of a level are disjoint except on level 0, the
  bounds of a file are among its keys, and for one user key the entries of a lower level, and on level 0
  those of files with a higher number, are newer.
\<close>

section \<open>Entries of tables\<close>

type_synonym table_contents = "file_num \<Rightarrow> (bytes \<times> bytes) list"

text \<open>An entry for the user key of the lookup key, not newer than it.\<close>

definition visible :: "int_codec \<Rightarrow> comparator \<Rightarrow> bytes \<Rightarrow> bytes \<Rightarrow> bool" where
  "visible ie U ik k \<longleftrightarrow> cmp_eq (cmp U) (ikey_user k) (ikey_user ik) \<and> ikey_seq ie k \<le> ikey_seq ie ik"

text \<open>For every user key in two files, the entries of the first are newer.\<close>

definition newer_file :: "int_codec \<Rightarrow> comparator \<Rightarrow> table_contents \<Rightarrow> file_meta_data \<Rightarrow> file_meta_data \<Rightarrow> bool" where
  "newer_file ie U contents f g \<longleftrightarrow>
     (\<forall>k val k' val'. (k, val) \<in> set (contents (fnum f)) \<longrightarrow> (k', val') \<in> set (contents (fnum g)) \<longrightarrow>
        cmp_eq (cmp U) (ikey_user k) (ikey_user k') \<longrightarrow> ikey_seq ie k' \<le> ikey_seq ie k)"

text \<open>The bounds of a file are the bounds of its entries and its largest key is one of them.\<close>

definition file_covers :: "int_codec \<Rightarrow> comparator \<Rightarrow> table_contents \<Rightarrow> file_meta_data \<Rightarrow> bool" where
  "file_covers ie U contents f \<longleftrightarrow> file_wf U f \<and> largest f \<in> fst ` set (contents (fnum f)) \<and>
     (\<forall>k val. (k, val) \<in> set (contents (fnum f)) \<longrightarrow> k \<in> internal_keys \<and>
        cmp_le (cmp_internal_key ie U) (smallest f) k \<and> cmp_le (cmp_internal_key ie U) k (largest f))"

definition version_ok :: "int_codec \<Rightarrow> table_contents \<Rightarrow> version \<Rightarrow> bool" where
  "version_ok ie contents v \<longleftrightarrow> length (v_files v) = NUM_LEVELS \<and>
     (\<forall>fs \<in> set (v_files v). \<forall>f \<in> set fs. file_covers ie (v_user_cmp v) contents f) \<and>
     (\<forall>l. 0 < l \<and> l < NUM_LEVELS \<longrightarrow> level_sorted ie (v_user_cmp v) (v_files v ! l)) \<and>
     (\<forall>f \<in> set (v_files v ! 0). \<forall>g \<in> set (v_files v ! 0). fnum g < fnum f \<longrightarrow>
        newer_file ie (v_user_cmp v) contents f g) \<and> distinct (map fnum (v_files v ! 0)) \<and>
     sorted_wrt (\<lambda>fs gs. \<forall>f \<in> set fs. \<forall>g \<in> set gs. newer_file ie (v_user_cmp v) contents f g) (v_files v)"

text \<open>
  What a lookup in a table promises: the next entry of the table that is not before the key. It may
  return nothing, and it may fail, when there is no visible entry.
\<close>

definition table_finds :: "int_codec \<Rightarrow> comparator \<Rightarrow> table_contents \<Rightarrow> table_get \<Rightarrow> bytes \<Rightarrow> file_meta_data \<Rightarrow> bool" where
  "table_finds ie U contents tget ik f \<longleftrightarrow>
     (case tget (fnum f) ik of
        None \<Rightarrow> False
      | Some (Inr (Some (k, val))) \<Rightarrow> (k, val) \<in> set (contents (fnum f)) \<and> cmp_le (cmp_internal_key ie U) ik k \<and>
          (\<forall>k' val'. (k', val') \<in> set (contents (fnum f)) \<longrightarrow> cmp_le (cmp_internal_key ie U) ik k' \<longrightarrow> cmp_le (cmp_internal_key ie U) k k')
      | Some _ \<Rightarrow> \<forall>k val. (k, val) \<in> set (contents (fnum f)) \<longrightarrow> \<not> visible ie U ik k)"

text \<open>The entry after the key is no deletion of another user key.\<close>

definition own_deletions :: "int_codec \<Rightarrow> comparator \<Rightarrow> table_get \<Rightarrow> bytes \<Rightarrow> file_meta_data \<Rightarrow> bool" where
  "own_deletions ie U tget ik f \<longleftrightarrow>
     (case tget (fnum f) ik of
        Some (Inr (Some (k, val))) \<Rightarrow> ikey_type ie k = TypeDeletion \<longrightarrow> cmp_eq (cmp U) (ikey_user k) (ikey_user ik)
      | _ \<Rightarrow> True)"

text \<open>The newest visible entry of some files, and the answer it gives: no entry, a deletion or a value.\<close>

definition newest_visible ::
    "int_codec \<Rightarrow> comparator \<Rightarrow> table_contents \<Rightarrow> bytes \<Rightarrow> file_meta_data set \<Rightarrow> bytes \<Rightarrow> bytes \<Rightarrow> bool" where
  "newest_visible ie U contents ik fs k val \<longleftrightarrow>
     (\<exists>f \<in> fs. (k, val) \<in> set (contents (fnum f))) \<and> visible ie U ik k \<and>
     (\<forall>f \<in> fs. \<forall>k' val'. (k', val') \<in> set (contents (fnum f)) \<longrightarrow> visible ie U ik k' \<longrightarrow> ikey_seq ie k' \<le> ikey_seq ie k)"

definition none_visible :: "int_codec \<Rightarrow> comparator \<Rightarrow> table_contents \<Rightarrow> bytes \<Rightarrow> file_meta_data set \<Rightarrow> bool" where
  "none_visible ie U contents ik fs \<longleftrightarrow> (\<forall>f \<in> fs. \<forall>k val. (k, val) \<in> set (contents (fnum f)) \<longrightarrow> \<not> visible ie U ik k)"

definition entry_answer :: "int_codec \<Rightarrow> bytes \<Rightarrow> bytes \<Rightarrow> bytes option" where
  "entry_answer ie k val = (if ikey_type ie k = TypeValue then Some val else None)"

definition answers ::
    "int_codec \<Rightarrow> comparator \<Rightarrow> table_contents \<Rightarrow> bytes \<Rightarrow> file_meta_data set \<Rightarrow> bytes option option \<Rightarrow> bool" where
  "answers ie U contents ik fs r \<longleftrightarrow>
     (r = None \<and> none_visible ie U contents ik fs) \<or>
     (\<exists>k val. newest_visible ie U contents ik fs k val \<and> r = Some (entry_answer ie k val))"

lemma none_visible_Un [simp]:
  "none_visible ie U contents ik (A \<union> B) \<longleftrightarrow> none_visible ie U contents ik A \<and> none_visible ie U contents ik B"
  by (auto simp: none_visible_def)

text \<open>Files that come later and are older, and files without visible entries, do not change an answer.\<close>

lemma newest_visible_older:
  assumes "newest_visible ie U contents ik A k val" "\<forall>f \<in> A. \<forall>g \<in> B. newer_file ie U contents f g" "cmp_order (cmp U) UNIV"
  shows "newest_visible ie U contents ik (A \<union> B) k val"
proof -
  obtain f where f: "f \<in> A" "(k, val) \<in> set (contents (fnum f))" using assms(1) by (auto simp: newest_visible_def)
  have "ikey_seq ie k' \<le> ikey_seq ie k" if "g \<in> B" "(k', v') \<in> set (contents (fnum g))" "visible ie U ik k'" for g k' v'
  proof -
    have "newer_file ie U contents f g" using assms(2) f(1) that(1) by blast
    moreover have "cmp_eq (cmp U) (ikey_user k) (ikey_user k')"
      using assms(1) that(3) cmp_order.cmp_equal_cong [OF assms(3), of "ikey_user k'" "ikey_user ik" "ikey_user k"]
        cmp_order.cmp_equal_cong [OF assms(3), of "ikey_user k" "ikey_user ik" "ikey_user k'"]
        cmp_order.flipI [OF assms(3), of "ikey_user k'" "ikey_user ik"]
      by (simp add: newest_visible_def visible_def cmp_eq_def)
    ultimately show ?thesis using f(2) that(2) unfolding newer_file_def by blast
  qed
  with assms(1) show ?thesis unfolding newest_visible_def by blast
qed

lemma newest_visible_none:
  "none_visible ie U contents ik A \<Longrightarrow> newest_visible ie U contents ik B k val \<Longrightarrow> newest_visible ie U contents ik (A \<union> B) k val"
  unfolding none_visible_def newest_visible_def by blast

lemma answers_append:
  assumes "answers ie U contents ik A r" "cmp_order (cmp U) UNIV" "\<forall>f \<in> A. \<forall>g \<in> B. newer_file ie U contents f g"
    "r = None \<Longrightarrow> answers ie U contents ik B r'"
  shows "answers ie U contents ik (A \<union> B) (if r = None then r' else r)"
proof (cases r)
  case None
  then have "none_visible ie U contents ik A" "answers ie U contents ik B r'" using assms(1,4) by (auto simp: answers_def)
  then show ?thesis using None newest_visible_none [of ie U contents ik A B] by (auto simp: answers_def)
next
  case (Some a)
  then obtain k val where "newest_visible ie U contents ik A k val" "a = entry_answer ie k val"
    using assms(1) by (auto simp: answers_def)
  with newest_visible_older [OF this(1) assms(3,2)] Some show ?thesis by (auto simp: answers_def)
qed


section \<open>The loops over the files\<close>

definition lookup_files :: "int_codec \<Rightarrow> comparator \<Rightarrow> table_contents \<Rightarrow> table_get \<Rightarrow> bytes \<Rightarrow> file_meta_data set \<Rightarrow> bool" where
  "lookup_files ie U contents tget ik fs \<longleftrightarrow> (\<forall>f \<in> fs. table_finds ie U contents tget ik f \<and> own_deletions ie U tget ik f \<and>
     (\<forall>k val. (k, val) \<in> set (contents (fnum f)) \<longrightarrow> k \<in> internal_keys))"

context user_cmp
begin

lemma internal_le:
  assumes "a \<in> internal_keys" "b \<in> internal_keys"
  shows "cmp_le (cmp_internal_key ie U) a b \<longleftrightarrow> cmp_lt (cmp U) (ikey_user a) (ikey_user b) \<or>
    cmp_eq (cmp U) (ikey_user a) (ikey_user b) \<and> ikey_seq ie b \<le> ikey_seq ie a"
  using assms key_seq_cmp_cases
  by (auto simp: cmp_internal_key_eq cmp_le_def cmp_lt_def cmp_eq_def)

lemma user_eq_sym: "cmp_eq (cmp U) a b \<longleftrightarrow> cmp_eq (cmp U) b a"
  using user.cmp_flip [of a b] user.cmp_flip [of b a] by (auto simp: cmp_eq_def)

lemma user_eq_trans: "cmp_eq (cmp U) a b \<Longrightarrow> cmp_eq (cmp U) b c \<Longrightarrow> cmp_eq (cmp U) a c"
  using user.cmp_equal_cong [of a b c] by (simp add: cmp_eq_def)

text \<open>The entry a table returns is its newest visible entry when the user key is the right one.\<close>

lemma table_finds_newest:
  assumes "table_finds ie U contents tget ik f" "tget (fnum f) ik = Some (Inr (Some (k, val)))"
    "\<forall>k val. (k, val) \<in> set (contents (fnum f)) \<longrightarrow> k \<in> internal_keys" "ik \<in> internal_keys"
  shows "k \<in> internal_keys" "cmp_eq (cmp U) (ikey_user k) (ikey_user ik) \<Longrightarrow> newest_visible ie U contents ik {f} k val"
    "\<not> cmp_eq (cmp U) (ikey_user k) (ikey_user ik) \<Longrightarrow> none_visible ie U contents ik {f}"
proof -
  have k: "(k, val) \<in> set (contents (fnum f))" "cmp_le (cmp_internal_key ie U) ik k"
      "\<forall>k' val'. (k', val') \<in> set (contents (fnum f)) \<longrightarrow> cmp_le (cmp_internal_key ie U) ik k' \<longrightarrow> cmp_le (cmp_internal_key ie U) k k'"
    using assms(1,2) by (auto simp: table_finds_def)
  then show K: "k \<in> internal_keys" using assms(3) by blast
  have next_k: "cmp_le (cmp_internal_key ie U) k k'" "k' \<in> internal_keys" "cmp_eq (cmp U) (ikey_user k') (ikey_user ik)"
    if "(k', v') \<in> set (contents (fnum f))" "visible ie U ik k'" for k' v'
  proof -
    show "k' \<in> internal_keys" "cmp_eq (cmp U) (ikey_user k') (ikey_user ik)" using that assms(3) by (auto simp: visible_def)
    then show "cmp_le (cmp_internal_key ie U) k k'"
      using k(3) that internal_le [OF assms(4), of k' ie] user_eq_sym by (auto simp: visible_def)
  qed
  show "newest_visible ie U contents ik {f} k val" if e: "cmp_eq (cmp U) (ikey_user k) (ikey_user ik)"
  proof -
    have "visible ie U ik k"
      using e k(2) internal_le [OF assms(4) K, of ie] user.lt_eq_trans [of "ikey_user ik" "ikey_user k" "ikey_user ik"]
        user.lt_irrefl [of "ikey_user ik"] by (auto simp: visible_def)
    moreover have "ikey_seq ie k' \<le> ikey_seq ie k"
      if "(k', v') \<in> set (contents (fnum f))" "visible ie U ik k'" for k' v'
      using next_k [OF that] internal_le [OF K, of k' ie] e user_eq_sym user_eq_trans
        user.lt_eq_trans [of "ikey_user k" "ikey_user k'" "ikey_user k"] user.lt_irrefl [of "ikey_user k"]
      by (metis UNIV_I)
    ultimately show ?thesis using k(1) by (auto simp: newest_visible_def)
  qed
  show "none_visible ie U contents ik {f}" if ne: "\<not> cmp_eq (cmp U) (ikey_user k) (ikey_user ik)"
  proof -
    have lt: "cmp_lt (cmp U) (ikey_user ik) (ikey_user k)"
      using ne k(2) internal_le [OF assms(4) K, of ie] user_eq_sym by auto
    have "\<not> visible ie U ik k'" if "(k', v') \<in> set (contents (fnum f))" for k' v'
    proof
      assume v: "visible ie U ik k'"
      note n = next_k [OF that v]
      have "cmp_le (cmp U) (ikey_user k) (ikey_user k')"
        using n(1) internal_le [OF K n(2), of ie] user.le_cases by auto
      then have "cmp_lt (cmp U) (ikey_user ik) (ikey_user ik)"
        using lt user.lt_le_trans user.lt_eq_trans [OF _ _ _ _ n(3)] by blast
      then show False using user.lt_irrefl by blast
    qed
    then show ?thesis by (auto simp: none_visible_def)
  qed
qed

lemma answers_none: "none_visible ie U contents ik fs \<Longrightarrow> answers ie U contents ik fs None"
  by (simp add: answers_def)

lemma answers_newest:
  "newest_visible ie U contents ik fs k val \<Longrightarrow> answers ie U contents ik fs (Some (entry_answer ie k val))"
  by (auto simp: answers_def)

lemma get_in_files_step:
  assumes "lookup_files ie U contents tget ik {f}" "ik \<in> internal_keys"
  shows "\<exists>a stats'. answers ie U contents ik {f} (map_option (map_option fst) a) \<and>
    get_in_files ie U tget ik (ikey_user ik) level (f # fs) last_read stats =
      (if a = None then get_in_files ie U tget ik (ikey_user ik) level fs (Some f) stats' else Some (a, stats'))"
proof -
  have T: "table_finds ie U contents tget ik f" "own_deletions ie U tget ik f"
      "\<forall>k val. (k, val) \<in> set (contents (fnum f)) \<longrightarrow> k \<in> internal_keys"
    using assms(1) by (auto simp: lookup_files_def)
  let ?stats = "if last_read \<noteq> None \<and> gs_file stats = None then \<lparr>gs_file = last_read, gs_level = level\<rparr> else stats"
  obtain r where r: "tget (fnum f) ik = Some r" using T(1) by (auto simp: table_finds_def split: option.splits)
  show ?thesis
  proof (cases "\<exists>k val. r = Inr (Some (k, val))")
    case True
    then obtain k val where rk: "tget (fnum f) ik = Some (Inr (Some (k, val)))" using r by blast
    note k = table_finds_newest [OF T(1) rk T(3) assms(2)]
    have p: "parse_internal_key ie k = Some (ikey_type ie k, ikey_seq ie k, ikey_user k)"
      using k(1) by (simp add: parse_internal_key_eq internal_keys_def)
    obtain c where c: "cmp U (ikey_user k) (ikey_user ik) = Some c" using user_total by blast
    show ?thesis
    proof (cases "c = Equal")
      case True
      with c k(2) have "newest_visible ie U contents ik {f} k val" by (simp add: cmp_eq_def)
      note ans = answers_newest [OF this]
      show ?thesis
        by (rule exI [of _ "Some (if ikey_type ie k = TypeValue then Some (val, ?stats) else None)"], rule exI [of _ ?stats])
          (use ans rk p c True in \<open>cases "ikey_type ie k"; simp add: entry_answer_def Let_def\<close>)
    next
      case False
      with c k(3) have "none_visible ie U contents ik {f}" by (simp add: cmp_eq_def)
      note ans = answers_none [OF this]
      have "ikey_type ie k = TypeValue" using T(2) rk c False by (cases "ikey_type ie k") (auto simp: own_deletions_def cmp_eq_def)
      then show ?thesis
        by (intro exI [of _ None] exI [of _ ?stats]) (use ans rk p c False in \<open>simp add: Let_def\<close>)
    qed
  next
    case False
    then have "none_visible ie U contents ik {f}"
      using T(1) r by (auto simp: table_finds_def none_visible_def split: sum.splits option.splits)
    note ans = answers_none [OF this]
    show ?thesis
      by (intro exI [of _ None] exI [of _ ?stats]) (use ans r False in \<open>cases r; auto simp: Let_def split: option.splits\<close>)
  qed
qed

lemma lookup_files_Un [simp]:
  "lookup_files ie U contents tget ik (A \<union> B) \<longleftrightarrow> lookup_files ie U contents tget ik A \<and> lookup_files ie U contents tget ik B"
  by (auto simp: lookup_files_def)

lemma get_in_files_ok:
  assumes "lookup_files ie U contents tget ik (set fs)" "ik \<in> internal_keys" "sorted_wrt (newer_file ie U contents) fs"
  shows "\<exists>a stats'. answers ie U contents ik (set fs) (map_option (map_option fst) a) \<and>
    get_in_files ie U tget ik (ikey_user ik) level fs last_read stats = Some (a, stats')"
  using assms
proof (induction fs arbitrary: last_read stats)
  case Nil
  then show ?case by (auto simp: answers_def none_visible_def)
next
  case (Cons f fs)
  have "lookup_files ie U contents tget ik {f}" using Cons.prems(1) by (simp add: lookup_files_def)
  then obtain a stats' where a: "answers ie U contents ik {f} (map_option (map_option fst) a)"
      "get_in_files ie U tget ik (ikey_user ik) level (f # fs) last_read stats =
        (if a = None then get_in_files ie U tget ik (ikey_user ik) level fs (Some f) stats' else Some (a, stats'))"
    using get_in_files_step Cons.prems(2) by blast
  obtain b stats2 where b: "answers ie U contents ik (set fs) (map_option (map_option fst) b)"
      "get_in_files ie U tget ik (ikey_user ik) level fs (Some f) stats' = Some (b, stats2)"
    using Cons.IH [of "Some f" stats'] Cons.prems by (auto simp: lookup_files_def)
  have "answers ie U contents ik ({f} \<union> set fs)
      (if map_option (map_option fst) a = None then map_option (map_option fst) b else map_option (map_option fst) a)"
    by (rule answers_append [OF a(1) user.cmp_order_axioms _ b(1)]) (use Cons.prems(3) in simp)
  with a(2) b(2) show ?case by (cases a) auto
qed

lemma get_in_levels_ok:
  assumes "lookup_files ie U contents tget ik (set (concat ls))" "ik \<in> internal_keys"
    "sorted_wrt (newer_file ie U contents) (concat ls)"
  shows "\<exists>ans a. answers ie U contents ik (set (concat ls)) a \<and> map_option fst ans = (case a of None \<Rightarrow> None | Some b \<Rightarrow> b) \<and>
    get_in_levels ie U tget ik (ikey_user ik) level ls stats = Some ans"
  using assms
proof (induction ls arbitrary: level stats)
  case Nil
  then show ?case by (intro exI [of _ None]) (auto simp: answers_def none_visible_def)
next
  case (Cons fs ls)
  have L: "lookup_files ie U contents tget ik (set fs)" "lookup_files ie U contents tget ik (set (concat ls))"
    using Cons.prems(1) by (auto simp: lookup_files_def)
  have S: "sorted_wrt (newer_file ie U contents) fs" "sorted_wrt (newer_file ie U contents) (concat ls)"
      "\<forall>f \<in> set fs. \<forall>g \<in> set (concat ls). newer_file ie U contents f g"
    using Cons.prems(3) by (auto simp: sorted_wrt_append)
  obtain a s where a: "answers ie U contents ik (set fs) (map_option (map_option fst) a)"
      "get_in_files ie U tget ik (ikey_user ik) level fs None stats = Some (a, s)"
    using get_in_files_ok [OF L(1) Cons.prems(2) S(1)] by blast
  obtain ans b where b: "answers ie U contents ik (set (concat ls)) b" "map_option fst ans = (case b of None \<Rightarrow> None | Some b \<Rightarrow> b)"
      "get_in_levels ie U tget ik (ikey_user ik) (level + 1) ls s = Some ans"
    using Cons.IH [OF L(2) Cons.prems(2) S(2)] by blast
  note app = answers_append [OF a(1) user.cmp_order_axioms S(3) b(1)]
  show ?case
  proof (cases a)
    case None
    with a(2) b(2,3) app show ?thesis by (intro exI [of _ ans] exI [of _ b]) simp
  next
    case (Some x)
    with a(2) app show ?thesis by (intro exI [of _ x] exI [of _ "Some (map_option fst x)"]) simp
  qed
qed

end


section \<open>The files a lookup reads\<close>

text \<open>Some of the files of a level: those left out have no visible entry that is newer.\<close>

definition covers_visible ::
    "int_codec \<Rightarrow> comparator \<Rightarrow> table_contents \<Rightarrow> bytes \<Rightarrow> file_meta_data set \<Rightarrow> file_meta_data set \<Rightarrow> bool" where
  "covers_visible ie U contents ik A B \<longleftrightarrow> A \<subseteq> B \<and>
     (\<forall>f \<in> B. \<forall>k val. (k, val) \<in> set (contents (fnum f)) \<longrightarrow> visible ie U ik k \<longrightarrow>
        (\<exists>g \<in> A. \<exists>k' val'. (k', val') \<in> set (contents (fnum g)) \<and> visible ie U ik k' \<and> ikey_seq ie k \<le> ikey_seq ie k'))"

definition reads_of ::
    "int_codec \<Rightarrow> comparator \<Rightarrow> table_contents \<Rightarrow> bytes \<Rightarrow> file_meta_data list \<Rightarrow> file_meta_data list \<Rightarrow> bool" where
  "reads_of ie U contents ik fs files \<longleftrightarrow>
     sorted_wrt (newer_file ie U contents) fs \<and> covers_visible ie U contents ik (set fs) (set files)"

lemma covers_visible_Un:
  "covers_visible ie U contents ik A B \<Longrightarrow> covers_visible ie U contents ik A' B' \<Longrightarrow>
     covers_visible ie U contents ik (A \<union> A') (B \<union> B')"
  unfolding covers_visible_def by blast

lemma answers_covers:
  assumes "covers_visible ie U contents ik A B" "answers ie U contents ik A r"
  shows "answers ie U contents ik B r"
proof -
  have "none_visible ie U contents ik B" if "none_visible ie U contents ik A"
    using assms(1) that unfolding covers_visible_def none_visible_def by blast
  moreover have "newest_visible ie U contents ik B k val" if "newest_visible ie U contents ik A k val" for k val
    using assms(1) that unfolding covers_visible_def newest_visible_def by (meson order_trans subsetD)
  ultimately show ?thesis using assms(2) unfolding answers_def by blast
qed

lemma reads_of_levels:
  assumes "list_all2 (reads_of ie U contents ik) ls files"
    "sorted_wrt (\<lambda>fs gs. \<forall>f \<in> set fs. \<forall>g \<in> set gs. newer_file ie U contents f g) files"
  shows "reads_of ie U contents ik (concat ls) (concat files)"
  using assms
proof (induction ls files rule: list_all2_induct)
  case Nil
  then show ?case by (simp add: reads_of_def covers_visible_def)
next
  case (Cons fs ls gs files)
  then have IH: "reads_of ie U contents ik (concat ls) (concat files)" by simp
  have "set fs \<subseteq> set gs" "set (concat ls) \<subseteq> set (concat files)"
    using Cons.hyps(1) IH by (simp_all add: reads_of_def covers_visible_def)
  then have "\<forall>f \<in> set fs. \<forall>g \<in> set (concat ls). newer_file ie U contents f g"
    using Cons.prems by fastforce
  then show ?case using Cons.hyps(1) IH covers_visible_Un [of ie U contents ik "set fs" "set gs"]
    by (auto simp: reads_of_def sorted_wrt_append)
qed

lemma overlapping_levels_ok:
  assumes "\<And>l. l \<in> set ls \<Longrightarrow> l < length (v_files v) \<and>
    (\<exists>fs. overlapping_level ie (v_user_cmp v) ik ukey (v_files v ! l) = Some fs \<and> Q fs (v_files v ! l))"
  shows "\<exists>r. overlapping_levels ie v ik ukey ls = Some r \<and> list_all2 Q r (map ((!) (v_files v)) ls)"
  using assms
proof (induction ls)
  case (Cons l ls)
  then obtain fs r where "l < length (v_files v)" "overlapping_level ie (v_user_cmp v) ik ukey (v_files v ! l) = Some fs"
      "Q fs (v_files v ! l)" "overlapping_levels ie v ik ukey ls = Some r" "list_all2 Q r (map ((!) (v_files v)) ls)"
    by (metis list.set_intros)
  then show ?case by (simp add: index_def)
qed simp

lemma newest_first_sorted: "sorted_wrt (\<lambda>f g. fnum g \<le> fnum f) (newest_first fs)"
proof -
  have "sorted_wrt (\<lambda>f g. - int (unat (fnum f)) \<le> - int (unat (fnum g))) (newest_first fs)"
    using sorted_sort_key [of "\<lambda>f. - int (unat (fnum f))" fs] by (simp add: newest_first_def sorted_map)
  then show ?thesis by (rule sorted_wrt_mono_rel [rotated]) (simp add: word_le_def)
qed

context user_cmp
begin

lemma overlapping_level0_eq:
  assumes "\<forall>f \<in> set files. file_wf U f"
  shows "overlapping_level0 ie U ukey files =
    Some (filter (\<lambda>f. cmp_le (cmp U) (usmall f) ukey \<and> cmp_le (cmp U) ukey (ularge f)) files)"
  using assms
proof (induction files)
  case (Cons f files)
  obtain r1 r2 where r: "cmp U ukey (usmall f) = Some r1" "cmp U ukey (ularge f) = Some r2" using user_total by metis
  have "cmp U (usmall f) ukey = Some (flip_ordering r1)" using user.flipI [OF _ _ r(1)] by simp
  then have "r1 \<ge> Equal \<longleftrightarrow> cmp_le (cmp U) (usmall f) ukey" "r2 \<le> Equal \<longleftrightarrow> cmp_le (cmp U) ukey (ularge f)"
    using r by (cases r1; cases r2; simp add: cmp_le_def less_eq_ordering_def)+
  with Cons r show ?case by (simp add: file_wf_parts [of U f ie])
qed simp

lemma visible_le: "ik \<in> internal_keys \<Longrightarrow> k \<in> internal_keys \<Longrightarrow> visible ie U ik k \<Longrightarrow> cmp_le (cmp_internal_key ie U) ik k"
  using internal_le [of ik k ie] user_eq_sym by (auto simp: visible_def)

lemma visible_between:
  assumes "ik \<in> internal_keys" "b \<in> internal_keys" "k \<in> internal_keys" "visible ie U ik k"
    "cmp_le (cmp_internal_key ie U) ik b" "cmp_le (cmp_internal_key ie U) b k"
  shows "visible ie U ik b \<and> ikey_seq ie k \<le> ikey_seq ie b"
proof -
  have e: "cmp_eq (cmp U) (ikey_user k) (ikey_user ik)" using assms(4) by (simp add: visible_def)
  have "\<not> cmp_lt (cmp U) (ikey_user ik) (ikey_user b)"
  proof
    assume lt: "cmp_lt (cmp U) (ikey_user ik) (ikey_user b)"
    have "cmp_le (cmp U) (ikey_user b) (ikey_user k)" using assms(6) internal_le [OF assms(2,3), of ie] user.le_cases by auto
    with lt have "cmp_lt (cmp U) (ikey_user ik) (ikey_user k)" using user.lt_le_trans by blast
    then show False using user.lt_eq_trans [OF _ _ _ _ e] user.lt_irrefl by blast
  qed
  with assms(5) have b: "cmp_eq (cmp U) (ikey_user b) (ikey_user ik)" "ikey_seq ie b \<le> ikey_seq ie ik"
    using internal_le [OF assms(1,2), of ie] user_eq_sym by auto
  moreover have "\<not> cmp_lt (cmp U) (ikey_user b) (ikey_user k)"
    using b(1) e user_eq_trans user_eq_sym user.lt_eq_trans user.lt_irrefl by (metis UNIV_I)
  ultimately show ?thesis using assms(6) internal_le [OF assms(2,3), of ie] by (auto simp: visible_def)
qed

lemma overlapping_level_ok:
  assumes "level_sorted ie U files" "\<forall>f \<in> set files. file_covers ie U contents f" "ik \<in> internal_keys"
  shows "\<exists>fs. overlapping_level ie U ik (ikey_user ik) files = Some fs \<and> reads_of ie U contents ik fs files"
proof -
  note ord = internal_key_order [OF user.cmp_order_axioms, of ie]
  let ?icmp = "InternalKeyCmp ie U"
  let ?p = "pos_find (\<lambda>f. \<not> cmp_lt (cmp ?icmp) (largest f) ik) files"
  have wf: "\<forall>f \<in> set files. file_wf U f" using assms(1) by (simp add: level_sorted_def)
  have find: "find_file ?icmp files ik = Some ?p"
    by (rule find_file_ok [OF ord _ assms(3) level_sorted_largest [OF user.cmp_order_axioms assms(1)]])
      (use wf in \<open>simp add: file_wf_def\<close>)
  have icmp: "cmp ?icmp = cmp_internal_key ie U" by (simp add: InternalKeyCmp_def)
  have inside: "k \<in> internal_keys" "cmp_le (cmp_internal_key ie U) (smallest f) k" "\<not> cmp_lt (cmp ?icmp) (largest f) ik"
    if "f \<in> set files" "(k, val) \<in> set (contents (fnum f))" "visible ie U ik k" for f k val
  proof -
    have k: "k \<in> internal_keys" "cmp_le (cmp_internal_key ie U) (smallest f) k" "cmp_le (cmp_internal_key ie U) k (largest f)"
      "largest f \<in> internal_keys"
      using assms(2) that by (auto simp: file_covers_def file_wf_def)
    show "k \<in> internal_keys" "cmp_le (cmp_internal_key ie U) (smallest f) k" by (rule k)+
    show "\<not> cmp_lt (cmp ?icmp) (largest f) ik"
      using visible_le [OF assms(3) k(1) that(3)] k(3) cmp_order.le_trans [OF ord assms(3) k(1,4)]
        cmp_order.not_lt [OF ord k(4) assms(3)] by (simp add: icmp)
  qed
  show ?thesis
  proof (cases ?p)
    case None
    then have "\<forall>f \<in> set files. cmp_lt (cmp ?icmp) (largest f) ik" by (simp add: pos_find_None)
    then have "covers_visible ie U contents ik {} (set files)" using inside unfolding covers_visible_def by blast
    then show ?thesis using find None by (simp add: overlapping_level_def reads_of_def)
  next
    case (Some i)
    note i = pos_find_Some [OF Some]
    let ?f = "files ! i"
    have f: "?f \<in> set files" "file_wf U ?f" "largest ?f \<in> internal_keys" "smallest ?f \<in> internal_keys"
      "cmp_le (cmp_internal_key ie U) ik (largest ?f)"
      using i(1,2) wf cmp_order.not_lt [OF ord, of "largest ?f" ik] assms(3) by (auto simp: file_wf_def icmp)
    obtain lv where lv: "(largest ?f, lv) \<in> set (contents (fnum ?f))" using assms(2) f(1) by (auto simp: file_covers_def)
    have later: "g = ?f \<or> cmp_le (cmp_internal_key ie U) (largest ?f) k"
      if g: "g \<in> set files" "(k, val) \<in> set (contents (fnum g))" "visible ie U ik k" for g k val
    proof -
      obtain j where j: "j < length files" "g = files ! j" using g(1) by (auto simp: in_set_conv_nth)
      have "i \<le> j" using i(3) inside(3) [OF g] j by (auto simp: not_less [symmetric])
      moreover have "cmp_le (cmp_internal_key ie U) (largest ?f) k" if "i < j"
      proof -
        have "cmp_lt (cmp_internal_key ie U) (largest ?f) (smallest g)" "smallest g \<in> internal_keys"
          using that assms(1) j g(1) wf by (auto simp: level_sorted_def sorted_wrt_iff_nth_less file_wf_def)
        then show ?thesis
          using cmp_order.lt_le_trans [OF ord f(3), of "smallest g" k] inside(1,2) [OF g] cmp_order.lt_imp_le [OF ord, of "largest ?f" k]
          by (simp add: icmp)
      qed
      ultimately show ?thesis using j by (cases "i = j") auto
    qed
    have "\<exists>k' val'. (k', val') \<in> set (contents (fnum ?f)) \<and> visible ie U ik k' \<and> ikey_seq ie k \<le> ikey_seq ie k'"
      if g: "g \<in> set files" "(k, val) \<in> set (contents (fnum g))" "visible ie U ik k" for g k val
      using later [OF g] visible_between [OF assms(3) f(3) inside(1) [OF g] g(3) f(5)] g(2,3) lv by blast
    then have open_f: "covers_visible ie U contents ik {?f} (set files)" using f(1) by (auto simp: covers_visible_def)
    obtain c where c: "cmp U (ikey_user ik) (usmall ?f) = Some c" using user_total by blast
    show ?thesis
    proof (cases "c = Less")
      case True
      have "\<not> visible ie U ik k" if "g \<in> set files" "(k, val) \<in> set (contents (fnum g))" for g k val
      proof
        assume v: "visible ie U ik k"
        note k = inside [OF that v]
        have "cmp_le (cmp_internal_key ie U) (smallest ?f) k"
          using later [OF that v] k(2) f(1) assms(1) cmp_order.le_trans [OF ord f(4,3) k(1)] by (auto simp: level_sorted_def icmp)
        then have "cmp_le (cmp U) (usmall ?f) (ikey_user k)" using internal_le [OF f(4) k(1), of ie] user.le_cases by auto
        moreover have "cmp_lt (cmp U) (ikey_user ik) (usmall ?f)" using c True by (simp add: cmp_lt_def)
        ultimately have "cmp_lt (cmp U) (ikey_user ik) (ikey_user k)" using user.lt_le_trans by blast
        moreover have "cmp_eq (cmp U) (ikey_user k) (ikey_user ik)" using v by (simp add: visible_def)
        ultimately show False using user.lt_eq_trans user.lt_irrefl by blast
      qed
      then have "covers_visible ie U contents ik {} (set files)" unfolding covers_visible_def by blast
      with find Some i(1) f(2) c True show ?thesis
        by (simp add: overlapping_level_def reads_of_def index_def file_wf_parts [of U ?f ie])
    next
      case False
      with find Some i(1) f(2) c open_f show ?thesis
        by (simp add: overlapping_level_def reads_of_def index_def file_wf_parts [of U ?f ie])
    qed
  qed
qed

lemma overlapping_level0_ok:
  assumes "\<forall>f \<in> set files. file_covers ie U contents f" "ik \<in> internal_keys" "distinct (map fnum files)"
    "\<forall>f \<in> set files. \<forall>g \<in> set files. fnum g < fnum f \<longrightarrow> newer_file ie U contents f g"
  shows "\<exists>fs. overlapping_level0 ie U (ikey_user ik) files = Some fs \<and> reads_of ie U contents ik (newest_first fs) files"
proof -
  let ?fs = "filter (\<lambda>f. cmp_le (cmp U) (usmall f) (ikey_user ik) \<and> cmp_le (cmp U) (ikey_user ik) (ularge f)) files"
  have set: "set (newest_first ?fs) = set ?fs" by (simp add: newest_first_def)
  have "distinct (map fnum (newest_first ?fs))"
    using distinct_map_filter [OF assms(3)] by (simp add: newest_first_def distinct_map)
  then have "sorted_wrt (\<lambda>f g. newer_file ie U contents f g) (newest_first ?fs)"
    using newest_first_sorted [of ?fs] assms(4) set nth_mem [of _ "newest_first ?fs"]
    by (auto simp: sorted_wrt_iff_nth_less distinct_conv_nth order.strict_iff_order)
  moreover have "covers_visible ie U contents ik (set ?fs) (set files)"
  proof -
    have "f \<in> set ?fs" if f: "f \<in> set files" "(k, val) \<in> set (contents (fnum f))" "visible ie U ik k" for f k val
    proof -
      have k: "k \<in> internal_keys" "cmp_le (cmp_internal_key ie U) (smallest f) k" "cmp_le (cmp_internal_key ie U) k (largest f)"
          "largest f \<in> internal_keys" "smallest f \<in> internal_keys" "cmp_eq (cmp U) (ikey_user k) (ikey_user ik)"
        using assms(1) f by (auto simp: file_covers_def file_wf_def visible_def)
      then have "cmp_le (cmp U) (usmall f) (ikey_user k)" "cmp_le (cmp U) (ikey_user k) (ularge f)"
        using internal_le [OF k(5,1), of ie] internal_le [OF k(1,4), of ie] user.le_cases by auto
      with k(6) have "cmp_le (cmp U) (usmall f) (ikey_user ik)" "cmp_le (cmp U) (ikey_user ik) (ularge f)"
        using user.le_trans [of "usmall f" "ikey_user k" "ikey_user ik"] user.le_trans [of "ikey_user ik" "ikey_user k" "ularge f"]
          user_eq_sym [of "ikey_user k" "ikey_user ik"] user.le_cases [of "ikey_user k" "ikey_user ik"]
          user.le_cases [of "ikey_user ik" "ikey_user k"] by simp_all
      with f(1) show ?thesis by simp
    qed
    then show ?thesis unfolding covers_visible_def by (meson filter_is_subset order_refl)
  qed
  ultimately show ?thesis
    using overlapping_level0_eq [of files ie "ikey_user ik"] assms(1) set by (simp add: reads_of_def file_covers_def)
qed

end


section \<open>Properties\<close>

text \<open>The files that a lookup reads, level by level.\<close>

lemma get_overlapping_reads:
  assumes "cmp_order (cmp (v_user_cmp v)) UNIV" "version_ok ie contents v" "ik \<in> internal_keys"
  obtains l0 r where "overlapping_level0 ie (v_user_cmp v) (ikey_user ik) (v_files v ! 0) = Some l0"
    "overlapping_levels ie v ik (ikey_user ik) [1..<NUM_LEVELS] = Some r"
    "reads_of ie (v_user_cmp v) contents ik (concat (newest_first l0 # r)) (concat (v_files v))"
proof -
  let ?U = "v_user_cmp v" and ?F = "v_files v"
  have u: "user_cmp ?U" using assms(1) by (simp add: user_cmp_def)
  have n: "length ?F = NUM_LEVELS" "?F ! 0 \<in> set ?F"
    using assms(2) by (simp_all add: version_ok_def NUM_LEVELS_def)
  have cov: "\<forall>fs \<in> set ?F. \<forall>f \<in> set fs. file_covers ie ?U contents f"
    and recent: "sorted_wrt (\<lambda>fs gs. \<forall>f \<in> set fs. \<forall>g \<in> set gs. newer_file ie ?U contents f g) ?F"
    using assms(2) by (simp_all add: version_ok_def)
  obtain l0 where l0: "overlapping_level0 ie ?U (ikey_user ik) (?F ! 0) = Some l0" "reads_of ie ?U contents ik (newest_first l0) (?F ! 0)"
    using user_cmp.overlapping_level0_ok [OF u, of "?F ! 0" ie contents ik] assms(2,3) cov n(2) unfolding version_ok_def by blast
  have "\<exists>r. overlapping_levels ie v ik (ikey_user ik) [1..<NUM_LEVELS] = Some r \<and>
      list_all2 (reads_of ie ?U contents ik) r (map ((!) ?F) [1..<NUM_LEVELS])"
  proof (rule overlapping_levels_ok)
    fix l assume "l \<in> set [1..<NUM_LEVELS]"
    then have l: "0 < l" "l < NUM_LEVELS" "?F ! l \<in> set ?F" using n(1) by auto
    have "level_sorted ie ?U (?F ! l)" using assms(2) l(1,2) by (simp add: version_ok_def)
    moreover have "\<forall>f \<in> set (?F ! l). file_covers ie ?U contents f" using cov l(3) by blast
    ultimately have "\<exists>fs. overlapping_level ie ?U ik (ikey_user ik) (?F ! l) = Some fs \<and> reads_of ie ?U contents ik fs (?F ! l)"
      by (rule user_cmp.overlapping_level_ok [OF u _ _ assms(3)])
    with l(2) n(1)
    show "l < length ?F \<and> (\<exists>fs. overlapping_level ie ?U ik (ikey_user ik) (?F ! l) = Some fs \<and> reads_of ie ?U contents ik fs (?F ! l))"
      by simp
  qed
  then obtain r where r: "overlapping_levels ie v ik (ikey_user ik) [1..<NUM_LEVELS] = Some r"
      "list_all2 (reads_of ie ?U contents ik) r (map ((!) ?F) [1..<NUM_LEVELS])" by blast
  have F: "?F = ?F ! 0 # map ((!) ?F) [1..<NUM_LEVELS]"
    using n(1) map_nth [of ?F] upt_conv_Cons [of 0 NUM_LEVELS] by (metis NUM_LEVELS_def One_nat_def list.simps(9) zero_less_numeral)
  have "list_all2 (reads_of ie ?U contents ik) (newest_first l0 # r) ?F" by (subst F) (use l0(2) r(2) in simp)
  then have "reads_of ie ?U contents ik (concat (newest_first l0 # r)) (concat ?F)" by (rule reads_of_levels [OF _ recent])
  with l0(1) r(1) show thesis by (rule that)
qed


text \<open>A table lookup that scans the list of entries, and a version with two entries of one key.\<close>

definition list_get :: "int_codec \<Rightarrow> comparator \<Rightarrow> table_contents \<Rightarrow> table_get" where
  "list_get ie U contents n ik = Some (Inr (find (\<lambda>(k, _). \<not> cmp_lt (cmp_internal_key ie U) k ik) (contents n)))"

abbreviation vkey :: "byte \<Rightarrow> sequence_number \<Rightarrow> bytes" where "vkey b s \<equiv> ikey wire_codec [b] s TypeValue"
abbreviation dkey :: "byte \<Rightarrow> sequence_number \<Rightarrow> bytes" where "dkey b s \<equiv> ikey wire_codec [b] s TypeDeletion"

definition key_file :: "file_num \<Rightarrow> bytes \<Rightarrow> bytes \<Rightarrow> file_meta_data" where
  "key_file n a b = \<lparr>allowed_seeks = 0, fnum = n, fsize = 100, smallest = a, largest = b\<rparr>"

definition two_tables :: table_contents where
  "two_tables n = (if n = 4 then [(vkey 5 8, [1])] else if n = 3 then [(vkey 5 6, [2])] else [])"

definition two_levels :: version where
  "two_levels = (version_new DefaultCmp)\<lparr>v_files := [[key_file 4 (vkey 5 8) (vkey 5 8)], [key_file 3 (vkey 5 6) (vkey 5 6)], [], [], [], [], []]\<rparr>"

lemma wire_key_cmp:
  "s \<le> MAX_SEQUENCE_NUMBER \<Longrightarrow> s' \<le> MAX_SEQUENCE_NUMBER \<Longrightarrow>
     cmp_internal_key wire_codec U (ikey wire_codec k s t) (ikey wire_codec k' s' t') = key_seq_cmp U k s k' s'"
  by (simp add: cmp_internal_key_eq wire.ikey_simps)

lemma small_seqs:
  "(3 :: sequence_number) \<le> MAX_SEQUENCE_NUMBER" "(5 :: sequence_number) \<le> MAX_SEQUENCE_NUMBER"
  "(6 :: sequence_number) \<le> MAX_SEQUENCE_NUMBER" "(7 :: sequence_number) \<le> MAX_SEQUENCE_NUMBER"
  "(8 :: sequence_number) \<le> MAX_SEQUENCE_NUMBER" "(9 :: sequence_number) \<le> MAX_SEQUENCE_NUMBER"
  by (simp_all add: MAX_SEQUENCE_NUMBER_def)

lemmas key_evals = wire_key_cmp wire.ikey_simps small_seqs key_seq_cmp_def cmp_lt_def cmp_le_def cmp_eq_def


definition hiding_tables :: table_contents where
  "hiding_tables n = (if n = 4 then [(vkey 2 6, [1]), (dkey 9 7, [])] else if n = 3 then [(vkey 5 3, [2])] else [])"

definition hiding_version :: version where
  "hiding_version = (version_new DefaultCmp)\<lparr>v_files := [[key_file 3 (vkey 5 3) (vkey 5 3), key_file 4 (vkey 2 6) (dkey 9 7)], [], [], [], [], [], []]\<rparr>"

text \<open>C36: A lookup that meets a deletion of another key stops there: the key 5, whose value is in the older of
  two tables of level 0, is not found because the newer table has keys around it and the next one is
  deleted.\<close>

theorem foreign_deletion_hides_value:
  "version_ok wire_codec hiding_tables hiding_version \<and>
   newest_visible wire_codec DefaultCmp hiding_tables (vkey 5 8) (set (concat (v_files hiding_version))) (vkey 5 3) [2] \<and>
   version_get wire_codec (list_get wire_codec DefaultCmp hiding_tables) hiding_version (vkey 5 8) = Some (Inr None)"
proof (intro conjI)
  have c: "cmp DefaultCmp [5] [5] = Some Equal" "cmp DefaultCmp [2] [9] = Some Less" "cmp DefaultCmp [2] [5] = Some Less"
      "cmp DefaultCmp [9] [5] = Some Greater" "cmp DefaultCmp [2] [2] = Some Equal" "cmp DefaultCmp [9] [9] = Some Equal"
      "cmp DefaultCmp [5] [9] = Some Less" "cmp DefaultCmp [5] [2] = Some Greater"
    by code_simp+
  show "version_ok wire_codec hiding_tables hiding_version"
    using c by (auto simp: version_ok_def hiding_version_def version_new_def NUM_LEVELS_def file_covers_def file_wf_def key_file_def
        hiding_tables_def key_evals newer_file_def level_sorted_def nth_Cons')
  show "newest_visible wire_codec DefaultCmp hiding_tables (vkey 5 8) (set (concat (v_files hiding_version))) (vkey 5 3) [2]"
    using c by (auto simp: newest_visible_def visible_def hiding_version_def version_new_def key_file_def hiding_tables_def key_evals)
  show "version_get wire_codec (list_get wire_codec DefaultCmp hiding_tables) hiding_version (vkey 5 8) = Some (Inr None)"
  proof -
    let ?f = "key_file 4 (vkey 2 6) (dkey 9 7)" and ?g = "key_file 3 (vkey 5 3) (vkey 5 3)"
    have files: "v_files hiding_version = [[?g, ?f], [], [], [], [], [], []]" "v_user_cmp hiding_version = DefaultCmp"
      by (simp_all add: hiding_version_def version_new_def)
    have "overlapping_level0 wire_codec DefaultCmp [5] [?g, ?f] = Some [?g, ?f]"
      using c by (subst bytewise.overlapping_level0_eq) (simp_all add: file_wf_def key_file_def key_evals)
    moreover have "newest_first [?g, ?f] = [?f, ?g]" by (simp add: newest_first_def key_file_def)
    moreover have "overlapping_level wire_codec DefaultCmp k u [] = Some []" for k u
      by (simp add: overlapping_level_def find_file_def find_file_loop.simps)
    ultimately have "get_overlapping wire_codec hiding_version (vkey 5 8) = Some ([?f, ?g] # replicate 6 [])"
      by (simp add: get_overlapping_def files user_part_eq wire.ikey_facts NUM_LEVELS_def upt_rec index_def numeral_eq_Suc
          del: overlapping_level0.simps)
    moreover have "list_get wire_codec DefaultCmp hiding_tables 4 (vkey 5 8) = Some (Inr (Some (dkey 9 7, [])))"
      using c by (simp add: list_get_def hiding_tables_def key_evals)
    moreover have "parse_internal_key wire_codec (dkey 9 7) = Some (TypeDeletion, 7, [9])"
      by (simp add: parse_internal_key_eq key_evals)
    ultimately show ?thesis
      by (simp add: version_get_def files user_part_eq wire.ikey_facts key_file_def)
  qed
qed

end
