(* ===== verification/Lru_Cache.thy ===== *)
theory Lru_Cache
  imports Prelude
begin

text \<open>
  The LRU cache (\<open>src/src/cache.rs\<close>). The doubly linked list of the code is made of boxes and raw
  pointers; here it is a heap, a map from addresses to nodes, in which the head node, a field of the
  list, has the address 0. Following a pointer to a node that has been freed has no defined result
  and is \<open>None\<close>, as a panic is. A box that goes out of scope is freed.
\<close>

section \<open>The list\<close>

type_synonym lru_handle = nat

record 'a lru_node =
  n_next :: "lru_handle option"
  n_prev :: "lru_handle option"
  n_data :: "'a option"

record 'a lru_list =
  l_heap :: "lru_handle \<Rightarrow> 'a lru_node option"
  l_fresh :: lru_handle
  l_count :: nat

definition lru_new :: "'a lru_list" where
  "lru_new = \<lparr>l_heap = [0 \<mapsto> \<lparr>n_next = None, n_prev = None, n_data = None\<rparr>], l_fresh = 1, l_count = 0\<rparr>"

definition deref :: "'a lru_list \<Rightarrow> lru_handle \<Rightarrow> 'a lru_node run" where
  "deref l p = l_heap l p"

definition set_node :: "lru_handle \<Rightarrow> 'a lru_node \<Rightarrow> 'a lru_list \<Rightarrow> 'a lru_list" where
  "set_node p n l = l\<lparr>l_heap := (l_heap l)(p \<mapsto> n)\<rparr>"

definition set_next :: "lru_handle \<Rightarrow> lru_handle option \<Rightarrow> 'a lru_list \<Rightarrow> 'a lru_list run" where
  "set_next p v l = do { n \<leftarrow> deref l p; Some (set_node p (n\<lparr>n_next := v\<rparr>) l) }"

definition set_prev :: "lru_handle \<Rightarrow> lru_handle option \<Rightarrow> 'a lru_list \<Rightarrow> 'a lru_list run" where
  "set_prev p v l = do { n \<leftarrow> deref l p; Some (set_node p (n\<lparr>n_prev := v\<rparr>) l) }"

definition free_node :: "lru_handle \<Rightarrow> 'a lru_list \<Rightarrow> 'a lru_list" where
  "free_node p l = l\<lparr>l_heap := (l_heap l)(p := None)\<rparr>"

definition new_node :: "'a lru_node \<Rightarrow> 'a lru_list \<Rightarrow> lru_handle \<times> 'a lru_list" where
  "new_node n l = (l_fresh l, set_node (l_fresh l) n (l\<lparr>l_fresh := l_fresh l + 1\<rparr>))"

definition swap_next :: "lru_handle \<Rightarrow> lru_handle \<Rightarrow> 'a lru_list \<Rightarrow> 'a lru_list run" where
  "swap_next p q l = do { np \<leftarrow> deref l p; nq \<leftarrow> deref l q; l \<leftarrow> set_next p (n_next nq) l; set_next q (n_next np) l }"

definition lru_insert :: "'a lru_list \<Rightarrow> 'a \<Rightarrow> (lru_handle \<times> 'a lru_list) run" where
  "lru_insert l elem =
     do { let l = l\<lparr>l_count := l_count l + 1\<rparr>;
          head \<leftarrow> deref l 0;
          let (newp, l) = new_node \<lparr>n_next = None, n_prev = Some 0, n_data = Some elem\<rparr> l;
          case n_next head of
            Some first \<Rightarrow>
              do { l \<leftarrow> set_prev first (Some newp) l;
                   l \<leftarrow> set_next newp (Some first) l;
                   l \<leftarrow> set_next 0 (Some newp) l;
                   Some (newp, l) }
          | None \<Rightarrow>
              do { l \<leftarrow> set_prev 0 (Some newp) l;
                   l \<leftarrow> set_next 0 (Some newp) l;
                   Some (newp, l) } }"

definition lru_remove_last :: "'a lru_list \<Rightarrow> ('a option \<times> 'a lru_list) run" where
  "lru_remove_last l =
     (if l_count l = 0 then Some (None, l)
      else do { head \<leftarrow> deref l 0;
                lastp \<leftarrow> n_prev head;
                lastn \<leftarrow> deref l lastp;
                pp \<leftarrow> n_prev lastn;
                pn \<leftarrow> deref l pp;
                l \<leftarrow> set_next pp None l;
                last \<leftarrow> n_next pn;
                lastn \<leftarrow> deref l last;
                ensure (n_prev lastn \<noteq> None);
                head \<leftarrow> deref l 0;
                ensure (n_prev head \<noteq> None);
                l \<leftarrow> set_prev 0 (n_prev lastn) l;
                c \<leftarrow> usub (l_count l) 1;
                Some (n_data lastn, free_node last (l\<lparr>l_count := c\<rparr>)) })"

definition lru_remove :: "'a lru_list \<Rightarrow> lru_handle \<Rightarrow> ('a \<times> 'a lru_list) run" where
  "lru_remove l p =
     do { n \<leftarrow> deref l p;
          d \<leftarrow> n_data n;
          let l = set_node p (n\<lparr>n_data := None\<rparr>) l;
          pp \<leftarrow> n_prev n;
          pn \<leftarrow> deref l pp;
          current \<leftarrow> n_next pn;
          l \<leftarrow> set_next pp None l;
          cn \<leftarrow> deref l current;
          prev \<leftarrow> n_prev cn;
          l \<leftarrow> (case n_next cn of
                 Some nx \<Rightarrow> do { l \<leftarrow> set_prev nx (n_prev cn) l; set_prev current None l }
               | None \<Rightarrow> Some l);
          l \<leftarrow> set_next prev (n_next cn) l;
          c \<leftarrow> usub (l_count l) 1;
          Some (d, free_node current (l\<lparr>l_count := c\<rparr>)) }"

definition reinsert_front :: "'a lru_list \<Rightarrow> lru_handle \<Rightarrow> 'a lru_list run" where
  "reinsert_front l p =
     do { n \<leftarrow> deref l p;
          prevp \<leftarrow> n_prev n;
          l \<leftarrow> (case n_next n of Some nx \<Rightarrow> set_prev nx (Some prevp) l | None \<Rightarrow> set_prev 0 (Some prevp) l);
          l \<leftarrow> swap_next prevp p l;
          l \<leftarrow> swap_next p 0 l;
          n \<leftarrow> deref l p;
          l \<leftarrow> (case n_next n of
                 Some newnext \<Rightarrow>
                   do { m \<leftarrow> deref l newnext; l \<leftarrow> set_prev p (n_prev m) l; set_prev newnext (Some p) l }
               | None \<Rightarrow> set_prev 0 (Some p) l);
          head \<leftarrow> deref l 0;
          ensure (n_next head \<noteq> None);
          ensure (n_prev head \<noteq> None);
          Some l }"


section \<open>The cache\<close>

type_synonym cache_key = bytes

record 'v cache =
  c_list :: "cache_key lru_list"
  c_map :: "cache_key \<Rightarrow> ('v \<times> lru_handle) option"
  c_cap :: nat
  c_id :: u64

definition cache_new :: "nat \<Rightarrow> 'v cache run" where
  "cache_new capacity =
     do { ensure (capacity > 0); Some \<lparr>c_list = lru_new, c_map = (\<lambda>_. None), c_cap = capacity, c_id = 0\<rparr> }"

definition new_cache_id :: "'v cache \<Rightarrow> u64 \<times> 'v cache" where
  "new_cache_id c = (c_id c + 1, c\<lparr>c_id := c_id c + 1\<rparr>)"

definition cache_count :: "'v cache \<Rightarrow> nat" where
  "cache_count c = l_count (c_list c)"

definition cache_insert :: "'v cache \<Rightarrow> cache_key \<Rightarrow> 'v \<Rightarrow> 'v cache run" where
  "cache_insert c key elem =
     do { c \<leftarrow> (if cache_count c \<ge> c_cap c
               then do { (removed, l) \<leftarrow> lru_remove_last (c_list c);
                         removed_key \<leftarrow> removed;
                         ensure (c_map c removed_key \<noteq> None);
                         Some (c\<lparr>c_list := l, c_map := (c_map c)(removed_key := None)\<rparr>) }
               else Some c);
          (h, l) \<leftarrow> lru_insert (c_list c) key;
          Some (c\<lparr>c_list := l, c_map := (c_map c)(key \<mapsto> (elem, h))\<rparr>) }"

definition cache_get :: "'v cache \<Rightarrow> cache_key \<Rightarrow> ('v option \<times> 'v cache) run" where
  "cache_get c key =
     (case c_map c key of
        None \<Rightarrow> Some (None, c)
      | Some (elem, h) \<Rightarrow> do { l \<leftarrow> reinsert_front (c_list c) h; Some (Some elem, c\<lparr>c_list := l\<rparr>) })"

definition cache_remove :: "'v cache \<Rightarrow> cache_key \<Rightarrow> ('v option \<times> 'v cache) run" where
  "cache_remove c key =
     (case c_map c key of
        None \<Rightarrow> Some (None, c)
      | Some (elem, h) \<Rightarrow>
          do { (_, l) \<leftarrow> lru_remove (c_list c) h;
               Some (Some elem, c\<lparr>c_list := l, c_map := (c_map c)(key := None)\<rparr>) })"


section \<open>The list as a sequence\<close>

text \<open>A chain of nodes from a predecessor to an end, with its data.\<close>

fun chain :: "(lru_handle \<Rightarrow> 'a lru_node option) \<Rightarrow> lru_handle \<Rightarrow> lru_handle list \<Rightarrow> 'a list \<Rightarrow> lru_handle option \<Rightarrow> bool" where
  "chain h a [] xs e \<longleftrightarrow> xs = []"
| "chain h a (p # ps) xs e \<longleftrightarrow>
     (\<exists>x ys. xs = x # ys \<and>
        h p = Some \<lparr>n_next = (if ps = [] then e else Some (hd ps)), n_prev = Some a, n_data = Some x\<rparr> \<and> chain h p ps ys e)"

definition lru_rep :: "'a lru_list \<Rightarrow> lru_handle list \<Rightarrow> 'a list \<Rightarrow> bool" where
  "lru_rep l ps xs \<longleftrightarrow>
     chain (l_heap l) 0 ps xs None \<and> distinct (0 # ps) \<and> (\<forall>p \<in> set ps. p < l_fresh l) \<and> 0 < l_fresh l \<and>
     l_count l = length ps \<and>
     (\<exists>t. l_heap l 0 = Some \<lparr>n_next = (if ps = [] then None else Some (hd ps)), n_prev = t, n_data = None\<rparr> \<and>
        (ps \<noteq> [] \<longrightarrow> t = Some (last ps)))"

lemma chain_upd [simp]: "p \<notin> set ps \<Longrightarrow> chain (h(p := v)) a ps xs e \<longleftrightarrow> chain h a ps xs e"
  by (induction ps arbitrary: a xs) auto

lemma chain_append:
  "chain h a (ps @ qs) zs e \<longleftrightarrow>
     (\<exists>xs ys. zs = xs @ ys \<and> chain h a ps xs (if qs = [] then e else Some (hd qs)) \<and>
        chain h (if ps = [] then a else last ps) qs ys e)"
proof (induction ps arbitrary: a zs)
  case (Cons p ps)
  then show ?case by (cases "ps = []") (auto simp: Cons_eq_append_conv)+
qed auto

lemma chain_length: "chain h a ps xs e \<Longrightarrow> length ps = length xs"
  by (induction ps arbitrary: a xs) auto

lemma chain_append_eq:
  "length ps = length xs \<Longrightarrow> chain h a (ps @ qs) (xs @ ys) e \<longleftrightarrow>
     chain h a ps xs (if qs = [] then e else Some (hd qs)) \<and> chain h (if ps = [] then a else last ps) qs ys e"
  by (induction ps xs arbitrary: a rule: list_induct2) auto

lemmas lru_ops = deref_def set_node_def set_next_def set_prev_def free_node_def new_node_def swap_next_def

lemma lru_new_rep: "lru_rep lru_new [] []"
  by (simp add: lru_rep_def lru_new_def)

lemma lru_insert_rep:
  assumes "lru_rep l ps xs"
  shows "\<exists>l'. lru_insert l x = Some (l_fresh l, l') \<and> lru_rep l' (l_fresh l # ps) (x # xs)"
proof (cases ps)
  case Nil
  with assms show ?thesis by (auto simp: lru_rep_def lru_insert_def lru_ops)
next
  case (Cons q qs)
  with assms have "l_fresh l \<noteq> q" "l_fresh l \<notin> set qs" "l_fresh l \<noteq> 0" "q \<noteq> 0" "q \<notin> set qs" "0 \<notin> set qs"
    by (auto simp: lru_rep_def)
  moreover have "\<forall>p \<in> set qs. p < Suc (l_fresh l)" using assms Cons by (auto simp: lru_rep_def less_SucI)
  ultimately show ?thesis using assms Cons by (auto simp: lru_rep_def lru_insert_def lru_ops)
qed

lemma lru_remove_last_rep:
  assumes "lru_rep l (ps @ [p]) (xs @ [x])"
  shows "\<exists>l'. lru_remove_last l = Some (Some x, l') \<and> lru_rep l' ps xs"
proof (cases ps rule: rev_cases)
  case Nil
  with assms show ?thesis by (auto simp: lru_rep_def lru_remove_last_def lru_ops usub_def)
next
  case (snoc qs q)
  with assms have "q \<noteq> 0" "p \<noteq> 0" "q \<noteq> p" "q \<notin> set qs" "p \<notin> set qs" "0 \<notin> set qs" by (auto simp: lru_rep_def)
  with assms snoc show ?thesis
    by (cases "qs = []") (auto simp: lru_rep_def lru_remove_last_def lru_ops usub_def chain_append)
qed

text \<open>Moving a node to the front when there are at least two nodes before it: the nodes that change.\<close>

lemma reinsert_front_heap:
  assumes "l_heap l 0 = Some \<lparr>n_next = Some f, n_prev = t, n_data = None\<rparr>"
    "l_heap l f = Some \<lparr>n_next = fn, n_prev = Some 0, n_data = Some v\<rparr>"
    "l_heap l q = Some \<lparr>n_next = Some p, n_prev = qp, n_data = Some z\<rparr>"
    "l_heap l p = Some \<lparr>n_next = pn, n_prev = Some q, n_data = Some x\<rparr>" "distinct [0, f, q, p]"
  shows "pn = None \<Longrightarrow> t \<noteq> None \<Longrightarrow> reinsert_front l p = Some (l\<lparr>l_heap := (l_heap l)
      (0 \<mapsto> \<lparr>n_next = Some p, n_prev = Some q, n_data = None\<rparr>, q \<mapsto> \<lparr>n_next = None, n_prev = qp, n_data = Some z\<rparr>,
       p \<mapsto> \<lparr>n_next = Some f, n_prev = Some 0, n_data = Some x\<rparr>, f \<mapsto> \<lparr>n_next = fn, n_prev = Some p, n_data = Some v\<rparr>)\<rparr>)"
    "pn = Some b \<Longrightarrow> t \<noteq> None \<Longrightarrow> l_heap l b = Some \<lparr>n_next = bn, n_prev = Some p, n_data = Some y\<rparr> \<Longrightarrow> b \<notin> {0, f, q, p} \<Longrightarrow>
      reinsert_front l p = Some (l\<lparr>l_heap := (l_heap l)
      (0 \<mapsto> \<lparr>n_next = Some p, n_prev = t, n_data = None\<rparr>, q \<mapsto> \<lparr>n_next = Some b, n_prev = qp, n_data = Some z\<rparr>,
       b \<mapsto> \<lparr>n_next = bn, n_prev = Some q, n_data = Some y\<rparr>,
       p \<mapsto> \<lparr>n_next = Some f, n_prev = Some 0, n_data = Some x\<rparr>, f \<mapsto> \<lparr>n_next = fn, n_prev = Some p, n_data = Some v\<rparr>)\<rparr>)"
  using assms by (auto simp: reinsert_front_def lru_ops fun_upd_twist intro!: arg_cong [where f = "\<lambda>h. l\<lparr>l_heap := h\<rparr>"])

text \<open>Moving a node to the front, by the position of the node.\<close>

lemma reinsert_front_rep:
  assumes "lru_rep l (ps @ p # qs) (xs @ x # ys)" "length ps = length xs"
  shows "\<exists>l'. reinsert_front l p = Some l' \<and> lru_rep l' (p # ps @ qs) (x # xs @ ys)"
proof -
  have d: "p \<noteq> 0" "p \<notin> set ps" "p \<notin> set qs" "0 \<notin> set ps" "0 \<notin> set qs" "distinct ps" "distinct qs" "set ps \<inter> set qs = {}"
    using assms(1) by (auto simp: lru_rep_def)
  show ?thesis
  proof (cases ps rule: rev_cases)
    case Nil
    with assms d show ?thesis
      by (cases qs) (auto simp: lru_rep_def reinsert_front_def lru_ops)
  next
    case (snoc rs q)
    have D: "q \<noteq> 0" "q \<noteq> p" "p \<noteq> q" "q \<notin> set qs" "q \<notin> set rs" "p \<notin> set rs" "0 \<notin> set rs" using d snoc by auto
    obtain xs' z where xs: "xs = xs' @ [z]" "length rs = length xs'"
      using assms(2) snoc by (cases xs rule: rev_cases) auto
    show ?thesis
    proof (cases rs)
      case Nil
      with assms(1) snoc d D xs show ?thesis
        by (cases qs) (auto simp: lru_rep_def reinsert_front_def lru_ops)
    next
      case (Cons f fs)
      with D d snoc have F: "f \<noteq> 0" "f \<noteq> p" "p \<noteq> f" "f \<noteq> q" "q \<noteq> f" "f \<notin> set qs" "f \<notin> set fs" "distinct [0, f, q, p]"
          "p \<notin> set fs" "q \<notin> set fs" "0 \<notin> set fs" by auto
      obtain v vs where V: "xs' = v # vs" "length fs = length vs" using xs(2) Cons by (cases xs') auto
      have H: "l_heap l 0 = Some \<lparr>n_next = Some f, n_prev = Some (last (p # qs)), n_data = None\<rparr>"
          "l_heap l f = Some \<lparr>n_next = Some (if fs = [] then q else hd fs), n_prev = Some 0, n_data = Some v\<rparr>" "chain (l_heap l) f fs vs (Some q)"
          "l_heap l q = Some \<lparr>n_next = Some p, n_prev = Some (last (f # fs)), n_data = Some z\<rparr>"
          "l_heap l p = Some \<lparr>n_next = (if qs = [] then None else Some (hd qs)), n_prev = Some q, n_data = Some x\<rparr>"
          "chain (l_heap l) p qs ys None"
        using assms(1) snoc Cons xs V by (auto simp: lru_rep_def chain_append_eq hd_append)
      show ?thesis
      proof (cases qs)
        case Nil
        with reinsert_front_heap(1) [OF H(1,2,4,5) F(8)] H assms(1) snoc Cons xs V d D F show ?thesis
          by (simp add: lru_rep_def chain_append_eq hd_append)
      next
        case (Cons b bs)
        then obtain y ys' where Y: "ys = y # ys'" "chain (l_heap l) b bs ys' None"
            "l_heap l b = Some \<lparr>n_next = (if bs = [] then None else Some (hd bs)), n_prev = Some p, n_data = Some y\<rparr>"
          using H(6) by auto
        have B: "b \<notin> {0, f, q, p}" "b \<notin> set fs" "b \<notin> set bs" "f \<notin> set bs" "q \<notin> set bs" "p \<notin> set bs" "0 \<notin> set bs"
          using Cons d(3,5,7,8) snoc \<open>rs = f # fs\<close> by auto
        with reinsert_front_heap(2) [OF H(1,2,4,5) F(8), of b, OF _ _ Y(3)] H Y assms(1) snoc Cons \<open>rs = f # fs\<close> xs V d D F show ?thesis
          by (simp add: lru_rep_def chain_append_eq hd_append)
      qed
    qed
  qed
qed

text \<open>Removing a node in the middle. When the last node is removed the tail pointer of the head is left
  behind, so the list keeps its shape only if another node follows.\<close>

lemma lru_remove_rep:
  assumes "lru_rep l (ps @ p # b # qs) (xs @ x # y # ys)" "length ps = length xs"
  shows "\<exists>l'. lru_remove l p = Some (x, l') \<and> lru_rep l' (ps @ b # qs) (xs @ y # ys)"
proof -
  have d: "p \<noteq> 0" "b \<noteq> 0" "p \<noteq> b" "p \<notin> set ps" "b \<notin> set ps" "p \<notin> set qs" "b \<notin> set qs" "0 \<notin> set ps" "0 \<notin> set qs"
    using assms(1) by (auto simp: lru_rep_def)
  show ?thesis
  proof (cases ps rule: rev_cases)
    case Nil
    with assms d show ?thesis by (auto simp: lru_rep_def lru_remove_def lru_ops usub_def)
  next
    case (snoc rs q)
    then obtain xs' z where X: "xs = xs' @ [z]" "length rs = length xs'" using assms(2) by (cases xs rule: rev_cases) auto
    have D: "q \<noteq> 0" "q \<noteq> p" "q \<noteq> b" "q \<notin> set qs" "q \<notin> set rs" "p \<notin> set rs" "b \<notin> set rs" "0 \<notin> set rs"
      using assms(1) snoc by (auto simp: lru_rep_def)
    from assms(1) snoc X d D show ?thesis
      by (auto simp: lru_rep_def lru_remove_def lru_ops usub_def chain_append_eq hd_append)
  qed
qed


section \<open>The cache as a list of entries, the most recently used first\<close>

definition cache_rep :: "'v cache \<Rightarrow> (cache_key \<times> 'v) list \<Rightarrow> bool" where
  "cache_rep c kvs \<longleftrightarrow> 0 < c_cap c \<and> length kvs \<le> c_cap c \<and> distinct (map fst kvs) \<and>
     (\<exists>ps. lru_rep (c_list c) ps (map fst kvs) \<and> length ps = length kvs \<and>
        c_map c = map_of (zip (map fst kvs) (zip (map snd kvs) ps)))"

definition to_front :: "cache_key \<Rightarrow> (cache_key \<times> 'v) list \<Rightarrow> (cache_key \<times> 'v) list" where
  "to_front k kvs = (case map_of kvs k of None \<Rightarrow> kvs | Some v \<Rightarrow> (k, v) # filter (\<lambda>e. fst e \<noteq> k) kvs)"

lemma cache_new_rep: "0 < n \<Longrightarrow> \<exists>c. cache_new n = Some c \<and> cache_rep c [] \<and> c_cap c = n"
  by (simp add: cache_new_def cache_rep_def lru_new_rep)

lemma map_of_zip_fst:
  "distinct (map fst kvs) \<Longrightarrow> length ps = length kvs \<Longrightarrow> i < length kvs \<Longrightarrow>
     map_of (zip (map fst kvs) (zip (map snd kvs) ps)) (fst (kvs ! i)) = Some (snd (kvs ! i), ps ! i)"
  using map_of_zip_nth [of "map fst kvs" "zip (map snd kvs) ps" i] by simp

lemma map_of_zip_None:
  "length ps = length kvs \<Longrightarrow> map_of (zip (map fst kvs) (zip (map snd kvs) ps)) k = None \<longleftrightarrow> k \<notin> fst ` set kvs"
  by (simp add: map_of_zip_is_None)

text \<open>An entry in the middle, by the parts of the lists around it.\<close>

lemma cache_entry_split:
  assumes "distinct (map fst kvs)" "length ps = length kvs" "map_of kvs k = Some v"
  obtains as bs ps' p ps'' where "kvs = as @ (k, v) # bs" "ps = ps' @ p # ps''" "length ps' = length as" "length ps'' = length bs"
    "k \<notin> fst ` set as" "k \<notin> fst ` set bs"
proof -
  obtain as bs where kvs: "kvs = as @ (k, v) # bs" using map_of_SomeD [OF assms(3)] by (meson split_list)
  show ?thesis
  proof (rule that [OF kvs])
    show "ps = take (length as) ps @ ps ! length as # drop (Suc (length as)) ps"
      using assms(2) kvs by (simp add: id_take_nth_drop)
  qed (use assms(1,2) kvs in auto)
qed

lemma map_of_zip_move:
  assumes "distinct (map fst (as @ e # bs))" "length ps = length as" "length qs = length bs"
  shows "map_of (zip (map fst (e # as @ bs)) (zip (map snd (e # as @ bs)) (p # ps @ qs))) =
    map_of (zip (map fst (as @ e # bs)) (zip (map snd (as @ e # bs)) (ps @ p # qs)))"
  using assms by (auto simp: fun_eq_iff map_add_def map_of_zip_is_None split: option.splits)
    (metis image_eqI list.set_map map_of_SomeD set_zip_leftD)+

lemma cache_get_rep:
  assumes "cache_rep c kvs"
  shows "\<exists>c'. cache_get c k = Some (map_of kvs k, c') \<and> cache_rep c' (to_front k kvs) \<and> c_cap c' = c_cap c"
proof -
  obtain ps where R: "lru_rep (c_list c) ps (map fst kvs)" "length ps = length kvs"
      "c_map c = map_of (zip (map fst kvs) (zip (map snd kvs) ps))" "distinct (map fst kvs)"
    using assms by (auto simp: cache_rep_def)
  show ?thesis
  proof (cases "map_of kvs k")
    case None
    then have "c_map c k = None" using R(2,3) map_of_zip_None [of ps kvs k] by (simp add: map_of_eq_None_iff)
    with assms None show ?thesis by (simp add: cache_get_def to_front_def)
  next
    case (Some v)
    obtain as bs ps' p ps'' where S: "kvs = as @ (k, v) # bs" "ps = ps' @ p # ps''" "length ps' = length as"
        "length ps'' = length bs" "k \<notin> fst ` set as" "k \<notin> fst ` set bs"
      by (rule cache_entry_split [OF R(4,2) Some])
    have "c_map c k = Some (v, p)"
      using map_of_zip_fst [OF R(4,2), of "length as"] nth_append_length [of ps' p ps''] R(3) S by simp
    moreover obtain l' where "reinsert_front (c_list c) p = Some l'" "lru_rep l' (p # ps' @ ps'') (k # map fst as @ map fst bs)"
      using reinsert_front_rep [of "c_list c" ps' p ps'' "map fst as" k "map fst bs"] R(1) S by auto
    moreover have "filter (\<lambda>e. fst e \<noteq> k) as = as" "filter (\<lambda>e. fst e \<noteq> k) bs = bs"
      using S(5,6) by (auto simp: filter_id_conv)
    then have "to_front k kvs = (k, v) # as @ bs" using Some by (simp add: to_front_def S(1))
    moreover have "map_of (zip (map fst ((k, v) # as @ bs)) (zip (map snd ((k, v) # as @ bs)) (p # ps' @ ps''))) = c_map c"
      using map_of_zip_move [of as "(k, v)" bs ps' ps'' p] R(3,4) S(1-4) by simp
    ultimately show ?thesis
      using assms R(4) S Some by (auto simp: cache_get_def cache_rep_def intro!: exI [of _ "p # ps' @ ps''"])
  qed
qed

lemma map_add_single: "m k = None \<Longrightarrow> ([k \<mapsto> a] ++ m) k = Some a" "m k = None \<Longrightarrow> ([k \<mapsto> a] ++ m)(k := None) = m"
  by (auto simp: map_add_def fun_eq_iff split: option.splits)

lemma cache_insert_rep:
  assumes "cache_rep c kvs" "k \<notin> fst ` set kvs"
  shows "\<exists>c'. cache_insert c k v = Some c' \<and> c_cap c' = c_cap c \<and>
    cache_rep c' ((k, v) # (if length kvs = c_cap c then butlast kvs else kvs))"
proof -
  obtain ps where R: "lru_rep (c_list c) ps (map fst kvs)" "length ps = length kvs"
      "c_map c = map_of (zip (map fst kvs) (zip (map snd kvs) ps))" "distinct (map fst kvs)" "0 < c_cap c" "length kvs \<le> c_cap c"
    using assms(1) by (auto simp: cache_rep_def)
  have count: "cache_count c = length kvs" using R(1,2) by (simp add: cache_count_def lru_rep_def)
  have ins: "\<exists>c'. (do { (h, l) \<leftarrow> lru_insert (c_list d) k; Some (d\<lparr>c_list := l, c_map := (c_map d)(k \<mapsto> (v, h))\<rparr>) }) = Some c' \<and>
      c_cap c' = c_cap d \<and> cache_rep c' ((k, v) # ws)"
    if d: "cache_rep d ws" "length ws < c_cap d" "k \<notin> fst ` set ws" for d ws
  proof -
    obtain qs where Q: "lru_rep (c_list d) qs (map fst ws)" "length qs = length ws"
        "c_map d = map_of (zip (map fst ws) (zip (map snd ws) qs))" "distinct (map fst ws)"
      using d(1) by (auto simp: cache_rep_def)
    from lru_insert_rep [OF Q(1), of k] Q(2-4) d(2,3) show ?thesis
      by (auto simp: cache_rep_def intro!: exI [of _ "l_fresh (c_list d) # qs"])
  qed
  show ?thesis
  proof (cases "length kvs = c_cap c")
    case True
    then obtain ws w where W: "kvs = ws @ [w]" using R(5) by (cases kvs rule: rev_cases) auto
    then obtain qs q where Q: "ps = qs @ [q]" "length qs = length ws" using R(2) by (cases ps rule: rev_cases) auto
    obtain l' where L: "lru_remove_last (c_list c) = Some (Some (fst w), l')" "lru_rep l' qs (map fst ws)"
      using lru_remove_last_rep [of "c_list c" qs q "map fst ws" "fst w"] R(1) W Q by auto
    let ?m = "map_of (zip (map fst ws) (zip (map snd ws) qs))"
    have "?m (fst w) = None" using map_of_zip_None [of qs ws "fst w"] R(4) W Q by auto
    note single = map_add_single [of ?m "fst w", OF this, of "(snd w, q)"]
    have "c_map c = [fst w \<mapsto> (snd w, q)] ++ ?m" using R(3) W Q by simp
    then have m: "c_map c (fst w) = Some (snd w, q)" "(c_map c)(fst w := None) = ?m" using single by simp_all
    let ?d = "c\<lparr>c_list := l', c_map := ?m\<rparr>"
    have "cache_rep ?d ws" using L(2) Q(2) R(4-6) W by (auto simp: cache_rep_def)
    from ins [OF this] assms(2) W True L(1) m count R(5) show ?thesis by (simp add: cache_insert_def)
  next
    case False
    then have "length kvs < c_cap c" using R(6) by simp
    with ins [OF assms(1) _ assms(2)] count False show ?thesis by (simp add: cache_insert_def)
  qed
qed

text \<open>Removing an entry, unless it is the least recently used one of several.\<close>

lemma cache_remove_rep:
  assumes "cache_rep c (as @ (k, v) # bs)" "as = [] \<or> bs \<noteq> []"
  shows "\<exists>c'. cache_remove c k = Some (Some v, c') \<and> c_cap c' = c_cap c \<and> cache_rep c' (as @ bs)"
proof -
  let ?kvs = "as @ (k, v) # bs"
  obtain ps where R: "lru_rep (c_list c) ps (map fst ?kvs)" "length ps = length ?kvs"
      "c_map c = map_of (zip (map fst ?kvs) (zip (map snd ?kvs) ps))" "distinct (map fst ?kvs)"
    using assms(1) by (auto simp: cache_rep_def)
  have k: "k \<notin> fst ` set (as @ bs)" using R(4) by auto
  define qs p rs where "qs = take (length as) ps" and "p = ps ! length as" and "rs = drop (Suc (length as)) ps"
  have P: "ps = qs @ p # rs" "length qs = length as" "length rs = length bs"
    using R(2) by (simp_all add: qs_def p_def rs_def id_take_nth_drop)
  have get: "c_map c k = Some (v, p)"
    using map_of_zip_fst [OF R(4,2), of "length as"] R(3) by (simp add: p_def)
  let ?m = "map_of (zip (map fst (as @ bs)) (zip (map snd (as @ bs)) (qs @ rs)))"
  have "?m k = None" using map_of_zip_None [of "qs @ rs" "as @ bs" k] P k by auto
  moreover have "c_map c = ?m(k \<mapsto> (v, p))" using R(3) map_of_zip_move [OF R(4) P(2,3), of p] P(1) by simp
  ultimately have m: "(c_map c)(k := None) = ?m" by (simp add: fun_upd_idem)
  have "\<exists>l'. lru_remove (c_list c) p = Some (k, l') \<and> lru_rep l' (qs @ rs) (map fst (as @ bs))"
  proof (cases bs)
    case Nil
    with assms(2) have "as = []" by simp
    with Nil R(1) P show ?thesis by (auto simp: lru_rep_def lru_remove_def lru_ops usub_def)
  next
    case (Cons b bs')
    then obtain r rs' where "rs = r # rs'" using P(3) by (cases rs) auto
    with lru_remove_rep [of "c_list c" qs p r rs' "map fst as" k "fst b" "map fst bs'"] R(1) P Cons show ?thesis by simp
  qed
  with assms(1) R(4) P get m show ?thesis
    by (auto simp: cache_remove_def cache_rep_def intro!: exI [of _ "qs @ rs"])
qed

text \<open>How the two clients use a cache: look up, and on a miss produce the value and insert it.\<close>

definition read_through :: "(cache_key \<Rightarrow> 'v) \<Rightarrow> 'v cache \<Rightarrow> cache_key \<Rightarrow> ('v \<times> 'v cache) run" where
  "read_through f c k =
     do { (r, c) \<leftarrow> cache_get c k;
          case r of Some v \<Rightarrow> Some (v, c)
          | None \<Rightarrow> do { c \<leftarrow> cache_insert c k (f k); Some (f k, c) } }"

fun read_all :: "(cache_key \<Rightarrow> 'v) \<Rightarrow> 'v cache \<Rightarrow> cache_key list \<Rightarrow> ('v list \<times> 'v cache) run" where
  "read_all f c [] = Some ([], c)"
| "read_all f c (k # ks) =
     do { (v, c) \<leftarrow> read_through f c k; (vs, c) \<leftarrow> read_all f c ks; Some (v # vs, c) }"

text \<open>The interface the clients rely on.\<close>

locale value_cache =
  fixes get :: "'c \<Rightarrow> 'k \<Rightarrow> ('v option \<times> 'c) run" and put :: "'c \<Rightarrow> 'k \<Rightarrow> 'v \<Rightarrow> 'c run"
    and inv :: "'c \<Rightarrow> bool" and contents :: "'c \<Rightarrow> 'k \<Rightarrow> 'v option"
  assumes get_law: "inv c \<Longrightarrow> \<exists>c'. get c k = Some (contents c k, c') \<and> inv c' \<and> contents c' = contents c"
    and put_law: "inv c \<Longrightarrow> contents c k = None \<Longrightarrow> \<exists>c'. put c k v = Some c' \<and> inv c' \<and> contents c' \<subseteq>\<^sub>m (contents c)(k \<mapsto> v)"
begin

text \<open>A cache of values that a function produces stays such a cache.\<close>

lemma coherent_get:
  assumes "inv c" "\<forall>k v. contents c k = Some v \<longrightarrow> ok k v"
  shows "\<exists>r c'. get c k = Some (r, c') \<and> inv c' \<and> (\<forall>k v. contents c' k = Some v \<longrightarrow> ok k v) \<and>
    r = contents c k \<and> (\<forall>v. r = Some v \<longrightarrow> ok k v) \<and> contents c' k = r"
  using get_law [OF assms(1), of k] assms(2) by auto

lemma coherent_put:
  assumes "inv c" "\<forall>k v. contents c k = Some v \<longrightarrow> ok k v" "contents c k = None" "ok k v"
  shows "\<exists>c'. put c k v = Some c' \<and> inv c' \<and> (\<forall>k v. contents c' k = Some v \<longrightarrow> ok k v)"
proof -
  obtain c' where c': "put c k v = Some c'" "inv c'" "contents c' \<subseteq>\<^sub>m (contents c)(k \<mapsto> v)"
    using put_law [OF assms(1,3)] by blast
  have "ok k' v'" if "contents c' k' = Some v'" for k' v'
  proof -
    have "((contents c)(k \<mapsto> v)) k' = Some v'" using c'(3) that by (metis domI map_le_def)
    then show ?thesis using assms(2,4) by (auto split: if_splits)
  qed
  with c'(1,2) show ?thesis by blast
qed

end

definition cache_inv :: "nat \<Rightarrow> 'v cache \<Rightarrow> bool" where
  "cache_inv n c \<longleftrightarrow> c_cap c = n \<and> (\<exists>kvs. cache_rep c kvs)"

definition cache_contents :: "'v cache \<Rightarrow> cache_key \<Rightarrow> 'v option" where
  "cache_contents c k = map_option fst (c_map c k)"

lemma cache_contents_rep: "cache_rep c kvs \<Longrightarrow> cache_contents c = map_of kvs"
proof -
  assume "cache_rep c kvs"
  then obtain ps where ps: "length ps = length kvs" "c_map c = map_of (zip (map fst kvs) (zip (map snd kvs) ps))"
    by (auto simp: cache_rep_def)
  have "map_option fst (map_of (zip (map fst kvs) (zip (map snd kvs) ps)) k) = map_of kvs k" for k
    using ps(1) by (induction ps kvs rule: list_induct2) auto
  then show ?thesis using ps(2) by (auto simp: cache_contents_def)
qed

lemma map_of_to_front: "map_of (to_front k kvs) = map_of kvs"
proof -
  have "map_of (filter (\<lambda>e. fst e \<noteq> k) kvs) x = map_of kvs x" if "x \<noteq> k" for x
    using that by (induction kvs) auto
  then show ?thesis by (auto simp: to_front_def fun_eq_iff split: option.splits)
qed

interpretation lru: value_cache cache_get cache_insert "cache_inv n" cache_contents for n
proof
  fix c :: "'v cache" and k v
  assume "cache_inv n c"
  then obtain kvs where R: "cache_rep c kvs" "distinct (map fst kvs)" "c_cap c = n" by (auto simp: cache_inv_def cache_rep_def)
  from cache_get_rep [OF R(1), of k] obtain c' where
    c': "cache_get c k = Some (map_of kvs k, c')" "cache_rep c' (to_front k kvs)" "c_cap c' = c_cap c" by blast
  then show "\<exists>c'. cache_get c k = Some (cache_contents c k, c') \<and> cache_inv n c' \<and> cache_contents c' = cache_contents c"
    using R map_of_to_front by (auto simp: cache_contents_rep cache_inv_def)
  assume "cache_contents c k = None"
  then have "k \<notin> fst ` set kvs" using R(1) by (simp add: cache_contents_rep map_of_eq_None_iff)
  define kvs' where "kvs' = (if length kvs = c_cap c then butlast kvs else kvs)"
  from cache_insert_rep [OF R(1) \<open>k \<notin> fst ` set kvs\<close>, of v] obtain d where
    d: "cache_insert c k v = Some d" "cache_rep d ((k, v) # kvs')" "kvs' = butlast kvs \<or> kvs' = kvs" "c_cap d = c_cap c"
    by (auto simp: kvs'_def)
  have "map_of kvs' \<subseteq>\<^sub>m map_of kvs"
  proof (cases kvs rule: rev_cases)
    case (snoc ws w)
    then have "map_of kvs = map_of [w] ++ map_of ws" by (simp only: map_of_append)
    then show ?thesis using d(3) snoc by (auto simp only: map_le_map_add map_le_refl butlast_snoc)
  qed (use d(3) in simp)
  then have "map_of ((k, v) # kvs') \<subseteq>\<^sub>m (map_of kvs)(k \<mapsto> v)" by (simp add: map_le_upd)
  with d R(1,3) show "\<exists>c'. cache_insert c k v = Some c' \<and> cache_inv n c' \<and> cache_contents c' \<subseteq>\<^sub>m (cache_contents c)(k \<mapsto> v)"
    by (auto simp: cache_contents_rep cache_inv_def)
qed


section \<open>Properties\<close>

text \<open>C17: The cache implements a list of entries ordered by their last use. A lookup returns the value of
  the key and moves the entry to the front, an insertion of a new key puts it there and drops the
  least recently used entry of a full cache, and a removal deletes the entry, if it is the only one
  or not the least recently used one.\<close>

theorem cache_refines_lru:
  assumes "cache_rep c kvs"
  shows "(\<exists>c'. cache_get c k = Some (map_of kvs k, c') \<and> cache_rep c' (to_front k kvs)) \<and>
    (k \<notin> fst ` set kvs \<longrightarrow>
      (\<exists>c'. cache_insert c k v = Some c' \<and> cache_rep c' ((k, v) # (if length kvs = c_cap c then butlast kvs else kvs)))) \<and>
    (\<forall>as w bs. kvs = as @ (k, w) # bs \<longrightarrow> as = [] \<or> bs \<noteq> [] \<longrightarrow>
      (\<exists>c'. cache_remove c k = Some (Some w, c') \<and> cache_rep c' (as @ bs)))"
  using cache_get_rep [OF assms, of k] cache_insert_rep [OF assms, of k v] cache_remove_rep [of c] assms by blast

theorem cache_refines_lru_witness:
  "\<exists>c c' :: nat cache. cache_rep c [([2], 20), ([1], 10)] \<and> cache_get c [1] = Some (Some 10, c') \<and>
     cache_rep c' [([1], 10), ([2], 20)]"
proof -
  obtain c0 :: "nat cache" where 0: "cache_rep c0 []" "c_cap c0 = 2" using cache_new_rep [of 2] by auto
  obtain c1 where 1: "cache_rep c1 [([1], 10 :: nat)]" "c_cap c1 = 2" using cache_insert_rep [OF 0(1), of "[1]" "10 :: nat"] 0(2) by auto
  obtain c where c: "cache_rep c [([2], 20 :: nat), ([1], 10)]" using cache_insert_rep [OF 1(1), of "[2]" "20 :: nat"] 1(2) by auto
  from cache_refines_lru [OF this, of "[1]"] c show ?thesis by (auto simp: to_front_def)
qed

lemma read_through_ok:
  assumes "cache_inv n c" "\<forall>k v. cache_contents c k = Some v \<longrightarrow> v = f k"
  shows "\<exists>c'. read_through f c k = Some (f k, c') \<and> cache_inv n c' \<and> (\<forall>k v. cache_contents c' k = Some v \<longrightarrow> v = f k)"
proof -
  obtain r d where d: "cache_get c k = Some (r, d)" "cache_inv n d" "\<forall>k v. cache_contents d k = Some v \<longrightarrow> v = f k"
      "\<forall>v. r = Some v \<longrightarrow> v = f k" "cache_contents d k = r"
    using lru.coherent_get [OF assms] by blast
  show ?thesis
  proof (cases r)
    case None
    with lru.coherent_put [OF d(2,3) _ refl, of k] d(1,5) show ?thesis by (auto simp: read_through_def)
  next
    case (Some v)
    with d show ?thesis by (auto simp: read_through_def)
  qed
qed

lemma cache_inv_count: "cache_inv n c \<Longrightarrow> cache_count c \<le> n"
  by (auto simp: cache_inv_def cache_rep_def cache_count_def lru_rep_def)

text \<open>Reading values through a cache of any capacity other than zero, in any order, never fails and
  always gives the values that would be read without it, and the cache never holds more entries than
  its capacity.\<close>

lemma cache_transparent:
  fixes f :: "cache_key \<Rightarrow> 'v"
  assumes "0 < n"
  shows "\<exists>c c'. cache_new n = Some c \<and> read_all f c ks = Some (map f ks, c') \<and> cache_count c' \<le> n"
proof -
  have all: "\<exists>c'. read_all f c ks = Some (map f ks, c') \<and> cache_inv n c'"
    if "cache_inv n c" "\<forall>k v. cache_contents c k = Some v \<longrightarrow> v = f k" for c
    using that
  proof (induction ks arbitrary: c)
    case (Cons k ks)
    from read_through_ok [OF Cons.prems, of k] Cons.IH show ?case by fastforce
  qed simp
  obtain c :: "'v cache" where c: "cache_new n = Some c" "cache_rep c []" "c_cap c = n" using cache_new_rep [OF assms] by blast
  then have "cache_inv n c" "cache_contents c = Map.empty" using cache_contents_rep [OF c(2)] by (auto simp: cache_inv_def)
  with all [of c] c(1) cache_inv_count show ?thesis by fastforce
qed

text \<open>C37: Removing the least recently used of several entries leaves a pointer to the freed node behind.
  The next insertion into the full cache follows it: here a cache of capacity 2 after two insertions,
  the removal of the older key and one more insertion, whose next insertion has no defined result.\<close>

theorem cache_remove_dangling:
  "\<exists>c0 c1 c2 c3 c4 :: nat cache. cache_new 2 = Some c0 \<and> cache_insert c0 [1] 10 = Some c1 \<and> cache_insert c1 [2] 20 = Some c2 \<and>
     cache_remove c2 [1] = Some (Some 10, c3) \<and> cache_insert c3 [3] 30 = Some c4 \<and> cache_count c4 = 2 \<and>
     cache_insert c4 [4] 40 = None"
  by (simp add: cache_new_def lru_new_def cache_insert_def cache_remove_def cache_count_def lru_insert_def lru_remove_def
      lru_remove_last_def lru_ops usub_def)

end
