(* ===== verification/Table_Format.thy ===== *)
theory Table_Format
  imports Block Filter_Block Log_File Key_Cmp
begin

text \<open>
  The parts of a table file: block handles (\<open>src/src/blockhandle.rs\<close>), the footer
  (\<open>src/src/table_builder.rs\<close>), and reading and verifying single blocks (\<open>src/src/table_block.rs\<close>).
\<close>

section \<open>Block handles\<close>

record block_handle =
  bh_offset :: nat
  bh_size :: nat

definition bh_decode :: "int_codec \<Rightarrow> bytes \<Rightarrow> (block_handle \<times> nat) option run" where
  "bh_decode ie bs =
     (case decode_var ie bs of
        None \<Rightarrow> Some None
      | Some (off, offsize) \<Rightarrow>
          do { rest \<leftarrow> slice_from offsize bs;
               Some (case decode_var ie rest of
                   None \<Rightarrow> None
                 | Some (sz, szsize) \<Rightarrow> Some (\<lparr>bh_offset = off, bh_size = sz\<rparr>, offsize + szsize)) })"

definition bh_new :: "nat \<Rightarrow> nat \<Rightarrow> block_handle" where
  "bh_new off sz = \<lparr>bh_offset = off, bh_size = sz\<rparr>"

text \<open>\<open>encode_var\<close> into a mutable slice, which panics when the slice is too short.\<close>

definition encode_var_at :: "int_codec \<Rightarrow> nat \<Rightarrow> nat \<Rightarrow> bytes \<Rightarrow> (nat \<times> bytes) run" where
  "encode_var_at ie n i buf =
     do { ensure (i + length (encode_var ie n) \<le> length buf);
          Some (length (encode_var ie n), overwrite i (encode_var ie n) buf) }"

definition bh_encode_to :: "int_codec \<Rightarrow> block_handle \<Rightarrow> nat \<Rightarrow> bytes \<Rightarrow> (nat \<times> bytes) run" where
  "bh_encode_to ie h i buf =
     do { ensure (length buf - i \<ge> required_space ie (bh_offset h) + required_space ie (bh_size h));
          (off, buf) \<leftarrow> encode_var_at ie (bh_offset h) i buf;
          (n, buf) \<leftarrow> encode_var_at ie (bh_size h) (i + off) buf;
          Some (off + n, buf) }"


section \<open>The footer\<close>

definition FOOTER_LENGTH :: nat where
  "FOOTER_LENGTH = 40"

definition FULL_FOOTER_LENGTH :: nat where
  "FULL_FOOTER_LENGTH = FOOTER_LENGTH + 8"

definition MAGIC_FOOTER_ENCODED :: bytes where
  "MAGIC_FOOTER_ENCODED = [0x57, 0xfb, 0x80, 0x8b, 0x24, 0x75, 0x47, 0xdb]"

definition TABLE_BLOCK_COMPRESS_LEN :: nat where
  "TABLE_BLOCK_COMPRESS_LEN = 1"

definition TABLE_BLOCK_CKSUM_LEN :: nat where
  "TABLE_BLOCK_CKSUM_LEN = 4"

record footer =
  ft_meta_index :: block_handle
  ft_index :: block_handle

definition footer_new :: "block_handle \<Rightarrow> block_handle \<Rightarrow> footer" where
  "footer_new metaix ix = \<lparr>ft_meta_index = metaix, ft_index = ix\<rparr>"

definition footer_decode :: "int_codec \<Rightarrow> bytes \<Rightarrow> footer option run" where
  "footer_decode ie bs =
     do { ensure (length bs \<ge> FULL_FOOTER_LENGTH);
          ensure (drop FOOTER_LENGTH bs = MAGIC_FOOTER_ENCODED);
          r \<leftarrow> bh_decode ie bs;
          case r of None \<Rightarrow> Some None
          | Some (meta, metalen) \<Rightarrow>
              do { rest \<leftarrow> slice_from metalen bs;
                   r \<leftarrow> bh_decode ie rest;
                   Some (case r of None \<Rightarrow> None
                     | Some (ix, _) \<Rightarrow> Some \<lparr>ft_meta_index = meta, ft_index = ix\<rparr>) } }"

definition footer_encode :: "int_codec \<Rightarrow> footer \<Rightarrow> bytes \<Rightarrow> bytes run" where
  "footer_encode ie f buf =
     do { ensure (length buf \<ge> FOOTER_LENGTH + 8);
          (s1, buf) \<leftarrow> bh_encode_to ie (ft_meta_index f) 0 buf;
          (s2, buf) \<leftarrow> bh_encode_to ie (ft_index f) s1 buf;
          let buf = overwrite (s1 + s2) (replicate (FOOTER_LENGTH - (s1 + s2)) 0) buf;
          Some (overwrite FOOTER_LENGTH MAGIC_FOOTER_ENCODED buf) }"


section \<open>Reading blocks\<close>

definition read_bytes :: "random_access \<Rightarrow> block_handle \<Rightarrow> bytes result" where
  "read_bytes f loc = (case f (bh_offset loc) (bh_size loc) of Inl e \<Rightarrow> Inl e | Inr (buf, _) \<Rightarrow> Inr buf)"

definition verify_table_block :: "(bytes \<Rightarrow> u32) \<Rightarrow> bytes \<Rightarrow> byte \<Rightarrow> u32 \<Rightarrow> bool" where
  "verify_table_block crc data compression want \<longleftrightarrow> crc (data @ [compression]) = want"

definition read_filter_block ::
    "int_codec \<Rightarrow> random_access \<Rightarrow> block_handle \<Rightarrow> filter_policy \<Rightarrow> filter_block_reader result run" where
  "read_filter_block ie f loc policy =
     (if bh_size loc = 0 then Some (err InvalidArgument ''no filter block in empty location'')
      else case read_bytes f loc of
          Inl e \<Rightarrow> Some (Inl e)
        | Inr buf \<Rightarrow> do { r \<leftarrow> filter_block_reader_new ie policy buf; Some (Inr r) })"

definition read_table_block ::
    "int_codec \<Rightarrow> (bytes \<Rightarrow> u32) \<Rightarrow> options \<Rightarrow> random_access \<Rightarrow> block_handle \<Rightarrow> block result run" where
  "read_table_block ie crc opt f loc =
     (case read_bytes f loc of Inl e \<Rightarrow> Some (Inl e) | Inr buf \<Rightarrow>
      case read_bytes f (bh_new (bh_offset loc + bh_size loc) TABLE_BLOCK_COMPRESS_LEN) of Inl e \<Rightarrow> Some (Inl e) | Inr compress \<Rightarrow>
      case read_bytes f (bh_new (bh_offset loc + bh_size loc + TABLE_BLOCK_COMPRESS_LEN) TABLE_BLOCK_CKSUM_LEN) of
        Inl e \<Rightarrow> Some (Inl e) | Inr cksum \<Rightarrow>
      do { ctype \<leftarrow> index compress 0;
           if \<not> verify_table_block crc buf ctype (unmask_crc (decode_fixed32 ie cksum))
           then Some (err Corruption (''checksum verification failed for block at '' @ show_nat (bh_offset loc)))
           else case compressor_get (opt_compressor_list opt) ctype of Inl e \<Rightarrow> Some (Inl e) | Inr c \<Rightarrow>
                case comp_decode c buf of Inl e \<Rightarrow> Some (Inl e) | Inr contents \<Rightarrow>
                do { b \<leftarrow> block_new opt contents; Some (Inr b) } })"

end
