(* ===== verification/Table_Builder.thy ===== *)
theory Table_Builder
  imports Table_Format
begin

text \<open>
  Writing a table file (\<open>src/src/table_builder.rs\<close>): entries are collected in a data block, which is
  written with its checksum once it is large enough; the index block gets a separator and the handle
  of every data block; at the end the filter block, the metaindex block, the index block and the
  footer follow. An operation that fails returns the builder as the failing step leaves it.
\<close>

record 'w table_builder =
  tb_opt :: options
  tb_dst :: 'w
  tb_offset :: nat
  tb_num_entries :: nat
  tb_prev_block_last_key :: bytes
  tb_data_block :: "block_builder option"
  tb_index_block :: "block_builder option"
  tb_filter_block :: "filter_block_builder option"

definition table_builder_new_raw :: "options \<Rightarrow> 'w \<Rightarrow> 'w table_builder" where
  "table_builder_new_raw opt w =
     \<lparr>tb_opt = opt, tb_dst = w, tb_offset = 0, tb_num_entries = 0, tb_prev_block_last_key = [],
      tb_data_block = Some (block_builder_new opt), tb_index_block = Some (block_builder_new opt),
      tb_filter_block = Some (filter_block_builder_new (opt_filter_policy opt))\<rparr>"

definition table_builder_new :: "int_codec \<Rightarrow> options \<Rightarrow> 'w \<Rightarrow> 'w table_builder" where
  "table_builder_new ie opt w =
     table_builder_new_raw (opt\<lparr>opt_cmp := InternalKeyCmp ie (opt_cmp opt),
       opt_filter_policy := InternalFilterPolicy (opt_filter_policy opt)\<rparr>) w"

definition table_builder_new_no_filter :: "int_codec \<Rightarrow> options \<Rightarrow> 'w \<Rightarrow> 'w table_builder" where
  "table_builder_new_no_filter ie opt w = table_builder_new ie (opt\<lparr>opt_filter_policy := NoFilterPolicy\<rparr>) w"

definition tb_entries :: "'w table_builder \<Rightarrow> nat" where
  "tb_entries tb = tb_num_entries tb"

definition tb_size_estimate :: "'w table_builder \<Rightarrow> nat" where
  "tb_size_estimate tb =
     (case tb_data_block tb of None \<Rightarrow> 0 | Some b \<Rightarrow> bb_size_estimate b) +
     (case tb_index_block tb of None \<Rightarrow> 0 | Some b \<Rightarrow> bb_size_estimate b) +
     (case tb_filter_block tb of None \<Rightarrow> 0 | Some b \<Rightarrow> fb_size_estimate b) +
     tb_offset tb + FULL_FOOTER_LENGTH"

text \<open>\<open>write_block\<close>: the compressed block, its compression type and the masked checksum.\<close>

definition write_block ::
    "int_codec \<Rightarrow> (bytes \<Rightarrow> u32) \<Rightarrow> 'w write_fun \<Rightarrow> 'w table_builder \<Rightarrow> bytes \<Rightarrow> byte \<Rightarrow> compressor \<Rightarrow>
      'w table_builder \<times> block_handle result" where
  "write_block ie crc wr tb contents ctype compr =
     (case comp_encode compr contents of
        Inl e \<Rightarrow> (tb, Inl e)
      | Inr data \<Rightarrow>
          (case write_seq wr (tb_dst tb)
               [data, replicate TABLE_BLOCK_COMPRESS_LEN ctype,
                encode_fixed32 ie (mask_crc (crc (data @ replicate TABLE_BLOCK_COMPRESS_LEN ctype)))] 0 of
             (w, Inl e) \<Rightarrow> (tb\<lparr>tb_dst := w\<rparr>, Inl e)
           | (w, Inr _) \<Rightarrow>
               (tb\<lparr>tb_dst := w, tb_offset := tb_offset tb + (length data + TABLE_BLOCK_COMPRESS_LEN + TABLE_BLOCK_CKSUM_LEN)\<rparr>,
                Inr (bh_new (tb_offset tb) (length data)))))"

text \<open>The encoded handle: what \<open>encode_to\<close> writes at the start of an array of 16 bytes.\<close>

definition handle_bytes :: "int_codec \<Rightarrow> block_handle \<Rightarrow> bytes run" where
  "handle_bytes ie h = do { (n, buf) \<leftarrow> bh_encode_to ie h 0 (replicate 16 0); slice_range 0 n buf }"

definition write_data_block ::
    "int_codec \<Rightarrow> (bytes \<Rightarrow> u32) \<Rightarrow> 'w write_fun \<Rightarrow> 'w table_builder \<Rightarrow> bytes \<Rightarrow> ('w table_builder \<times> unit result) run" where
  "write_data_block ie crc wr tb next_key =
     do { block \<leftarrow> tb_data_block tb;
          let tb = tb\<lparr>tb_data_block := None\<rparr>;
          sep \<leftarrow> find_shortest_sep (opt_cmp (tb_opt tb)) (bb_last_key block) next_key;
          let tb = tb\<lparr>tb_prev_block_last_key := bb_last_key block\<rparr>;
          let contents = bb_finish ie block;
          case compressor_get (opt_compressor_list (tb_opt tb)) (opt_compressor (tb_opt tb)) of
            Inl e \<Rightarrow> Some (tb, Inl e)
          | Inr compr \<Rightarrow>
              (case write_block ie crc wr tb contents (opt_compressor (tb_opt tb)) compr of
                 (tb, Inl e) \<Rightarrow> Some (tb, Inl e)
               | (tb, Inr handle) \<Rightarrow>
                   do { enc \<leftarrow> handle_bytes ie handle;
                        ib \<leftarrow> tb_index_block tb;
                        ib \<leftarrow> bb_add ie ib sep enc;
                        let tb = tb\<lparr>tb_index_block := Some ib, tb_data_block := Some (block_builder_new (tb_opt tb))\<rparr>;
                        case tb_filter_block tb of
                          None \<Rightarrow> Some (tb, Inr ())
                        | Some fb \<Rightarrow> do { fb \<leftarrow> start_block fb (tb_offset tb);
                                         Some (tb\<lparr>tb_filter_block := Some fb\<rparr>, Inr ()) } }) }"

definition tb_add ::
    "int_codec \<Rightarrow> (bytes \<Rightarrow> u32) \<Rightarrow> 'w write_fun \<Rightarrow> 'w table_builder \<Rightarrow> bytes \<Rightarrow> bytes \<Rightarrow> ('w table_builder \<times> unit result) run" where
  "tb_add ie crc wr tb key val =
     do { block \<leftarrow> tb_data_block tb;
          (if tb_prev_block_last_key tb = [] then Some ()
           else do { c \<leftarrow> cmp (opt_cmp (tb_opt tb)) (tb_prev_block_last_key tb) key; ensure (c = Less) });
          (tb, r) \<leftarrow> (if bb_size_estimate block > options.block_size (tb_opt tb) then write_data_block ie crc wr tb key
                     else Some (tb, Inr ()));
          case r of
            Inl e \<Rightarrow> Some (tb, Inl e)
          | Inr _ \<Rightarrow>
              do { dblock \<leftarrow> tb_data_block tb;
                   let tb = tb\<lparr>tb_filter_block := map_option (\<lambda>fb. add_key fb key) (tb_filter_block tb),
                               tb_num_entries := tb_num_entries tb + 1\<rparr>;
                   dblock \<leftarrow> bb_add ie dblock key val;
                   Some (tb\<lparr>tb_data_block := Some dblock\<rparr>, Inr ()) } }"

text \<open>
  The end of \<open>finish\<close>, after the data blocks: the metaindex block, the index block and the footer.
  \<open>Dst::flush\<close> is a parameter like the write function.
\<close>

definition write_filter_block ::
    "int_codec \<Rightarrow> (bytes \<Rightarrow> u32) \<Rightarrow> 'w write_fun \<Rightarrow> 'w table_builder \<Rightarrow> block_builder \<Rightarrow>
      ('w table_builder \<times> block_builder result) run" where
  "write_filter_block ie crc wr tb meta =
     (case tb_filter_block tb of
        None \<Rightarrow> Some (tb, Inr meta)
      | Some fb \<Rightarrow>
          do { let tb = tb\<lparr>tb_filter_block := None\<rparr>;
               let filter_key = map of_char (''filter.'' @ filter_name fb);
               data \<leftarrow> fb_finish ie fb;
               case write_block ie crc wr tb data NoneCompressor_ID NoneCompressor of
                 (tb, Inl e) \<Rightarrow> Some (tb, Inl e)
               | (tb, Inr handle) \<Rightarrow>
                   do { enc \<leftarrow> handle_bytes ie handle;
                        meta \<leftarrow> bb_add ie meta filter_key enc;
                        Some (tb, Inr meta) } })"

definition tb_finish ::
    "int_codec \<Rightarrow> (bytes \<Rightarrow> u32) \<Rightarrow> 'w write_fun \<Rightarrow> ('w \<Rightarrow> 'w \<times> unit result) \<Rightarrow> 'w table_builder \<Rightarrow> ('w \<times> nat result) run" where
  "tb_finish ie crc wr flush tb =
     do { block \<leftarrow> tb_data_block tb;
          case compressor_get (opt_compressor_list (tb_opt tb)) (opt_compressor (tb_opt tb)) of
            Inl e \<Rightarrow> Some (tb_dst tb, Inl e)
          | Inr compr \<Rightarrow>
              do { (tb, r) \<leftarrow> (if bb_entries block > 0
                              then do { key_past_last \<leftarrow> find_short_succ (opt_cmp (tb_opt tb)) (bb_last_key block);
                                        write_data_block ie crc wr tb key_past_last }
                              else Some (tb, Inr ()));
                   case r of Inl e \<Rightarrow> Some (tb_dst tb, Inl e) | Inr _ \<Rightarrow>
                   do { (tb, r) \<leftarrow> write_filter_block ie crc wr tb (block_builder_new (tb_opt tb));
                        case r of Inl e \<Rightarrow> Some (tb_dst tb, Inl e) | Inr meta \<Rightarrow>
                        (case write_block ie crc wr tb (bb_finish ie meta) (opt_compressor (tb_opt tb)) compr of
                           (tb, Inl e) \<Rightarrow> Some (tb_dst tb, Inl e)
                         | (tb, Inr meta_ix_handle) \<Rightarrow>
                             do { ib \<leftarrow> tb_index_block tb;
                                  case write_block ie crc wr tb (bb_finish ie ib) (opt_compressor (tb_opt tb)) compr of
                                    (tb, Inl e) \<Rightarrow> Some (tb_dst tb, Inl e)
                                  | (tb, Inr ix_handle) \<Rightarrow>
                                      do { buf \<leftarrow> footer_encode ie (footer_new meta_ix_handle ix_handle) (replicate FULL_FOOTER_LENGTH 0);
                                           case wr (tb_dst tb) buf of
                                             (w, Inl e) \<Rightarrow> Some (w, Inl e)
                                           | (w, Inr n) \<Rightarrow>
                                               (case flush w of
                                                  (w, Inl e) \<Rightarrow> Some (w, Inl e)
                                                | (w, Inr _) \<Rightarrow> Some (w, Inr (tb_offset tb + n))) } }) } } }"

end
