(* ===== verification/Table_Reader.thy ===== *)
theory Table_Reader
  imports Table_Builder Lru_Cache
begin

text \<open>
  Reading a table file (\<open>src/src/table_reader.rs\<close>). The block cache, which all tables share, is passed
  to and returned by the operations that use it. The iterator over a table reads blocks through a
  function \<open>rb\<close>, the result of \<open>read_block\<close>; that a coherent cache does not change this result is
  shown in theory Table\_Blocks. Error messages are given without the bytes some of them print.
\<close>

definition read_footer :: "int_codec \<Rightarrow> random_access \<Rightarrow> nat \<Rightarrow> footer result run" where
  "read_footer ie f file_size =
     do { off \<leftarrow> usub file_size FULL_FOOTER_LENGTH;
          case f off FULL_FOOTER_LENGTH of
            Inl e \<Rightarrow> Some (Inl e)
          | Inr (buf, _) \<Rightarrow>
              do { r \<leftarrow> footer_decode ie buf;
                   Some (case r of
                       Some ok \<Rightarrow> Inr ok
                     | None \<Rightarrow> err Corruption ''Couldn't decode damaged footer'') } }"

record table =
  t_file :: random_access
  t_file_size :: nat
  t_cache_id :: u64
  t_opt :: options
  t_footer :: footer
  t_indexblock :: block
  t_filters :: "filter_block_reader option"

text \<open>\<open>current_key_val\<close> of a block iterator placed by \<open>seek\<close>.\<close>

definition block_seek_entry :: "int_codec \<Rightarrow> block \<Rightarrow> bytes \<Rightarrow> (bytes \<times> bytes) option run" where
  "block_seek_entry ie b key = do { it \<leftarrow> block_iter_new ie b; it \<leftarrow> bi_seek ie key it; bi_current it }"

definition table_read_filter_block ::
    "int_codec \<Rightarrow> block \<Rightarrow> random_access \<Rightarrow> options \<Rightarrow> filter_block_reader option result run" where
  "table_read_filter_block ie metaix file opt =
     do { e \<leftarrow> block_seek_entry ie metaix (map of_char (''filter.'' @ fp_name (opt_filter_policy opt)));
          case e of
            None \<Rightarrow> Some (Inr None)
          | Some (_, val) \<Rightarrow>
              do { fbl \<leftarrow> bh_decode ie val;
                   case fbl of
                     None \<Rightarrow> Some (err Corruption ''Couldn't decode corrupt blockhandle'')
                   | Some (loc, _) \<Rightarrow>
                       if bh_size loc > 0
                       then do { r \<leftarrow> read_filter_block ie file loc (opt_filter_policy opt);
                                 Some (case r of Inl e \<Rightarrow> Inl e | Inr fbr \<Rightarrow> Inr (Some fbr)) }
                       else Some (Inr None) } }"

type_synonym block_cache = "block cache"

definition table_new_raw ::
    "int_codec \<Rightarrow> (bytes \<Rightarrow> u32) \<Rightarrow> options \<Rightarrow> block_cache \<Rightarrow> random_access \<Rightarrow> nat \<Rightarrow> (table result \<times> block_cache) run" where
  "table_new_raw ie crc opt cache file file_size =
     do { r \<leftarrow> read_footer ie file file_size;
          case r of Inl e \<Rightarrow> Some (Inl e, cache) | Inr ft \<Rightarrow>
          do { r \<leftarrow> read_table_block ie crc opt file (ft_index ft);
               case r of Inl e \<Rightarrow> Some (Inl e, cache) | Inr indexblock \<Rightarrow>
               do { r \<leftarrow> read_table_block ie crc opt file (ft_meta_index ft);
                    case r of Inl e \<Rightarrow> Some (Inl e, cache) | Inr metaindexblock \<Rightarrow>
                    do { r \<leftarrow> table_read_filter_block ie metaindexblock file opt;
                         case r of Inl e \<Rightarrow> Some (Inl e, cache) | Inr filters \<Rightarrow>
                         do { let (cache_id, cache) = new_cache_id cache;
                              Some (Inr \<lparr>t_file = file, t_file_size = file_size, t_cache_id = cache_id, t_opt = opt,
                                         t_footer = ft, t_indexblock = indexblock, t_filters = filters\<rparr>, cache) } } } } }"

definition table_new ::
    "int_codec \<Rightarrow> (bytes \<Rightarrow> u32) \<Rightarrow> options \<Rightarrow> block_cache \<Rightarrow> random_access \<Rightarrow> nat \<Rightarrow> (table result \<times> block_cache) run" where
  "table_new ie crc opt cache file file_size =
     table_new_raw ie crc (opt\<lparr>opt_cmp := InternalKeyCmp ie (opt_cmp opt),
       opt_filter_policy := InternalFilterPolicy (opt_filter_policy opt)\<rparr>) cache file file_size"

definition block_cache_handle :: "int_codec \<Rightarrow> table \<Rightarrow> nat \<Rightarrow> cache_key" where
  "block_cache_handle ie t block_off = encode_fixed64 ie (t_cache_id t) @ encode_fixed64 ie (of_nat block_off)"

definition read_block ::
    "int_codec \<Rightarrow> (bytes \<Rightarrow> u32) \<Rightarrow> table \<Rightarrow> block_cache \<Rightarrow> block_handle \<Rightarrow> (block result \<times> block_cache) run" where
  "read_block ie crc t cache loc =
     do { let cachekey = block_cache_handle ie t (bh_offset loc);
          (hit, cache) \<leftarrow> cache_get cache cachekey;
          case hit of
            Some b \<Rightarrow> Some (Inr b, cache)
          | None \<Rightarrow>
              do { r \<leftarrow> read_table_block ie crc (t_opt t) (t_file t) loc;
                   case r of
                     Inl e \<Rightarrow> Some (Inl e, cache)
                   | Inr b \<Rightarrow> do { cache \<leftarrow> cache_insert cache cachekey b; Some (Inr b, cache) } } }"

definition approx_offset_of :: "int_codec \<Rightarrow> table \<Rightarrow> bytes \<Rightarrow> nat run" where
  "approx_offset_of ie t key =
     do { e \<leftarrow> block_seek_entry ie (t_indexblock t) key;
          case e of
            Some (_, val) \<Rightarrow> do { r \<leftarrow> bh_decode ie val; (loc, _) \<leftarrow> r; Some (bh_offset loc) }
          | None \<Rightarrow> Some (bh_offset (ft_meta_index (t_footer t))) }"

definition table_entry_get ::
    "int_codec \<Rightarrow> (bytes \<Rightarrow> u32) \<Rightarrow> table \<Rightarrow> block_cache \<Rightarrow> bytes \<Rightarrow> ((bytes \<times> bytes) option result \<times> block_cache) run" where
  "table_entry_get ie crc t cache key =
     do { e \<leftarrow> block_seek_entry ie (t_indexblock t) key;
          case e of
            None \<Rightarrow> Some (Inr None, cache)
          | Some (last_in_block, h) \<Rightarrow>
              do { c \<leftarrow> cmp (opt_cmp (t_opt t)) key last_in_block;
                   if c \<noteq> Less then Some (Inr None, cache)
                   else do { r \<leftarrow> bh_decode ie h;
                             (handle, _) \<leftarrow> r;
                             may \<leftarrow> (case t_filters t of
                                      None \<Rightarrow> Some True
                                    | Some fbr \<Rightarrow> fbr_key_may_match ie fbr (bh_offset handle) key);
                             if \<not> may then Some (Inr None, cache)
                             else do { (r, cache) \<leftarrow> read_block ie crc t cache handle;
                                       case r of
                                         Inl e \<Rightarrow> Some (Inl e, cache)
                                       | Inr tb \<Rightarrow>
                                           do { e \<leftarrow> block_seek_entry ie tb key;
                                                case e of
                                                  None \<Rightarrow> Some (Inr None, cache)
                                                | Some (k, v) \<Rightarrow>
                                                    do { c \<leftarrow> cmp (opt_cmp (t_opt t)) k key;
                                                         Some (Inr (if c \<ge> Equal then Some (k, v) else None), cache) } } } } } }"


section \<open>The iterator\<close>

type_synonym block_reader = "block_handle \<Rightarrow> block result run"

record table_iter =
  ti_table :: table
  ti_current_block :: "block_iter option"
  ti_current_block_off :: nat
  ti_index_block :: block_iter

definition table_iter_new :: "int_codec \<Rightarrow> table \<Rightarrow> table_iter run" where
  "table_iter_new ie t =
     do { ix \<leftarrow> block_iter_new ie (t_indexblock t);
          Some \<lparr>ti_table = t, ti_current_block = None, ti_current_block_off = 0, ti_index_block = ix\<rparr> }"

definition load_block :: "int_codec \<Rightarrow> block_reader \<Rightarrow> table_iter \<Rightarrow> bytes \<Rightarrow> (unit result \<times> table_iter) run" where
  "load_block ie rb it handle =
     do { r \<leftarrow> bh_decode ie handle;
          case r of
            None \<Rightarrow> Some (err Corruption ''Couldn't decode corrupt block handle'', it)
          | Some (new_block_handle, _) \<Rightarrow>
              do { r \<leftarrow> rb new_block_handle;
                   case r of
                     Inl e \<Rightarrow> Some (Inl e, it)
                   | Inr b \<Rightarrow> do { bi \<leftarrow> block_iter_new ie b;
                                  Some (Inr (), it\<lparr>ti_current_block := Some bi,
                                                  ti_current_block_off := bh_offset new_block_handle\<rparr>) } } }"

definition skip_to_next_entry :: "int_codec \<Rightarrow> block_reader \<Rightarrow> table_iter \<Rightarrow> (bool result \<times> table_iter) run" where
  "skip_to_next_entry ie rb it =
     do { (e, ix) \<leftarrow> bi_next ie (ti_index_block it);
          let it = it\<lparr>ti_index_block := ix\<rparr>;
          case e of
            None \<Rightarrow> Some (Inr False, it)
          | Some (_, val) \<Rightarrow> do { (r, it) \<leftarrow> load_block ie rb it val; Some (map_sum id (\<lambda>_. True) r, it) } }"

definition ti_reset :: "table_iter \<Rightarrow> table_iter" where
  "ti_reset it = it\<lparr>ti_index_block := bi_reset (ti_index_block it), ti_current_block := None\<rparr>"

text \<open>
  Both branches of \<open>advance\<close> that load a block continue alike: with the entries of the block when one
  was loaded or could not be read, at the end otherwise.
\<close>

partial_function (option) ti_advance :: "int_codec \<Rightarrow> block_reader \<Rightarrow> table_iter \<Rightarrow> (bool \<times> table_iter) option" where
  "ti_advance ie rb it =
     (case ti_current_block it of
        None \<Rightarrow> Some (False, it)
      | Some cb \<Rightarrow> bi_advance ie cb \<bind> (\<lambda>(moved, cb). Some (moved, it\<lparr>ti_current_block := Some cb\<rparr>))) \<bind> (\<lambda>(moved, it).
     if moved then Some (True, it)
     else skip_to_next_entry ie rb (it\<lparr>ti_current_block := None\<rparr>) \<bind> (\<lambda>(r, it).
       if r = Inr False then Some (False, ti_reset it) else ti_advance ie rb it))"

definition ti_seek :: "int_codec \<Rightarrow> block_reader \<Rightarrow> bytes \<Rightarrow> table_iter \<Rightarrow> table_iter run" where
  "ti_seek ie rb to it =
     do { ix \<leftarrow> bi_seek ie to (ti_index_block it);
          let it = it\<lparr>ti_index_block := ix\<rparr>;
          e \<leftarrow> bi_current ix;
          case e of
            None \<Rightarrow> Some (ti_reset it)
          | Some (past_block, handle) \<Rightarrow>
              do { c \<leftarrow> cmp (opt_cmp (t_opt (ti_table it))) to past_block;
                   if c \<le> Equal
                   then do { (r, it) \<leftarrow> load_block ie rb it handle;
                             case r of
                               Inl _ \<Rightarrow> Some (ti_reset it)
                             | Inr _ \<Rightarrow> do { cb \<leftarrow> ti_current_block it;
                                            cb \<leftarrow> bi_seek ie to cb;
                                            Some (it\<lparr>ti_current_block := Some cb\<rparr>) } }
                   else Some (ti_reset it) } }"

definition ti_prev_block :: "int_codec \<Rightarrow> block_reader \<Rightarrow> table_iter \<Rightarrow> (bool \<times> table_iter) run" where
  "ti_prev_block ie rb it =
     do { (moved, ix) \<leftarrow> bi_prev ie (ti_index_block it);
          let it = it\<lparr>ti_index_block := ix\<rparr>;
          if \<not> moved then Some (False, it)
          else do { e \<leftarrow> bi_current ix;
                    case e of
                      None \<Rightarrow> Some (False, it)
                    | Some (_, handle) \<Rightarrow>
                        do { (r, it) \<leftarrow> load_block ie rb it handle;
                             case r of
                               Inl _ \<Rightarrow> Some (False, ti_reset it)
                             | Inr _ \<Rightarrow> do { cb \<leftarrow> ti_current_block it;
                                            (_, cb) \<leftarrow> seek_to_last ie cb;
                                            Some (bi_valid cb, it\<lparr>ti_current_block := Some cb\<rparr>) } } } }"

definition ti_prev :: "int_codec \<Rightarrow> block_reader \<Rightarrow> table_iter \<Rightarrow> (bool \<times> table_iter) run" where
  "ti_prev ie rb it =
     (case ti_current_block it of
        None \<Rightarrow> ti_prev_block ie rb it
      | Some cb \<Rightarrow> do { (moved, cb) \<leftarrow> bi_prev ie cb;
                       let it = it\<lparr>ti_current_block := Some cb\<rparr>;
                       if moved then Some (True, it) else ti_prev_block ie rb it })"

definition ti_valid :: "table_iter \<Rightarrow> bool" where
  "ti_valid it = (case ti_current_block it of None \<Rightarrow> False | Some cb \<Rightarrow> bi_valid cb)"

definition ti_current :: "table_iter \<Rightarrow> (bytes \<times> bytes) option run" where
  "ti_current it = (case ti_current_block it of None \<Rightarrow> Some None | Some cb \<Rightarrow> bi_current cb)"

definition table_iter_ops :: "int_codec \<Rightarrow> block_reader \<Rightarrow> table_iter iter_ops" where
  "table_iter_ops ie rb =
     \<lparr>it_advance = ti_advance ie rb, it_current = ti_current, it_seek = ti_seek ie rb,
      it_reset = (\<lambda>it. Some (ti_reset it)), it_valid = ti_valid, it_prev = ti_prev ie rb\<rparr>"

end
