(* ===== verification/Mem_Env.thy ===== *)
theory Mem_Env
  imports Byte_Io "HOL-Library.AList"
begin

text \<open>
  The environment in memory (\<open>src/src/mem_env.rs\<close>). Files are shared buffers: they live in a heap, and
  readers, writers and the entries of the file system hold their address. The map from names to
  entries is an association list, whose order stands for the unspecified order of the hash map.
  A lock around a buffer or the map is poisoned only by a panic, which ends a run of the model, so
  the locks are left out.
\<close>

section \<open>Files\<close>

text \<open>\<open>read_at\<close> on a byte vector, with a buffer of zeros.\<close>

definition buffer_read_at :: "bytes \<Rightarrow> random_access" where
  "buffer_read_at buf off n =
     (if off > length buf then Inr (replicate n 0, 0)
      else let to_read = (if n > length buf - off then length buf - off else n)
           in Inr (take to_read (drop off buf) @ replicate (n - to_read) 0, to_read))"

type_synonym mem_file = nat

record mem_fs_entry =
  me_file :: mem_file
  me_locked :: bool

record mem_fs =
  fs_buffers :: "mem_file \<Rightarrow> bytes"
  fs_next :: mem_file
  fs_store :: "(string \<times> mem_fs_entry) list"

definition mem_fs_new :: mem_fs where
  "mem_fs_new = \<lparr>fs_buffers = (\<lambda>_. []), fs_next = 0, fs_store = []\<rparr>"

definition mem_file_new :: "mem_fs \<Rightarrow> mem_file \<times> mem_fs" where
  "mem_file_new fs = (fs_next fs, fs\<lparr>fs_buffers := (fs_buffers fs)(fs_next fs := []), fs_next := fs_next fs + 1\<rparr>)"

text \<open>A reader or a writer: the file and the offset.\<close>

type_synonym mem_cursor = "mem_file \<times> nat"

definition mem_reader_new :: "mem_file \<Rightarrow> nat \<Rightarrow> mem_cursor" where
  "mem_reader_new f start = (f, start)"

definition mem_read :: "mem_fs \<Rightarrow> mem_cursor \<Rightarrow> nat \<Rightarrow> mem_cursor \<times> bytes result" where
  "mem_read fs r n =
     (let buf = fs_buffers fs (fst r)
      in if snd r \<ge> length buf then (r, Inr [])
         else let to_read = (if n > length buf - snd r then length buf - snd r else n)
              in ((fst r, snd r + to_read), Inr (take to_read (drop (snd r) buf))))"

definition mem_writer_new :: "mem_fs \<Rightarrow> mem_file \<Rightarrow> bool \<Rightarrow> mem_cursor" where
  "mem_writer_new fs f app = (f, if app then length (fs_buffers fs f) else 0)"

definition mem_write :: "mem_fs \<Rightarrow> mem_cursor \<Rightarrow> bytes \<Rightarrow> (mem_fs \<times> mem_cursor \<times> nat result) run" where
  "mem_write fs w bs =
     do { let buf = fs_buffers fs (fst w);
          buf' \<leftarrow> (if snd w = length buf then Some (buf @ bs)
                  else do { remaining \<leftarrow> usub (length buf) (snd w);
                            if length bs \<le> remaining then Some (overwrite (snd w) bs buf)
                            else Some (overwrite (snd w) (take remaining bs) buf @ drop remaining bs) });
          Some (fs\<lparr>fs_buffers := (fs_buffers fs)(fst w := buf')\<rparr>, (fst w, snd w + length bs), Inr (length bs)) }"

definition mem_file_read_at :: "mem_fs \<Rightarrow> mem_file \<Rightarrow> random_access" where
  "mem_file_read_at fs f = buffer_read_at (fs_buffers fs f)"


section \<open>The file system\<close>

definition fs_entry :: "mem_fs \<Rightarrow> string \<Rightarrow> mem_fs_entry option" where
  "fs_entry fs p = map_of (fs_store fs) p"

definition fs_insert :: "string \<Rightarrow> mem_fs_entry \<Rightarrow> mem_fs \<Rightarrow> mem_fs" where
  "fs_insert p e fs = fs\<lparr>fs_store := AList.update p e (fs_store fs)\<rparr>"

definition fs_remove :: "string \<Rightarrow> mem_fs \<Rightarrow> mem_fs" where
  "fs_remove p fs = fs\<lparr>fs_store := AList.delete p (fs_store fs)\<rparr>"

definition fs_open :: "mem_fs \<Rightarrow> string \<Rightarrow> bool \<Rightarrow> mem_file result \<times> mem_fs" where
  "fs_open fs p create =
     (case fs_entry fs p of
        Some e \<Rightarrow> (Inr (me_file e), fs)
      | None \<Rightarrow>
          if \<not> create then (err NotFound (''open: file not found: '' @ p), fs)
          else (case mem_file_new fs of (f, fs) \<Rightarrow> (Inr f, fs_insert p \<lparr>me_file = f, me_locked = False\<rparr> fs)))"

definition fs_open_w :: "mem_fs \<Rightarrow> string \<Rightarrow> bool \<Rightarrow> bool \<Rightarrow> mem_cursor result \<times> mem_fs" where
  "fs_open_w fs p app trunc =
     (case fs_open fs p True of
        (Inl e, fs) \<Rightarrow> (Inl e, fs)
      | (Inr f, fs) \<Rightarrow>
          let fs = (if trunc then fs\<lparr>fs_buffers := (fs_buffers fs)(f := [])\<rparr> else fs)
          in (Inr (mem_writer_new fs f app), fs))"

definition fs_exists :: "mem_fs \<Rightarrow> string \<Rightarrow> bool result" where
  "fs_exists fs p = Inr (fs_entry fs p \<noteq> None)"

definition fs_children_of :: "mem_fs \<Rightarrow> string \<Rightarrow> string list result" where
  "fs_children_of fs p =
     (let prefix = (if p \<noteq> [] \<and> last p = CHR ''/'' then p else p @ ''/'')
      in Inr (map (drop (length prefix)) (filter (\<lambda>k. take (length prefix) k = prefix) (map fst (fs_store fs)))))"

definition fs_size_of :: "mem_fs \<Rightarrow> string \<Rightarrow> nat result" where
  "fs_size_of fs p =
     (case fs_entry fs p of
        Some e \<Rightarrow> Inr (length (fs_buffers fs (me_file e)))
      | None \<Rightarrow> err NotFound (''size_of: file not found: '' @ p))"

definition fs_delete :: "mem_fs \<Rightarrow> string \<Rightarrow> unit result \<times> mem_fs" where
  "fs_delete fs p =
     (case fs_entry fs p of
        Some _ \<Rightarrow> (Inr (), fs_remove p fs)
      | None \<Rightarrow> (err NotFound (''delete: file not found: '' @ p), fs))"

definition fs_rename :: "mem_fs \<Rightarrow> string \<Rightarrow> string \<Rightarrow> unit result \<times> mem_fs" where
  "fs_rename fs p q =
     (case fs_entry fs p of
        Some e \<Rightarrow> (Inr (), fs_insert q e (fs_remove p fs))
      | None \<Rightarrow> (err NotFound (''rename: file not found: '' @ p), fs))"

definition fs_lock :: "mem_fs \<Rightarrow> string \<Rightarrow> string result \<times> mem_fs" where
  "fs_lock fs p =
     (case fs_entry fs p of
        Some e \<Rightarrow> if me_locked e then (err LockError (''already locked: '' @ p), fs)
                  else (Inr p, fs_insert p (e\<lparr>me_locked := True\<rparr>) fs)
      | None \<Rightarrow> (case mem_file_new fs of (f, fs) \<Rightarrow> (Inr p, fs_insert p \<lparr>me_file = f, me_locked = True\<rparr> fs)))"

definition fs_unlock :: "mem_fs \<Rightarrow> string \<Rightarrow> unit result \<times> mem_fs" where
  "fs_unlock fs p =
     (case fs_entry fs p of
        Some e \<Rightarrow> if \<not> me_locked e then (err LockError (''unlocking unlocked file: '' @ p), fs)
                  else (Inr (), fs_insert p (e\<lparr>me_locked := False\<rparr>) fs)
      | None \<Rightarrow> (err NotFound (''unlock: file not found: '' @ p), fs))"


section \<open>The environment\<close>

definition open_sequential_file :: "mem_fs \<Rightarrow> string \<Rightarrow> mem_cursor result \<times> mem_fs" where
  "open_sequential_file fs p =
     (case fs_open fs p False of (Inl e, fs) \<Rightarrow> (Inl e, fs) | (Inr f, fs) \<Rightarrow> (Inr (mem_reader_new f 0), fs))"

definition open_random_access_file :: "mem_fs \<Rightarrow> string \<Rightarrow> mem_file result \<times> mem_fs" where
  "open_random_access_file fs p = fs_open fs p False"

definition open_writable_file :: "mem_fs \<Rightarrow> string \<Rightarrow> mem_cursor result \<times> mem_fs" where
  "open_writable_file fs p = fs_open_w fs p True True"

definition open_appendable_file :: "mem_fs \<Rightarrow> string \<Rightarrow> mem_cursor result \<times> mem_fs" where
  "open_appendable_file fs p = fs_open_w fs p True False"

definition env_mkdir :: "mem_fs \<Rightarrow> string \<Rightarrow> unit result" where
  "env_mkdir fs p = (case fs_exists fs p of Inl e \<Rightarrow> Inl e | Inr b \<Rightarrow> if b then err AlreadyExists [] else Inr ())"

definition env_rmdir :: "mem_fs \<Rightarrow> string \<Rightarrow> unit result" where
  "env_rmdir fs p = (case fs_exists fs p of Inl e \<Rightarrow> Inl e | Inr b \<Rightarrow> if \<not> b then err NotFound [] else Inr ())"

text \<open>A logger writes a message and a newline and ignores errors.\<close>

definition logger_log :: "mem_fs \<Rightarrow> mem_cursor \<Rightarrow> string \<Rightarrow> (mem_fs \<times> mem_cursor) run" where
  "logger_log fs w message =
     do { (fs, w, _) \<leftarrow> mem_write fs w (map of_char message);
          (fs, w, _) \<leftarrow> mem_write fs w (map of_char [CHR 0x0A]);
          Some (fs, w) }"


section \<open>Files as byte sources, sinks and random-access files\<close>

interpretation buffer_random: random_file "buffer_read_at buf" buf for buf
  by unfold_locales (auto simp: buffer_read_at_def)

interpretation mem_random: random_file "mem_file_read_at fs f" "fs_buffers fs f" for fs f
  by unfold_locales (simp add: mem_file_read_at_def buffer_random.read_at_inside)

interpretation mem_reader: byte_source "mem_read fs" "\<lambda>r. drop (snd r) (fs_buffers fs (fst r))" for fs
proof
  fix r :: mem_cursor and n
  show "\<exists>r'. mem_read fs r n = (r', Inr (take n (drop (snd r) (fs_buffers fs (fst r))))) \<and>
      drop (snd r') (fs_buffers fs (fst r')) = drop n (drop (snd r) (fs_buffers fs (fst r)))"
    by (cases r) (auto simp: mem_read_def Let_def add.commute)
qed

text \<open>A writer at the end of its file appends and stays at the end.\<close>

definition mem_append :: "(mem_fs \<times> mem_file) write_fun" where
  "mem_append w bs =
     (case mem_write (fst w) (snd w, length (fs_buffers (fst w) (snd w))) bs of
        None \<Rightarrow> (w, err IOError []) | Some (fs, _, r) \<Rightarrow> ((fs, snd w), r))"

lemma mem_write_end:
  "mem_write fs (f, length (fs_buffers fs f)) bs =
     Some (fs\<lparr>fs_buffers := (fs_buffers fs)(f := fs_buffers fs f @ bs)\<rparr>, (f, length (fs_buffers fs f) + length bs), Inr (length bs))"
  by (simp add: mem_write_def Let_def)

interpretation mem_sink: byte_sink mem_append "\<lambda>(fs, f). fs_buffers fs f"
  by unfold_locales (auto simp: mem_append_def mem_write_end)


section \<open>Names\<close>

lemma fs_entry_insert [simp]: "fs_entry (fs_insert p e fs) q = (if q = p then Some e else fs_entry fs q)"
  by (simp add: fs_entry_def fs_insert_def update_conv')

lemma fs_entry_remove [simp]: "fs_entry (fs_remove p fs) q = (if q = p then None else fs_entry fs q)"
  by (simp add: fs_entry_def fs_remove_def delete_conv')

lemma fs_entry_buffers [simp]: "fs_entry (fs\<lparr>fs_buffers := b\<rparr>) p = fs_entry fs p" "fs_entry (fs\<lparr>fs_next := n\<rparr>) p = fs_entry fs p"
  by (simp_all add: fs_entry_def)

lemma fs_insert_buffers [simp]: "fs_buffers (fs_insert p e fs) = fs_buffers fs" "fs_buffers (fs_remove p fs) = fs_buffers fs"
  "fs_next (fs_insert p e fs) = fs_next fs" "fs_next (fs_remove p fs) = fs_next fs"
  by (simp_all add: fs_insert_def fs_remove_def)

text \<open>Different names stand for different files, all of them allocated.\<close>

definition fs_inv :: "mem_fs \<Rightarrow> bool" where
  "fs_inv fs \<longleftrightarrow> (\<forall>p e. fs_entry fs p = Some e \<longrightarrow> me_file e < fs_next fs) \<and>
     (\<forall>p q e e'. fs_entry fs p = Some e \<longrightarrow> fs_entry fs q = Some e' \<longrightarrow> me_file e = me_file e' \<longrightarrow> p = q)"

lemma fs_inv_buffers [simp]: "fs_inv (fs\<lparr>fs_buffers := b\<rparr>) \<longleftrightarrow> fs_inv fs"
  by (simp add: fs_inv_def)

lemma fs_inv_new: "fs_inv mem_fs_new"
  by (simp add: fs_inv_def mem_fs_new_def fs_entry_def)

text \<open>The operations of the file system that an environment offers, as steps.\<close>

datatype fs_op = OpOpen string bool | OpOpenW string bool bool | OpWrite mem_cursor bytes | OpDelete string
  | OpRename string string | OpLock string | OpUnlock string

fun fs_exec :: "fs_op \<Rightarrow> mem_fs \<Rightarrow> mem_fs run" where
  "fs_exec (OpOpen p create) fs = Some (snd (fs_open fs p create))"
| "fs_exec (OpOpenW p app trunc) fs = Some (snd (fs_open_w fs p app trunc))"
| "fs_exec (OpWrite w bs) fs = do { (fs, _, _) \<leftarrow> mem_write fs w bs; Some fs }"
| "fs_exec (OpDelete p) fs = Some (snd (fs_delete fs p))"
| "fs_exec (OpRename p q) fs = Some (snd (fs_rename fs p q))"
| "fs_exec (OpLock p) fs = Some (snd (fs_lock fs p))"
| "fs_exec (OpUnlock p) fs = Some (snd (fs_unlock fs p))"

fun fs_run :: "fs_op list \<Rightarrow> mem_fs \<Rightarrow> mem_fs run" where
  "fs_run [] fs = Some fs"
| "fs_run (x # xs) fs = do { fs \<leftarrow> fs_exec x fs; fs_run xs fs }"

text \<open>The operation leaves the entry of a name alone.\<close>

fun keeps_entry :: "string \<Rightarrow> fs_op \<Rightarrow> bool" where
  "keeps_entry p (OpDelete q) \<longleftrightarrow> q \<noteq> p"
| "keeps_entry p (OpRename q r) \<longleftrightarrow> q \<noteq> p \<and> r \<noteq> p"
| "keeps_entry p (OpUnlock q) \<longleftrightarrow> q \<noteq> p"
| "keeps_entry p _ \<longleftrightarrow> True"

lemmas fs_ops = fs_open_def fs_open_w_def fs_delete_def fs_rename_def fs_lock_def fs_unlock_def mem_file_new_def

lemma fs_exec_inv:
  assumes "fs_inv fs" "fs_exec x fs = Some fs'"
  shows "fs_inv fs'"
proof -
  have "fs_inv (fs_insert p \<lparr>me_file = fs_next fs, me_locked = l\<rparr> (fs\<lparr>fs_buffers := b, fs_next := Suc (fs_next fs)\<rparr>))" for p l b
    using assms(1) by (fastforce simp: fs_inv_def)
  moreover have "fs_inv (fs_insert p (e\<lparr>me_locked := l\<rparr>) fs)" if "fs_entry fs p = Some e" for p e l
    using assms(1) that by (fastforce simp: fs_inv_def)
  moreover have "fs_inv (fs_remove p fs)" for p using assms(1) by (simp add: fs_inv_def)
  moreover have "fs_inv (fs_insert q e (fs_remove p fs))" if "fs_entry fs p = Some e" for p q e
    using assms(1) that by (fastforce simp: fs_inv_def)
  ultimately show ?thesis
    using assms by (cases x) (auto simp: fs_ops mem_write_def Let_def bind_eq_Some_conv split: option.splits if_splits)
qed

lemma fs_exec_locked:
  assumes "fs_exec x fs = Some fs'" "keeps_entry p x" "fs_entry fs p = Some e" "me_locked e"
  shows "\<exists>e'. fs_entry fs' p = Some e' \<and> me_locked e'"
  using assms by (cases x) (auto simp: fs_ops mem_write_def Let_def bind_eq_Some_conv split: option.splits if_splits)

lemma fs_run_inv: "fs_inv fs \<Longrightarrow> fs_run xs fs = Some fs' \<Longrightarrow> fs_inv fs'"
  by (induction xs arbitrary: fs) (auto simp: bind_eq_Some_conv dest: fs_exec_inv)


section \<open>Properties\<close>

text \<open>C23: A lock is exclusive. Once a name is locked, locking it again fails with a lock error after any
  sequence of operations that does not unlock, delete or rename it, or rename another file to it.\<close>

theorem lock_exclusive:
  assumes "fs_lock fs p = (Inr l, fs1)" "fs_run xs fs1 = Some fs2" "\<forall>x \<in> set xs. keeps_entry p x"
  shows "\<exists>e. fst (fs_lock fs2 p) = Inl e \<and> code e = LockError"
proof -
  have "\<exists>e. fs_entry fs1 p = Some e \<and> me_locked e"
    using assms(1) by (auto simp: fs_lock_def mem_file_new_def split: option.splits if_splits)
  with assms(2,3) have "\<exists>e. fs_entry fs2 p = Some e \<and> me_locked e"
  proof (induction xs arbitrary: fs1)
    case (Cons x xs)
    then show ?case using fs_exec_locked [of x fs1 _ p] by (auto simp: bind_eq_Some_conv)
  qed simp
  then show ?thesis by (auto simp: fs_lock_def err_def status_new_def)
qed

theorem lock_exclusive_witness:
  "\<exists>fs1 fs2 e. fs_lock mem_fs_new ''LOCK'' = (Inr ''LOCK'', fs1) \<and>
     fs_run [OpOpenW ''LOG'' True True, OpLock ''LOCK'', OpDelete ''LOG''] fs1 = Some fs2 \<and>
     fst (fs_lock fs2 ''LOCK'') = Inl e \<and> code e = LockError"
proof -
  obtain fs1 where 1: "fs_lock mem_fs_new ''LOCK'' = (Inr ''LOCK'', fs1)"
    by (auto simp: fs_lock_def mem_fs_new_def fs_entry_def mem_file_new_def)
  obtain fs2 where 2: "fs_run [OpOpenW ''LOG'' True True, OpLock ''LOCK'', OpDelete ''LOG''] fs1 = Some fs2" by simp
  from lock_exclusive [OF 1 2] show ?thesis using 1 2 by auto
qed

fun mem_write_all :: "mem_fs \<Rightarrow> mem_cursor \<Rightarrow> bytes list \<Rightarrow> (mem_fs \<times> mem_cursor) run" where
  "mem_write_all fs w [] = Some (fs, w)"
| "mem_write_all fs w (bs # bss) = do { (fs, w, _) \<leftarrow> mem_write fs w bs; mem_write_all fs w bss }"

lemma mem_write_all_end:
  "mem_write_all fs (f, length (fs_buffers fs f)) bss =
     Some (fs\<lparr>fs_buffers := (fs_buffers fs)(f := fs_buffers fs f @ concat bss)\<rparr>, (f, length (fs_buffers fs f @ concat bss)))"
proof (induction bss arbitrary: fs)
  case (Cons bs bss)
  from Cons.IH [of "fs\<lparr>fs_buffers := (fs_buffers fs)(f := fs_buffers fs f @ bs)\<rparr>"] show ?case
    by (simp add: mem_write_end fun_upd_def cong: if_cong)
qed simp



end
