(* ===== verification/Table_Blocks.thy ===== *)
theory Table_Blocks
  imports Table_Reader Block_Iter
begin

text \<open>
  The parts of a table file read back: handles, the footer, single blocks with their checksums, and
  blocks read through the block cache.
\<close>

section \<open>Handles and the footer\<close>

definition enc_handle :: "int_codec \<Rightarrow> block_handle \<Rightarrow> bytes" where
  "enc_handle ie h = encode_var ie (bh_offset h) @ encode_var ie (bh_size h)"

definition handle_ok :: "block_handle \<Rightarrow> bool" where
  "handle_ok h \<longleftrightarrow> bh_offset h < 2 ^ 64 \<and> bh_size h < 2 ^ 64"

definition enc_footer :: "int_codec \<Rightarrow> footer \<Rightarrow> bytes" where
  "enc_footer ie f = (let hs = enc_handle ie (ft_meta_index f) @ enc_handle ie (ft_index f)
     in hs @ replicate (40 - length hs) 0 @ MAGIC_FOOTER_ENCODED)"

lemma overwrite_at:
  "i = length pre \<Longrightarrow> length bs = length mid \<Longrightarrow> overwrite i bs (pre @ mid @ post) = pre @ bs @ post"
  by (simp add: overwrite_def)

context integer_encoding
begin

lemma bh_decode_enc:
  assumes "handle_ok h"
  shows "bh_decode ie (enc_handle ie h @ rest) = Some (Some (h, length (enc_handle ie h)))"
  using assms by (simp add: bh_decode_def enc_handle_def handle_ok_def codec_laws slice_from_append)

lemma encode_var_at_eq:
  assumes "i = length pre" "length (encode_var ie n) \<le> k"
  shows "encode_var_at ie n i (pre @ replicate k 0) =
    Some (length (encode_var ie n), (pre @ encode_var ie n) @ replicate (k - length (encode_var ie n)) 0)"
proof -
  have "replicate k (0 :: byte) = replicate (length (encode_var ie n)) 0 @ replicate (k - length (encode_var ie n)) 0"
    using assms(2) by (simp add: replicate_add [symmetric])
  then show ?thesis
    using assms overwrite_at [of i pre "encode_var ie n" "replicate (length (encode_var ie n)) 0"]
    by (simp add: encode_var_at_def)
qed

lemma bh_encode_to_eq:
  assumes "handle_ok h" "i = length pre" "length (enc_handle ie h) \<le> k"
  shows "bh_encode_to ie h i (pre @ replicate k 0) =
    Some (length (enc_handle ie h), (pre @ enc_handle ie h) @ replicate (k - length (enc_handle ie h)) 0)"
proof -
  have l: "length (encode_var ie (bh_offset h)) \<le> k"
    "length (encode_var ie (bh_size h)) \<le> k - length (encode_var ie (bh_offset h))"
    using assms(3) by (simp_all add: enc_handle_def)
  show ?thesis
    using assms encode_var_at_eq [OF assms(2) l(1)]
      encode_var_at_eq [of "i + length (encode_var ie (bh_offset h))" "pre @ encode_var ie (bh_offset h)", OF _ l(2)]
    by (simp add: bh_encode_to_def enc_handle_def handle_ok_def codec_laws)
qed

lemma handle_bytes_eq:
  assumes "handle_ok h" "handle_bytes ie h = Some enc"
  shows "enc = enc_handle ie h"
proof -
  have "length (enc_handle ie h) \<le> 16"
    using assms by (auto simp: handle_bytes_def bh_encode_to_def bind_eq_Some_conv enc_handle_def handle_ok_def codec_laws split: if_splits)
  from bh_encode_to_eq [OF assms(1) _ this, of 0 "[]"] assms(2) show ?thesis
    by (simp add: handle_bytes_def slice_prefix)
qed

lemma enc_handle_bound: "handle_ok h \<Longrightarrow> length (enc_handle ie h) \<le> 20"
  using encode_var_le_10 [of "bh_offset h"] encode_var_le_10 [of "bh_size h"] by (simp add: enc_handle_def handle_ok_def)

lemma footer_encode_eq:
  assumes "handle_ok (ft_meta_index f)" "handle_ok (ft_index f)"
  shows "footer_encode ie f (replicate FULL_FOOTER_LENGTH 0) = Some (enc_footer ie f)" "length (enc_footer ie f) = 48"
proof -
  let ?m = "enc_handle ie (ft_meta_index f)" and ?i = "enc_handle ie (ft_index f)"
  have l: "length ?m \<le> 20" "length ?i \<le> 20" by (rule enc_handle_bound, rule assms)+
  have z: "replicate (48 - (length ?m + length ?i)) (0 :: byte) = replicate (40 - (length ?m + length ?i)) 0 @ replicate 8 0"
    using l by (simp add: replicate_add [symmetric])
  have "bh_encode_to ie (ft_meta_index f) 0 (replicate 48 0) = Some (length ?m, ?m @ replicate (48 - length ?m) 0)"
    using bh_encode_to_eq [OF assms(1), of 0 "[]" 48] l by simp
  moreover have "bh_encode_to ie (ft_index f) (length ?m) (?m @ replicate (48 - length ?m) 0) =
      Some (length ?i, (?m @ ?i) @ replicate (40 - (length ?m + length ?i)) 0 @ replicate 8 0)"
    using bh_encode_to_eq [OF assms(2), of "length ?m" ?m "48 - length ?m"] l z by (simp add: diff_diff_left)
  moreover have "overwrite (length ?m + length ?i) (replicate (40 - (length ?m + length ?i)) 0)
      ((?m @ ?i) @ replicate (40 - (length ?m + length ?i)) 0 @ replicate 8 0) = (?m @ ?i) @ replicate (40 - (length ?m + length ?i)) 0 @ replicate 8 0"
    by (rule overwrite_at) simp_all
  moreover have "overwrite 40 MAGIC_FOOTER_ENCODED (((?m @ ?i) @ replicate (40 - (length ?m + length ?i)) 0) @ replicate 8 0 @ []) =
      ((?m @ ?i) @ replicate (40 - (length ?m + length ?i)) 0) @ MAGIC_FOOTER_ENCODED @ []"
    by (rule overwrite_at) (use l in \<open>simp_all add: MAGIC_FOOTER_ENCODED_def\<close>)
  ultimately show "footer_encode ie f (replicate FULL_FOOTER_LENGTH 0) = Some (enc_footer ie f)"
    by (simp add: footer_encode_def FULL_FOOTER_LENGTH_def FOOTER_LENGTH_def enc_footer_def Let_def)
  show "length (enc_footer ie f) = 48" using l by (simp add: enc_footer_def Let_def MAGIC_FOOTER_ENCODED_def)
qed

lemma footer_decode_enc:
  assumes "handle_ok (ft_meta_index f)" "handle_ok (ft_index f)"
  shows "footer_decode ie (enc_footer ie f) = Some (Some f)"
proof -
  let ?m = "enc_handle ie (ft_meta_index f)" and ?i = "enc_handle ie (ft_index f)"
  have l: "length ?m \<le> 20" "length ?i \<le> 20" by (rule enc_handle_bound, rule assms)+
  let ?z = "replicate (40 - (length ?m + length ?i)) 0 @ MAGIC_FOOTER_ENCODED"
  have e: "enc_footer ie f = ?m @ ?i @ ?z" by (simp add: enc_footer_def Let_def)
  have "drop 40 (enc_footer ie f) = MAGIC_FOOTER_ENCODED" using l by (simp add: e)
  with e bh_decode_enc [OF assms(1), of "?i @ ?z"] bh_decode_enc [OF assms(2), of ?z] footer_encode_eq(2) [OF assms] show ?thesis
    by (simp add: footer_decode_def FULL_FOOTER_LENGTH_def FOOTER_LENGTH_def slice_from_append)
qed

end


section \<open>Stored blocks\<close>

text \<open>A block as \<open>write_block\<close> writes it, and where it is in a file.\<close>

definition raw_block :: "int_codec \<Rightarrow> (bytes \<Rightarrow> u32) \<Rightarrow> byte \<Rightarrow> bytes \<Rightarrow> bytes" where
  "raw_block ie crc ctype data = data @ [ctype] @ encode_fixed32 ie (mask_crc (crc (data @ [ctype])))"

definition stored_at :: "int_codec \<Rightarrow> (bytes \<Rightarrow> u32) \<Rightarrow> byte \<Rightarrow> bytes \<Rightarrow> block_handle \<Rightarrow> bytes \<Rightarrow> bool" where
  "stored_at ie crc ctype data h content \<longleftrightarrow>
     (\<exists>pre post. content = pre @ raw_block ie crc ctype data @ post \<and> bh_offset h = length pre \<and> bh_size h = length data)"

lemma stored_at_append: "stored_at ie crc ctype data h c \<Longrightarrow> stored_at ie crc ctype data h (c @ d)"
  by (fastforce simp: stored_at_def)

lemma stored_at_bounds: "stored_at ie crc ctype data h c \<Longrightarrow> length c < 2 ^ 32 \<Longrightarrow> handle_ok h \<and> length data < 2 ^ 32"
  by (auto simp: stored_at_def handle_ok_def raw_block_def)

lemma stored_checksum:
  assumes "integer_encoding ie"
  shows "unmask_crc (decode_fixed32 ie (encode_fixed32 ie (mask_crc c))) = c"
  using integer_encoding.codec_laws [OF assms] by simp

text \<open>The block with a handle, given the bytes stored there.\<close>

lemma read_stored:
  assumes "integer_encoding ie" "random_file f content" "stored_at ie crc ctype data h content"
    "compressor_get (opt_compressor_list opt) ctype = Inr c" "comp_decode c data = Inr bs"
  shows "read_table_block ie crc opt f h = do { b \<leftarrow> block_new opt bs; Some (Inr b) }"
proof -
  obtain pre post where p: "content = pre @ raw_block ie crc ctype data @ post" "bh_offset h = length pre" "bh_size h = length data"
    using assms(3) by (auto simp: stored_at_def)
  let ?s = "encode_fixed32 ie (mask_crc (crc (data @ [ctype])))"
  have s: "length ?s = 4" using integer_encoding.codec_laws [OF assms(1)] by simp
  note m = random_file.read_at_middle [OF assms(2)]
  have "f (bh_offset h) (bh_size h) = Inr (data, length data)"
    using m [of pre data "[ctype] @ ?s @ post"] p by (simp add: raw_block_def)
  moreover have "f (bh_offset h + bh_size h) 1 = Inr ([ctype], 1)"
    using m [of "pre @ data" "[ctype]" "?s @ post"] p by (simp add: raw_block_def)
  moreover have "f (Suc (bh_offset h + bh_size h)) 4 = Inr (?s, 4)"
    using m [of "pre @ data @ [ctype]" ?s post] p s by (simp add: raw_block_def)
  ultimately show ?thesis
    using assms(4,5) by (simp add: read_table_block_def read_bytes_def bh_new_def TABLE_BLOCK_COMPRESS_LEN_def
      TABLE_BLOCK_CKSUM_LEN_def verify_table_block_def stored_checksum [OF assms(1)] index_def)
qed

context byte_sink
begin

lemma write_block_stored:
  assumes "integer_encoding ie" "tb_offset tb = length (contents (tb_dst tb))"
    "write_block ie crc wr tb bs ctype compr = (tb', Inr h)"
  obtains data w' where "comp_encode compr bs = Inr data" "contents w' = contents (tb_dst tb) @ raw_block ie crc ctype data"
    "tb' = tb\<lparr>tb_dst := w', tb_offset := length (contents w')\<rparr>" "stored_at ie crc ctype data h (contents w')"
    "h = bh_new (tb_offset tb) (length data)"
proof -
  obtain data where d: "comp_encode compr bs = Inr data"
    using assms(3) by (cases "comp_encode compr bs") (auto simp: write_block_def)
  let ?parts = "[data, replicate TABLE_BLOCK_COMPRESS_LEN ctype,
    encode_fixed32 ie (mask_crc (crc (data @ replicate TABLE_BLOCK_COMPRESS_LEN ctype)))]"
  obtain w' where w': "write_seq wr (tb_dst tb) ?parts 0 = (w', Inr (0 + length (concat ?parts)))"
      "contents w' = contents (tb_dst tb) @ concat ?parts"
    by (rule write_seq_ok)
  have raw: "concat ?parts = raw_block ie crc ctype data" by (simp add: raw_block_def TABLE_BLOCK_COMPRESS_LEN_def)
  have len: "length (raw_block ie crc ctype data) = length data + 5"
    using integer_encoding.codec_laws [OF assms(1)] by (simp add: raw_block_def)
  have r: "tb' = tb\<lparr>tb_dst := w', tb_offset := tb_offset tb + (length data + TABLE_BLOCK_COMPRESS_LEN + TABLE_BLOCK_CKSUM_LEN)\<rparr>"
      "h = bh_new (tb_offset tb) (length data)"
    using assms(3) d w'(1) by (simp_all add: write_block_def)
  show ?thesis
  proof (rule that [OF d])
    show "contents w' = contents (tb_dst tb) @ raw_block ie crc ctype data" using w'(2) raw by simp
    then show "tb' = tb\<lparr>tb_dst := w', tb_offset := length (contents w')\<rparr>"
      using r(1) assms(2) len by (simp add: TABLE_BLOCK_COMPRESS_LEN_def TABLE_BLOCK_CKSUM_LEN_def)
    show "stored_at ie crc ctype data h (contents w')"
      unfolding stored_at_def using w'(2) raw r(2) assms(2)
      by (intro exI [of _ "contents (tb_dst tb)"] exI [of _ "[]"]) (simp add: bh_new_def)
    show "h = bh_new (tb_offset tb) (length data)" by (rule r(2))
  qed
qed

end


section \<open>Reading through the block cache\<close>

text \<open>
  Tables that share the cache have different ids, and the handles of a table different offsets. The
  cache is coherent when it holds under the key of a block what the file of the table holds.
\<close>

definition tables_ok :: "table set \<Rightarrow> (table \<Rightarrow> block_handle set) \<Rightarrow> bool" where
  "tables_ok ts H \<longleftrightarrow> inj_on t_cache_id ts \<and> (\<forall>t \<in> ts. inj_on bh_offset (H t) \<and> (\<forall>h \<in> H t. handle_ok h))"

definition cached_ok ::
    "int_codec \<Rightarrow> (bytes \<Rightarrow> u32) \<Rightarrow> table set \<Rightarrow> (table \<Rightarrow> block_handle set) \<Rightarrow> cache_key \<Rightarrow> block \<Rightarrow> bool" where
  "cached_ok ie crc ts H k b \<longleftrightarrow> (\<forall>t \<in> ts. \<forall>h \<in> H t. k = block_cache_handle ie t (bh_offset h) \<longrightarrow>
     read_table_block ie crc (t_opt t) (t_file t) h = Some (Inr b))"

definition coherent ::
    "int_codec \<Rightarrow> (bytes \<Rightarrow> u32) \<Rightarrow> nat \<Rightarrow> table set \<Rightarrow> (table \<Rightarrow> block_handle set) \<Rightarrow> block_cache \<Rightarrow> bool" where
  "coherent ie crc n ts H c \<longleftrightarrow> cache_inv n c \<and> (\<forall>k b. cache_contents c k = Some b \<longrightarrow> cached_ok ie crc ts H k b)"

lemma block_cache_handle_inj:
  assumes "integer_encoding ie" "block_cache_handle ie t off = block_cache_handle ie t' off'" "off < 2 ^ 64" "off' < 2 ^ 64"
  shows "t_cache_id t = t_cache_id t'" "off = off'"
proof -
  note laws = integer_encoding.codec_laws [OF assms(1)]
  have e: "encode_fixed64 ie (t_cache_id t) = encode_fixed64 ie (t_cache_id t')"
      "encode_fixed64 ie (of_nat off) = encode_fixed64 ie (of_nat off')"
    using assms(2) by (simp_all add: block_cache_handle_def laws)
  from arg_cong [OF e(1), of "decode_fixed64 ie"] show "t_cache_id t = t_cache_id t'" by (simp add: laws)
  from arg_cong [OF e(2), of "decode_fixed64 ie"] have "(of_nat off :: u64) = of_nat off'" by (simp add: laws)
  then have "unat (of_nat off :: u64) = unat (of_nat off' :: u64)" by (rule arg_cong)
  then show "off = off'" using assms(3,4) by (simp add: unat_of_nat)
qed

lemma cached_okI:
  assumes "integer_encoding ie" "tables_ok ts H" "t \<in> ts" "h \<in> H t"
    "read_table_block ie crc (t_opt t) (t_file t) h = Some (Inr b)"
  shows "cached_ok ie crc ts H (block_cache_handle ie t (bh_offset h)) b"
  unfolding cached_ok_def
proof (intro ballI impI)
  fix t' h'
  assume h': "t' \<in> ts" "h' \<in> H t'" "block_cache_handle ie t (bh_offset h) = block_cache_handle ie t' (bh_offset h')"
  have "bh_offset h < 2 ^ 64" "bh_offset h' < 2 ^ 64" using assms(2-4) h'(1,2) by (auto simp: tables_ok_def handle_ok_def)
  note eq = block_cache_handle_inj [OF assms(1) h'(3) this]
  have "t' = t" using eq(1) assms(2,3) h'(1) by (auto simp: tables_ok_def dest: inj_onD)
  moreover have "h' = h" using eq(2) assms(2,4) h'(1,2) \<open>t' = t\<close> by (auto simp: tables_ok_def dest: inj_onD)
  ultimately show "read_table_block ie crc (t_opt t') (t_file t') h' = Some (Inr b)" using assms(5) by simp
qed

text \<open>Reading a block through a coherent cache gives what reading it from the file gives.\<close>

lemma read_block_coherent:
  assumes "integer_encoding ie" "tables_ok ts H" "t \<in> ts" "h \<in> H t" "coherent ie crc n ts H c"
    "read_table_block ie crc (t_opt t) (t_file t) h = Some r"
  shows "\<exists>c'. read_block ie crc t c h = Some (r, c') \<and> coherent ie crc n ts H c'"
proof -
  let ?k = "block_cache_handle ie t (bh_offset h)"
  have c: "cache_inv n c" "\<forall>k b. cache_contents c k = Some b \<longrightarrow> cached_ok ie crc ts H k b"
    using assms(5) by (simp_all add: coherent_def)
  obtain hit c1 where c1: "cache_get c ?k = Some (hit, c1)" "cache_inv n c1"
      "\<forall>k b. cache_contents c1 k = Some b \<longrightarrow> cached_ok ie crc ts H k b"
      "\<forall>b. hit = Some b \<longrightarrow> cached_ok ie crc ts H ?k b" "cache_contents c1 ?k = hit"
    using lru.coherent_get [OF c, of ?k] by blast
  show ?thesis
  proof (cases hit)
    case (Some b)
    then have "r = Inr b" using c1(4) assms(3,4,6) by (auto simp: cached_ok_def)
    then show ?thesis using c1 Some by (simp add: read_block_def coherent_def)
  next
    case None
    show ?thesis
    proof (cases r)
      case (Inr b)
      have "cached_ok ie crc ts H ?k b" using cached_okI [OF assms(1-4)] assms(6) Inr by simp
      with lru.coherent_put [OF c1(2,3), of ?k b] c1(5) None obtain c2 where
        "cache_insert c1 ?k b = Some c2" "cache_inv n c2" "\<forall>k b. cache_contents c2 k = Some b \<longrightarrow> cached_ok ie crc ts H k b"
        by auto
      then show ?thesis using c1(1) None assms(6) Inr by (simp add: read_block_def coherent_def)
    qed (use c1 None assms(6) in \<open>simp add: read_block_def coherent_def\<close>)
  qed
qed

end
