(* ===== verification/Table_Iter.thy ===== *)
theory Table_Iter
  imports Table_Blocks
begin

text \<open>
  The iterator over a table walks over the entries of the data blocks that the index block lists. A
  table is described by its parts: for every data block its index key, its encoded handle, its entries
  and restart points. Blocks are read through a function \<open>rb\<close>, the result of \<open>read_block\<close>.
\<close>

type_synonym table_part = "bytes \<times> bytes \<times> block_entry list \<times> nat list"

fun part_entries :: "table_part \<Rightarrow> (bytes \<times> bytes) list" where
  "part_entries (s, hb, xs, rs) = map snd xs"

fun part_index :: "table_part \<Rightarrow> bytes \<times> bytes" where
  "part_index (s, hb, xs, rs) = (s, hb)"

fun part_xs :: "table_part \<Rightarrow> block_entry list" where
  "part_xs (s, hb, xs, rs) = xs"

fun part_rs :: "table_part \<Rightarrow> nat list" where
  "part_rs (s, hb, xs, rs) = rs"

lemma part_entries_xs: "part_entries p = map snd (part_xs p)"
  by (cases p) simp

definition table_entries :: "table_part list \<Rightarrow> (bytes \<times> bytes) list" where
  "table_entries ps = concat (map part_entries ps)"

definition part_off :: "table_part list \<Rightarrow> nat \<Rightarrow> nat" where
  "part_off ps i = length (table_entries (take i ps))"

text \<open>A block whose new iterator is before the first of its entries.\<close>

definition block_holds :: "int_codec \<Rightarrow> bytes set \<Rightarrow> options \<Rightarrow> block \<Rightarrow> block_entry list \<Rightarrow> nat list \<Rightarrow> bool" where
  "block_holds ie K opt b xs rs \<longleftrightarrow>
     (\<exists>it. block_iter_new ie b = Some it \<and> bi_inv ie xs rs K it \<and> bi_pos ie xs it = None \<and> bi_opt it = opt)"

fun part_loads :: "int_codec \<Rightarrow> block_reader \<Rightarrow> bytes set \<Rightarrow> options \<Rightarrow> table_part \<Rightarrow> bool" where
  "part_loads ie rb K opt (s, hb, xs, rs) \<longleftrightarrow> xs \<noteq> [] \<and>
     (\<exists>h n b. bh_decode ie hb = Some (Some (h, n)) \<and> rb h = Some (Inr b) \<and> block_holds ie K opt b xs rs)"

definition table_layout ::
    "int_codec \<Rightarrow> block_reader \<Rightarrow> bytes set \<Rightarrow> options \<Rightarrow> block_entry list \<Rightarrow> table_part list \<Rightarrow> bool" where
  "table_layout ie rb K opt ixs ps \<longleftrightarrow> map snd ixs = map part_index ps \<and> (\<forall>p \<in> set ps. part_loads ie rb K opt p)"

text \<open>The iterator is before the first entry, or at an entry of the block the index iterator is at.\<close>

definition ti_inv ::
    "int_codec \<Rightarrow> block_reader \<Rightarrow> bytes set \<Rightarrow> options \<Rightarrow> block_entry list \<Rightarrow> nat list \<Rightarrow> table_part list \<Rightarrow> table_iter \<Rightarrow> bool" where
  "ti_inv ie rb K opt ixs irs ps it \<longleftrightarrow>
     table_layout ie rb K opt ixs ps \<and> bi_inv ie ixs irs K (ti_index_block it) \<and>
     (case ti_current_block it of
        None \<Rightarrow> bi_pos ie ixs (ti_index_block it) = None
      | Some cb \<Rightarrow> \<exists>i j. bi_pos ie ixs (ti_index_block it) = Some i \<and> i < length ps \<and>
          bi_inv ie (part_xs (ps ! i)) (part_rs (ps ! i)) K cb \<and> bi_pos ie (part_xs (ps ! i)) cb = Some j)"

definition ti_pos :: "int_codec \<Rightarrow> block_entry list \<Rightarrow> table_part list \<Rightarrow> table_iter \<Rightarrow> nat option" where
  "ti_pos ie ixs ps it =
     (case (ti_current_block it, bi_pos ie ixs (ti_index_block it)) of
        (Some cb, Some i) \<Rightarrow> map_option ((+) (part_off ps i)) (bi_pos ie (part_xs (ps ! i)) cb)
      | _ \<Rightarrow> None)"

lemma table_entries_nth:
  assumes "i < length ps" "j < length (part_xs (ps ! i))"
  shows "part_off ps i + j < length (table_entries ps)" "table_entries ps ! (part_off ps i + j) = snd (part_xs (ps ! i) ! j)"
proof -
  have ps: "ps = take i ps @ ps ! i # drop (Suc i) ps" using assms(1) by (simp add: id_take_nth_drop)
  have e: "table_entries ps = table_entries (take i ps) @ part_entries (ps ! i) @ table_entries (drop (Suc i) ps)"
    by (subst ps) (simp add: table_entries_def)
  show "part_off ps i + j < length (table_entries ps)"
    using assms(2) by (simp add: e part_off_def part_entries_xs)
  show "table_entries ps ! (part_off ps i + j) = snd (part_xs (ps ! i) ! j)"
    using assms(2) by (simp add: e part_off_def part_entries_xs nth_append)
qed

lemma part_off_Suc: "i < length ps \<Longrightarrow> part_off ps (Suc i) = part_off ps i + length (part_xs (ps ! i))"
  by (simp add: part_off_def table_entries_def take_Suc_conv_app_nth part_entries_xs)

lemma part_off_end: "part_off ps (length ps) = length (table_entries ps)"
  by (simp add: part_off_def)

lemma ti_at:
  assumes "ti_current_block it = Some cb" "bi_pos ie ixs (ti_index_block it) = Some i" "bi_pos ie (part_xs (ps ! i)) cb = Some j"
  shows "ti_pos ie ixs ps it = Some (part_off ps i + j)"
  using assms by (simp add: ti_pos_def)

lemma ti_before: "ti_current_block it = None \<Longrightarrow> ti_pos ie ixs ps it = None"
  by (simp add: ti_pos_def)

text \<open>Loading the block of a part.\<close>

lemma load_block_ok:
  assumes "part_loads ie rb K opt p"
  obtains it' cb where "load_block ie rb it (snd (part_index p)) = Some (Inr (), it')" "ti_current_block it' = Some cb"
    "ti_index_block it' = ti_index_block it" "ti_table it' = ti_table it" "bi_inv ie (part_xs p) (part_rs p) K cb"
    "bi_pos ie (part_xs p) cb = None" "bi_opt cb = opt"
proof -
  obtain s hb xs rs where p: "p = (s, hb, xs, rs)" by (cases p)
  obtain h n b cb where h: "bh_decode ie hb = Some (Some (h, n))" "rb h = Some (Inr b)" "block_iter_new ie b = Some cb"
      "bi_inv ie xs rs K cb" "bi_pos ie xs cb = None" "bi_opt cb = opt"
    using assms by (auto simp: p block_holds_def)
  let ?it = "it\<lparr>ti_current_block := Some cb, ti_current_block_off := bh_offset h\<rparr>"
  show ?thesis by (rule that [of ?it cb]) (use h in \<open>simp_all add: p load_block_def\<close>)
qed

text \<open>The end of a block: the index iterator moves on, and the next block is loaded or the iterator reset.\<close>

lemma advance_block:
  assumes "table_layout ie rb K opt ixs ps" "bi_inv ie ixs irs K (ti_index_block it)"
    "i = (case bi_pos ie ixs (ti_index_block it) of None \<Rightarrow> 0 | Some i \<Rightarrow> Suc i)" "ti_current_block it = None"
  shows "\<exists>it'. ti_advance ie rb it = Some (i < length ps, it') \<and> ti_inv ie rb K opt ixs irs ps it' \<and>
    ti_pos ie ixs ps it' = (if i < length ps then Some (part_off ps i) else None)"
proof -
  have len: "length ixs = length ps" using assms(1) by (metis table_layout_def length_map)
  obtain ix where ix: "bi_next ie (ti_index_block it) = Some (map_option ((!) (map snd ixs)) (bi_pos ie ixs ix), ix)"
      "bi_inv ie ixs irs K ix" "bi_pos ie ixs ix = pos_advance (length ixs) (bi_pos ie ixs (ti_index_block it))"
    using bi.next_pos [OF assms(2)] by (auto simp: bi_next_it_next)
  have p: "bi_pos ie ixs ix = (if i < length ps then Some i else None)"
    using ix(3) assms(3) len by (auto split: option.splits)
  let ?it = "it\<lparr>ti_current_block := None, ti_index_block := ix\<rparr>"
  show ?thesis
  proof (cases "i < length ps")
    case False
    have r: "bi_inv ie ixs irs K (bi_reset ix)" "bi_pos ie ixs (bi_reset ix) = None"
      using bi.reset_pos [OF ix(2)] by (auto simp: block_iter_ops_def)
    have "ti_advance ie rb it = Some (False, ti_reset ?it)"
      using assms(4) ix(1) p False by (subst ti_advance.simps) (simp add: skip_to_next_entry_def)
    moreover have "ti_inv ie rb K opt ixs irs ps (ti_reset ?it)" "ti_pos ie ixs ps (ti_reset ?it) = None"
      using assms(1) r by (simp_all add: ti_inv_def ti_reset_def ti_pos_def)
    ultimately show ?thesis using False by auto
  next
    case True
    let ?p = "ps ! i"
    have load: "part_loads ie rb K opt ?p" using assms(1) True by (simp add: table_layout_def)
    then have ne: "part_xs ?p \<noteq> []" by (cases ?p) simp
    obtain it1 cb where it1: "load_block ie rb ?it (snd (part_index ?p)) = Some (Inr (), it1)" "ti_current_block it1 = Some cb"
        "ti_index_block it1 = ti_index_block ?it" "ti_table it1 = ti_table ?it" "bi_inv ie (part_xs ?p) (part_rs ?p) K cb"
        "bi_pos ie (part_xs ?p) cb = None" "bi_opt cb = opt"
      by (rule load_block_ok [OF load])
    obtain cb' where cb': "bi_advance ie cb = Some (bi_pos ie (part_xs ?p) cb' \<noteq> None, cb')"
        "bi_inv ie (part_xs ?p) (part_rs ?p) K cb'" "bi_pos ie (part_xs ?p) cb' = Some 0"
      using bi_advance_pos [OF it1(5)] it1(6) ne by auto
    have e: "map snd ixs ! i = part_index ?p" using assms(1) True by (simp add: table_layout_def)
    let ?it' = "it1\<lparr>ti_current_block := Some cb'\<rparr>"
    have "skip_to_next_entry ie rb (it\<lparr>ti_current_block := None\<rparr>) = Some (Inr True, it1)"
      using ix(1) p True it1(1) by (cases "part_index ?p") (simp add: skip_to_next_entry_def e)
    then have "ti_advance ie rb it = ti_advance ie rb it1"
      using assms(4) by (subst ti_advance.simps) simp
    also have "\<dots> = Some (True, ?it')"
      using it1(2) cb'(1,3) by (subst ti_advance.simps) simp
    finally have "ti_advance ie rb it = Some (True, ?it')" .
    moreover have "ti_inv ie rb K opt ixs irs ps ?it'" "ti_pos ie ixs ps ?it' = Some (part_off ps i)"
      using assms(1) ix(2) p True it1(3) cb'(2,3) by (simp_all add: ti_inv_def ti_pos_def)
    ultimately show ?thesis using True by auto
  qed
qed

lemma ti_inv_cases:
  assumes "ti_inv ie rb K opt ixs irs ps it"
  obtains "ti_current_block it = None" "bi_pos ie ixs (ti_index_block it) = None" "ti_pos ie ixs ps it = None"
  | cb i j where "ti_current_block it = Some cb" "bi_pos ie ixs (ti_index_block it) = Some i" "i < length ps"
      "bi_inv ie (part_xs (ps ! i)) (part_rs (ps ! i)) K cb" "bi_pos ie (part_xs (ps ! i)) cb = Some j"
      "ti_pos ie ixs ps it = Some (part_off ps i + j)" "j < length (part_xs (ps ! i))"
proof (cases "ti_current_block it")
  case None
  then show ?thesis using assms that(1) by (simp add: ti_inv_def ti_pos_def)
next
  case (Some cb)
  then obtain i j where ij: "bi_pos ie ixs (ti_index_block it) = Some i" "i < length ps"
      "bi_inv ie (part_xs (ps ! i)) (part_rs (ps ! i)) K cb" "bi_pos ie (part_xs (ps ! i)) cb = Some j"
    using assms by (auto simp: ti_inv_def)
  show ?thesis
    by (rule that(2) [OF Some ij ti_at [OF Some ij(1,4)]]) (use bi.pos_bound [OF ij(3,4)] in simp)
qed

lemma ti_advance_pos:
  assumes inv: "ti_inv ie rb K opt ixs irs ps it"
  shows "\<exists>it'. ti_advance ie rb it = Some (ti_pos ie ixs ps it' \<noteq> None, it') \<and> ti_inv ie rb K opt ixs irs ps it' \<and>
    ti_pos ie ixs ps it' = pos_advance (length (table_entries ps)) (ti_pos ie ixs ps it)"
proof -
  have L: "table_layout ie rb K opt ixs ps" "bi_inv ie ixs irs K (ti_index_block it)"
    using inv by (simp_all add: ti_inv_def)
  have len: "part_off ps i < length (table_entries ps)" if "i < length ps" for i
  proof -
    have "part_xs (ps ! i) \<noteq> []" using L(1) that by (cases "ps ! i") (auto simp: table_layout_def dest!: bspec [OF _ nth_mem])
    then show ?thesis using table_entries_nth(1) [OF that, of 0] by simp
  qed
  from inv show ?thesis
  proof (cases rule: ti_inv_cases)
    case 1
    from advance_block [OF L refl 1(1)] 1(2,3) len [of 0] part_off_end [of ps] show ?thesis
      by (cases "ps = []") (auto simp: part_off_def table_entries_def)
  next
    case (2 cb i j)
    obtain cb' where cb': "bi_advance ie cb = Some (bi_pos ie (part_xs (ps ! i)) cb' \<noteq> None, cb')"
        "bi_inv ie (part_xs (ps ! i)) (part_rs (ps ! i)) K cb'"
        "bi_pos ie (part_xs (ps ! i)) cb' = (if j + 1 < length (part_xs (ps ! i)) then Some (j + 1) else None)"
      using bi_advance_pos [OF 2(4)] 2(5) by auto
    let ?it = "it\<lparr>ti_current_block := Some cb'\<rparr>"
    show ?thesis
    proof (cases "j + 1 < length (part_xs (ps ! i))")
      case True
      have "ti_advance ie rb it = Some (True, ?it)"
        using 2(1) cb'(1,3) True by (subst ti_advance.simps) simp
      moreover have "ti_inv ie rb K opt ixs irs ps ?it" "ti_pos ie ixs ps ?it = Some (part_off ps i + (j + 1))"
        using L 2(2,3) cb'(2,3) True by (simp_all add: ti_inv_def ti_pos_def)
      ultimately show ?thesis using table_entries_nth(1) [OF 2(3) True] 2(6) by auto
    next
      case False
      have "ti_advance ie rb it = ti_advance ie rb (it\<lparr>ti_current_block := None\<rparr>)"
        using 2(1) cb'(1,3) False by (subst (1 2) ti_advance.simps) simp
      moreover have "part_off ps i + j + 1 = part_off ps (Suc i)" using 2(7) False part_off_Suc [OF 2(3)] by simp
      ultimately show ?thesis
        using advance_block [OF L(1), of irs "it\<lparr>ti_current_block := None\<rparr>"] L(2) 2(2,3,6) len [of "Suc i"] part_off_end [of ps]
        by (cases "Suc i < length ps") (auto simp: less_Suc_eq_le not_less dest: Suc_lessI)
    qed
  qed
qed

interpretation ti: ldb_forward "table_iter_ops ie rb" "ti_inv ie rb K opt ixs irs ps" "\<lambda>_. table_entries ps" "ti_pos ie ixs ps"
  for ie rb K opt ixs irs ps
proof
  fix s
  assume inv: "ti_inv ie rb K opt ixs irs ps s"
  show "i < length (table_entries ps)" if "ti_pos ie ixs ps s = Some i" for i
    using inv by (cases rule: ti_inv_cases) (use that table_entries_nth in auto)
  show "it_valid (table_iter_ops ie rb) s \<longleftrightarrow> ti_pos ie ixs ps s \<noteq> None"
    using inv
  proof (cases rule: ti_inv_cases)
    case (2 cb i j)
    then show ?thesis using bi.valid_pos [OF 2(4)] by (simp add: table_iter_ops_def ti_valid_def block_iter_ops_def)
  qed (simp add: table_iter_ops_def ti_valid_def)
  show "it_current (table_iter_ops ie rb) s = Some (map_option ((!) (table_entries ps)) (ti_pos ie ixs ps s))"
    using inv
  proof (cases rule: ti_inv_cases)
    case (2 cb i j)
    then show ?thesis
      using bi.current_pos [OF 2(4)] table_entries_nth(2) [OF 2(3,7)] by (simp add: table_iter_ops_def ti_current_def block_iter_ops_def)
  qed (simp add: table_iter_ops_def ti_current_def)
  show "\<exists>s'. it_advance (table_iter_ops ie rb) s = Some (ti_pos ie ixs ps s' \<noteq> None, s') \<and> ti_inv ie rb K opt ixs irs ps s' \<and>
      table_entries ps = table_entries ps \<and> ti_pos ie ixs ps s' = pos_advance (length (table_entries ps)) (ti_pos ie ixs ps s)"
    using ti_advance_pos [OF inv] by (simp add: table_iter_ops_def del: not_None_eq)
  show "\<exists>s'. it_reset (table_iter_ops ie rb) s = Some s' \<and> ti_inv ie rb K opt ixs irs ps s' \<and>
      table_entries ps = table_entries ps \<and> ti_pos ie ixs ps s' = None"
    using inv bi.reset_pos [of ie ixs irs K "ti_index_block s"]
    by (auto simp: table_iter_ops_def block_iter_ops_def ti_inv_def ti_reset_def ti_pos_def)
qed

text \<open>
  \<open>seek\<close> goes to the first block whose index key is not before the target, and there to the first such
  entry, if any: it does not continue with the next block.
\<close>

lemma ti_seek_block:
  assumes "table_layout ie rb K opt ixs ps" "bi_inv ie ixs irs K (ti_index_block it)" "bi_opt (ti_index_block it) = opt"
    "opt_cmp (t_opt (ti_table it)) = opt_cmp opt" "k \<in> K"
  shows "\<exists>it'. ti_seek ie rb k it = Some it' \<and>
    (case pos_find (\<lambda>p. \<not> cmp_lt (cmp (opt_cmp opt)) (fst (part_index p)) k) ps of
       None \<Rightarrow> ti_inv ie rb K opt ixs irs ps it' \<and> ti_current_block it' = None
     | Some i \<Rightarrow> i < length ps \<and> (\<exists>cb. ti_current_block it' = Some cb \<and> bi_inv ie (part_xs (ps ! i)) (part_rs (ps ! i)) K cb \<and>
         bi_inv ie ixs irs K (ti_index_block it') \<and> bi_pos ie ixs (ti_index_block it') = Some i \<and>
         bi_pos ie (part_xs (ps ! i)) cb = pos_find (\<lambda>(k', v). \<not> cmp_lt (cmp (opt_cmp opt)) k' k) (part_entries (ps ! i))))"
proof -
  let ?lt = "cmp_lt (cmp (opt_cmp opt))"
  have m: "map snd ixs = map part_index ps" using assms(1) by (simp add: table_layout_def)
  then have len: "length ixs = length ps" by (metis length_map)
  let ?p = "pos_find (\<lambda>p. \<not> ?lt (fst (part_index p)) k) ps"
  have "pos_find (\<lambda>(k', v). \<not> ?lt k' k) (map snd ixs) = ?p" by (simp add: m pos_find_map case_prod_beta)
  with bi.seek_pos [OF assms(2,5)] assms(3) obtain ix where ix: "bi_seek ie k (ti_index_block it) = Some ix" "bi_inv ie ixs irs K ix"
      "bi_pos ie ixs ix = ?p" by (auto simp: block_iter_ops_def)
  let ?it = "it\<lparr>ti_index_block := ix\<rparr>"
  have cur: "bi_current ix = Some (map_option ((!) (map part_index ps)) ?p)"
    using bi.current_pos [OF ix(2)] ix(3) m by (simp add: block_iter_ops_def)
  show ?thesis
  proof (cases ?p)
    case None
    have "bi_inv ie ixs irs K (bi_reset ix)" "bi_pos ie ixs (bi_reset ix) = None"
      using bi.reset_pos [OF ix(2)] by (auto simp: block_iter_ops_def)
    then have "ti_inv ie rb K opt ixs irs ps (ti_reset ?it)" using assms(1) by (simp add: ti_inv_def ti_reset_def)
    then show ?thesis using ix(1) cur None by (simp add: ti_seek_def ti_reset_def)
  next
    case (Some i)
    let ?q = "ps ! i"
    have i: "i < length ps" "\<not> ?lt (fst (part_index ?q)) k" using pos_find_Some [OF Some] by simp_all
    note srt = bi_inv_found(4) [OF assms(2), unfolded assms(3)]
    have "key_of (ixs ! i) = fst (part_index ?q)" using arg_cong [OF m, of "\<lambda>l. fst (l ! i)"] i(1) len by simp
    then have "fst (part_index ?q) \<in> K" and ord: "cmp_order (cmp (opt_cmp opt)) K" using keys_sortedD [OF srt, of i] i(1) len by auto
    then have le: "cmp_le (cmp (opt_cmp opt)) k (fst (part_index ?q))"
      using cmp_order.not_lt [OF ord] i(2) assms(5) by blast
    have load: "part_loads ie rb K opt ?q" using assms(1) i(1) by (simp add: table_layout_def)
    obtain it1 cb where it1: "load_block ie rb ?it (snd (part_index ?q)) = Some (Inr (), it1)" "ti_current_block it1 = Some cb"
        "ti_index_block it1 = ti_index_block ?it" "ti_table it1 = ti_table ?it" "bi_inv ie (part_xs ?q) (part_rs ?q) K cb"
        "bi_pos ie (part_xs ?q) cb = None" "bi_opt cb = opt"
      by (rule load_block_ok [OF load])
    obtain cb' where cb': "bi_seek ie k cb = Some cb'" "bi_inv ie (part_xs ?q) (part_rs ?q) K cb'"
        "bi_pos ie (part_xs ?q) cb' = pos_find (\<lambda>(k', v). \<not> ?lt k' k) (part_entries ?q)"
      using bi.seek_pos [OF it1(5) assms(5)] it1(7) by (auto simp: block_iter_ops_def part_entries_xs)
    obtain c where c: "cmp (opt_cmp opt) k (fst (part_index ?q)) = Some c" "c \<le> Equal"
      using le by (auto simp: cmp_le_def)
    have "ti_seek ie rb k it = Some (it1\<lparr>ti_current_block := Some cb'\<rparr>)"
      using ix(1) cur Some i(1) c it1(1,2) cb'(1) assms(4) by (cases "part_index ?q") (simp add: ti_seek_def)
    then show ?thesis using Some i(1) cb'(2,3) it1(3) ix(2,3) by simp
  qed
qed

end
