(* ===== verification/Table_File.thy ===== *)
theory Table_File
  imports Table_Iter Mem_Env
begin

text \<open>
  Tables that were built are read back: the builder keeps, for every data block it has written, where
  the block is in the file and under which key the index lists it; opening the finished file and
  iterating over it gives the entries in order.
\<close>

section \<open>What a builder has written\<close>

text \<open>
  The keys a comparator can handle in a table: they are ordered and not empty, and among them are
  the keys of the entries and the separators the builder asks for, which are not before the first of
  the two keys.
\<close>

definition table_keys :: "comparator \<Rightarrow> bytes set \<Rightarrow> bytes set \<Rightarrow> bool" where
  "table_keys c D K \<longleftrightarrow> cmp_order (cmp c) K \<and> (\<forall>k \<in> K. k \<noteq> [] \<and> length k < 2 ^ 64) \<and>
     (\<forall>a \<in> D. \<forall>b s. (b \<in> D \<and> cmp_lt (cmp c) a b \<or> find_short_succ c a = Some b) \<longrightarrow> find_shortest_sep c a b = Some s \<longrightarrow>
       s \<in> K \<and> cmp_le (cmp c) a s)"

definition block_written ::
    "int_codec \<Rightarrow> (bytes \<Rightarrow> u32) \<Rightarrow> options \<Rightarrow> bytes \<Rightarrow> block_handle \<Rightarrow> block_entry list \<Rightarrow> nat list \<Rightarrow> bool" where
  "block_written ie crc opt content h xs rs \<longleftrightarrow> entries_wf xs \<and> restarts_wf xs rs \<and>
     (\<exists>data compr. stored_at ie crc (opt_compressor opt) data h content \<and>
        compressor_get (opt_compressor_list opt) (opt_compressor opt) = Inr compr \<and>
        comp_encode compr (block_bytes ie xs rs) = Inr data)"

definition part_written :: "int_codec \<Rightarrow> (bytes \<Rightarrow> u32) \<Rightarrow> options \<Rightarrow> bytes \<Rightarrow> table_part \<Rightarrow> bool" where
  "part_written ie crc opt content p \<longleftrightarrow> part_xs p \<noteq> [] \<and>
     (\<exists>h. handle_bytes ie h = Some (snd (part_index p)) \<and> block_written ie crc opt content h (part_xs p) (part_rs p))"

text \<open>The index key of a part is not before its entries, and a separator after the last of them.\<close>

definition part_bounded :: "options \<Rightarrow> table_part \<Rightarrow> bool" where
  "part_bounded opt p \<longleftrightarrow> (\<forall>k v. (k, v) \<in> set (part_entries p) \<longrightarrow> cmp_le (cmp (opt_cmp opt)) k (fst (part_index p))) \<and>
     (\<exists>b. find_shortest_sep (opt_cmp opt) (fst (last (part_entries p))) b = Some (fst (part_index p)))"

definition holds :: "int_codec \<Rightarrow> options \<Rightarrow> block_builder option \<Rightarrow> (bytes \<times> bytes) list \<Rightarrow> bool" where
  "holds ie opt b es \<longleftrightarrow> (\<exists>bb xs rs. b = Some bb \<and> bb_opt bb = opt \<and> bb_rep ie bb xs rs \<and> map snd xs = es)"

definition tb_rep ::
    "int_codec \<Rightarrow> (bytes \<Rightarrow> u32) \<Rightarrow> bytes set \<Rightarrow> options \<Rightarrow> ('w \<Rightarrow> bytes) \<Rightarrow> 'w table_builder \<Rightarrow> table_part list \<Rightarrow>
      (bytes \<times> bytes) list \<Rightarrow> bool" where
  "tb_rep ie crc K opt cont tb ps cur \<longleftrightarrow>
     tb_opt tb = opt \<and> tb_offset tb = length (cont (tb_dst tb)) \<and> holds ie opt (tb_data_block tb) cur \<and>
     holds ie opt (tb_index_block tb) (map part_index ps) \<and> block_input (cmp (opt_cmp opt)) K (map part_index ps) \<and>
     (\<forall>p \<in> set ps. part_written ie crc opt (cont (tb_dst tb)) p \<and> part_bounded opt p) \<and>
     (\<exists>fb. tb_filter_block tb = Some fb \<and> fb_policy fb = opt_filter_policy opt)"

lemma block_written_append: "block_written ie crc opt c h xs rs \<Longrightarrow> block_written ie crc opt (c @ d) h xs rs"
  by (auto simp: block_written_def intro: stored_at_append)

lemma part_written_append: "part_written ie crc opt c p \<Longrightarrow> part_written ie crc opt (c @ d) p"
  by (auto simp: part_written_def intro: block_written_append)

lemma bb_buffer_empty:
  assumes "integer_encoding ie" "bb_rep ie b xs rs"
  shows "bb_buffer b = [] \<longleftrightarrow> xs = []"
proof (cases "xs = []")
  case False
  then have "entry_off ie xs 0 < entry_off ie xs (length xs)"
    using integer_encoding.entry_off_less [OF assms(1), of xs 0 "length xs"] assms(2) by (simp add: bb_rep_def)
  then show ?thesis using False assms(2) by (auto simp: bb_rep_def entry_off_def enc_block_entries_def)
qed (use assms(2) in \<open>simp add: bb_rep_def\<close>)

text \<open>What the assertion of \<open>bb_add\<close> ensures: a builder that takes an entry keeps its keys in order.\<close>

lemma holds_add:
  assumes "integer_encoding ie" "0 < block_restart_interval opt" "holds ie opt (Some b) es" "bb_add ie b k v = Some b'"
    "block_input (cmp (opt_cmp opt)) K es" "k \<in> K" "k \<noteq> []" "length k < 2 ^ 64" "length v < 2 ^ 64"
  shows "holds ie opt (Some b') (es @ [(k, v)])" "block_input (cmp (opt_cmp opt)) K (es @ [(k, v)])"
proof -
  obtain xs rs where r: "bb_opt b = opt" "bb_rep ie b xs rs" "map snd xs = es" using assms(3) by (auto simp: holds_def)
  note empty = bb_buffer_empty [OF assms(1) r(2)]
  have g: "bb_buffer b = [] \<or> cmp (opt_cmp (bb_opt b)) (bb_last_key b) k = Some Less"
    using assms(4) by (auto simp: bb_add_def bind_eq_Some_conv split: if_splits)
  obtain b1 s rs1 where "bb_add ie b k v = Some b1" "bb_rep ie b1 (xs @ [(s, k, v)]) rs1" "bb_opt b1 = bb_opt b"
    using bb_add_rep [OF r(2) _ assms(8,9) g] assms(2) r(1) empty by auto
  then show "holds ie opt (Some b') (es @ [(k, v)])" using assms(4) r(1,3) by (force simp: holds_def)
  have ord: "cmp_order (cmp (opt_cmp opt)) K" "sorted_wrt (\<lambda>x y. cmp_lt (cmp (opt_cmp opt)) (fst x) (fst y)) es"
      "\<forall>e \<in> set es. fst e \<in> K"
    using assms(5) by (auto simp: block_input_def)
  have "cmp_lt (cmp (opt_cmp opt)) (fst e) k" if e: "e \<in> set es" for e
  proof -
    obtain es' l where es: "es = es' @ [l]" using e by (cases es rule: rev_cases) auto
    have last: "cmp_lt (cmp (opt_cmp opt)) (fst l) k"
      using g r empty es by (auto simp: bb_rep_def cmp_lt_def last_map [symmetric])
    show ?thesis
    proof (cases "e = l")
      case False
      then have "cmp_lt (cmp (opt_cmp opt)) (fst e) (fst l)" using ord(2) e es by (auto simp: sorted_wrt_append)
      with last ord(3) es e assms(6) show ?thesis
        using cmp_order.lt_trans [OF ord(1), of "fst e" "fst l" k] by auto
    qed (use last in simp)
  qed
  then show "block_input (cmp (opt_cmp opt)) K (es @ [(k, v)])"
    using assms(5-9) by (auto simp: block_input_def sorted_wrt_append)
qed

lemma block_input_le_last:
  assumes "block_input cm K es" "(k, v) \<in> set es" "s \<in> K" "cmp_le cm (fst (last es)) s"
  shows "cmp_le cm k s"
proof -
  obtain es' l where es: "es = es' @ [l]" using assms(2) by (cases es rule: rev_cases) auto
  have ord: "cmp_order cm K" "k \<in> K" "fst l \<in> K" using assms(1,2) es by (auto simp: block_input_def)
  have "(k, v) = l \<or> cmp_lt cm k (fst l)" using assms(1,2) es by (auto simp: block_input_def sorted_wrt_append)
  then have "cmp_le cm k (fst l)" using cmp_order.lt_imp_le [OF ord(1)] cmp_order.le_refl [OF ord(1,2)] by auto
  then show ?thesis using cmp_order.le_trans [OF ord assms(3)] assms(4) es by simp
qed

lemma handle_bytes_length: "handle_bytes ie h = Some enc \<Longrightarrow> length enc \<le> 16"
  by (auto simp: handle_bytes_def bh_encode_to_def encode_var_at_def bind_eq_Some_conv slice_range_def overwrite_def
      split: if_splits)

lemma holds_new: "holds ie opt (Some (block_builder_new opt)) []"
  using bb_rep_new [of ie opt] by (force simp: holds_def block_builder_new_def)

lemma start_block_policy: "start_block b off = Some b' \<Longrightarrow> fb_policy b' = fb_policy b"
proof -
  have g: "generate_filter b = Some b' \<Longrightarrow> fb_policy b' = fb_policy b" for b b'
    by (auto simp: generate_filter_def Let_def bind_eq_Some_conv split: if_splits)
  have "start_block_loop ix b = Some b' \<Longrightarrow> fb_policy b' = fb_policy b" for ix
  proof (induction ix b rule: start_block_loop.induct)
    case (1 ix b)
    from "1.prems" show ?case
      by (subst (asm) start_block_loop.simps) (auto simp: bind_eq_Some_conv g dest!: "1.IH" split: if_splits)
  qed
  then show "start_block b off = Some b' \<Longrightarrow> fb_policy b' = fb_policy b"
    by (auto simp: start_block_def Let_def split: if_splits)
qed

context byte_sink
begin

text \<open>Writing the contents of a block builder.\<close>

lemma write_built:
  assumes "integer_encoding ie" "tb_offset tb = length (contents (tb_dst tb))" "holds ie opt (Some b) es"
    "compressor_get (opt_compressor_list opt) (opt_compressor opt) = Inr compr"
    "write_block ie crc wr tb (bb_finish ie b) (opt_compressor opt) compr = (tb', Inr h)"
  obtains w' d xs rs where "contents w' = contents (tb_dst tb) @ d" "tb' = tb\<lparr>tb_dst := w', tb_offset := length (contents w')\<rparr>"
    "block_written ie crc opt (contents w') h xs rs" "map snd xs = es"
proof -
  obtain xs rs where b: "bb_rep ie b xs rs" "map snd xs = es" using assms(3) by (auto simp: holds_def)
  obtain data w' where w: "comp_encode compr (bb_finish ie b) = Inr data"
      "contents w' = contents (tb_dst tb) @ raw_block ie crc (opt_compressor opt) data"
      "tb' = tb\<lparr>tb_dst := w', tb_offset := length (contents w')\<rparr>"
      "stored_at ie crc (opt_compressor opt) data h (contents w')" "h = bh_new (tb_offset tb) (length data)"
    by (rule write_block_stored [OF assms(1,2,5)])
  have "block_written ie crc opt (contents w') h xs rs"
    using b(1) w(1,4) assms(4) by (auto simp: block_written_def bb_rep_def bb_finish_rep [OF b(1)])
  then show ?thesis by (rule that [OF w(2,3) _ b(2)])
qed

lemma write_data_block_rep:
  assumes ie: "integer_encoding ie" and opt: "0 < block_restart_interval opt" and K: "table_keys (opt_cmp opt) D K"
    and rep: "tb_rep ie crc K opt contents tb ps cur" and cur: "cur \<noteq> []" "block_input (cmp (opt_cmp opt)) K cur"
    and D: "fst ` set cur \<subseteq> D"
    and nk: "nk \<in> D \<and> cmp_lt (cmp (opt_cmp opt)) (fst (last cur)) nk \<or> find_short_succ (opt_cmp opt) (fst (last cur)) = Some nk"
    and run: "write_data_block ie crc wr tb nk = Some (tb', Inr ())"
  shows "\<exists>p. tb_rep ie crc K opt contents tb' (ps @ [p]) [] \<and> part_entries p = cur"
proof -
  have r: "tb_opt tb = opt" "tb_offset tb = length (contents (tb_dst tb))" using rep by (simp_all add: tb_rep_def)
  obtain b where b: "tb_data_block tb = Some b" "holds ie opt (Some b) cur"
    using rep by (auto simp: tb_rep_def holds_def)
  let ?tb = "tb\<lparr>tb_data_block := None, tb_prev_block_last_key := bb_last_key b\<rparr>"
  obtain sep where sep0: "find_shortest_sep (opt_cmp opt) (bb_last_key b) nk = Some sep"
    using run b(1) r(1) by (auto simp: write_data_block_def Let_def bind_eq_Some_conv)
  obtain compr where compr: "compressor_get (opt_compressor_list opt) (opt_compressor opt) = Inr compr"
    using run b(1) r(1) sep0 by (cases "compressor_get (opt_compressor_list opt) (opt_compressor opt)")
      (auto simp: write_data_block_def Let_def)
  obtain tb1 h where wb: "write_block ie crc wr ?tb (bb_finish ie b) (opt_compressor opt) compr = (tb1, Inr h)"
    using run b(1) r(1) sep0 compr by (cases "write_block ie crc wr ?tb (bb_finish ie b) (opt_compressor opt) compr")
      (auto simp: write_data_block_def Let_def split: sum.splits)
  have "tb_offset ?tb = length (contents (tb_dst ?tb))" using r(2) by simp
  then obtain w' d xs rs where w: "contents w' = contents (tb_dst ?tb) @ d"
      "tb1 = ?tb\<lparr>tb_dst := w', tb_offset := length (contents w')\<rparr>"
      "block_written ie crc opt (contents w') h xs rs" "map snd xs = cur"
    by (rule write_built [OF ie _ b(2) compr wb])
  obtain fb where fb: "tb_filter_block tb1 = Some fb" "fb_policy fb = opt_filter_policy opt"
    using rep by (auto simp: tb_rep_def w(2))
  obtain enc ib ib' fb' where run': "handle_bytes ie h = Some enc" "tb_index_block tb1 = Some ib" "bb_add ie ib sep enc = Some ib'"
      "start_block fb (tb_offset tb1) = Some fb'"
      "tb' = tb1\<lparr>tb_index_block := Some ib', tb_data_block := Some (block_builder_new (tb_opt tb1)), tb_filter_block := Some fb'\<rparr>"
    using run b(1) r(1) sep0 compr wb fb(1) by (auto simp: write_data_block_def Let_def bind_eq_Some_conv)
  have xs: "xs \<noteq> []" using w(4) cur(1) by auto
  have last: "bb_last_key b = fst (last cur)" using b(2) cur(1) by (auto simp: holds_def bb_rep_def last_map split: if_splits)
  have "fst (last cur) \<in> D" using cur(1) D by auto
  then have sep: "sep \<in> K" "sep \<noteq> []" "length sep < 2 ^ 64" and le: "cmp_le (cmp (opt_cmp opt)) (fst (last cur)) sep"
    using K nk sep0 unfolding table_keys_def last by blast+
  have "length enc < 2 ^ 64" using handle_bytes_length [OF run'(1)] by simp
  have ib: "holds ie opt (Some ib) (map part_index ps)" "block_input (cmp (opt_cmp opt)) K (map part_index ps)"
    using rep run'(2) by (simp_all add: tb_rep_def w(2))
  note add = holds_add [OF ie opt ib(1) run'(3) ib(2) sep \<open>length enc < 2 ^ 64\<close>]
  let ?p = "(sep, enc, xs, rs)"
  have "part_written ie crc opt (contents w') ?p"
    using xs run'(1) w(3) by (auto simp: part_written_def)
  moreover have "part_bounded opt ?p"
    using block_input_le_last [OF cur(2) _ sep(1) le] sep0 by (auto simp: part_bounded_def w(4) last)
  moreover have "\<forall>p \<in> set ps. part_written ie crc opt (contents w') p \<and> part_bounded opt p"
    using rep w(1) by (auto simp: tb_rep_def intro: part_written_append)
  moreover have "fb_policy fb' = opt_filter_policy opt"
    using fb(2) start_block_policy [OF run'(4)] by simp
  ultimately have "tb_rep ie crc K opt contents tb' (ps @ [?p]) []"
    using add holds_new [of ie opt] r(1) by (simp add: tb_rep_def run'(5) w(2))
  then show ?thesis using w(4) by (intro exI [of _ ?p]) simp
qed

lemma tb_add_rep:
  assumes ie: "integer_encoding ie" and opt: "0 < block_restart_interval opt" "8 \<le> options.block_size opt"
    and K: "table_keys (opt_cmp opt) D K" and rep: "tb_rep ie crc K opt contents tb ps cur"
    and inp: "block_input (cmp (opt_cmp opt)) K (table_entries ps @ cur @ [(k, v)])" and D: "fst ` set (cur @ [(k, v)]) \<subseteq> D"
    and run: "tb_add ie crc wr tb k v = Some (tb', Inr ())"
  shows "\<exists>ps' cur'. tb_rep ie crc K opt contents tb' ps' cur' \<and> table_entries ps' @ cur' = table_entries ps @ cur @ [(k, v)]"
proof -
  obtain b where b: "tb_data_block tb = Some b" "holds ie opt (Some b) cur" using rep by (auto simp: tb_rep_def holds_def)
  have r: "tb_opt tb = opt" using rep by (simp add: tb_rep_def)
  have k: "k \<in> K" "k \<noteq> []" "length k < 2 ^ 64" "length v < 2 ^ 64" and cur: "block_input (cmp (opt_cmp opt)) K cur"
    using inp by (auto simp: block_input_def sorted_wrt_append)
  let ?w = "if bb_size_estimate b > options.block_size opt then write_data_block ie crc wr tb k else Some (tb, Inr ())"
  obtain tb1 r1 where w: "?w = Some (tb1, r1)"
    using run b(1) r by (auto simp: tb_add_def bind_eq_Some_conv cong: if_cong)
  have "r1 = Inr ()" using run b(1) r w by (cases r1) (auto simp: tb_add_def bind_eq_Some_conv cong: if_cong)
  then obtain b1 b2 where run': "?w = Some (tb1, Inr ())" "tb_data_block tb1 = Some b1" "bb_add ie b1 k v = Some b2"
      "tb' = tb1\<lparr>tb_filter_block := map_option (\<lambda>fb. add_key fb k) (tb_filter_block tb1),
        tb_num_entries := tb_num_entries tb1 + 1, tb_data_block := Some b2\<rparr>"
    using run b(1) r w by (auto simp: tb_add_def Let_def bind_eq_Some_conv cong: if_cong)
  have "\<exists>ps' cur'. tb_rep ie crc K opt contents tb1 ps' cur' \<and> table_entries ps' @ cur' = table_entries ps @ cur \<and>
      (cur' = cur \<or> cur' = [])"
  proof (cases "bb_size_estimate b > options.block_size opt")
    case True
    have "cur \<noteq> []"
    proof
      assume "cur = []"
      then obtain rs where "bb_rep ie b [] rs" using b(2) by (auto simp: holds_def)
      then have "bb_size_estimate b = 8" by (simp add: bb_size_estimate_def bb_rep_def restarts_wf_def)
      then show False using True opt(2) by simp
    qed
    moreover have "write_data_block ie crc wr tb k = Some (tb1, Inr ())" using run'(1) True by simp
    moreover have "k \<in> D" "fst ` set cur \<subseteq> D" "cmp_lt (cmp (opt_cmp opt)) (fst (last cur)) k"
      using D inp \<open>cur \<noteq> []\<close> by (auto simp: block_input_def sorted_wrt_append)
    ultimately obtain p where "tb_rep ie crc K opt contents tb1 (ps @ [p]) []" "part_entries p = cur"
      using write_data_block_rep [OF ie opt(1) K rep _ cur, of k] by blast
    then show ?thesis by (intro exI [of _ "ps @ [p]"] exI [of _ "[]"]) (simp add: table_entries_def)
  qed (use run'(1) rep in auto)
  then obtain ps' cur' where p: "tb_rep ie crc K opt contents tb1 ps' cur'" "table_entries ps' @ cur' = table_entries ps @ cur"
      "cur' = cur \<or> cur' = []" by blast
  have "block_input (cmp (opt_cmp opt)) K cur'" using p(3) cur by (auto simp: block_input_def)
  moreover have "holds ie opt (Some b1) cur'" using p(1) run'(2) by (simp add: tb_rep_def)
  ultimately have "holds ie opt (Some b2) (cur' @ [(k, v)])" using holds_add(1) [OF ie opt(1) _ run'(3) _ k] by blast
  then have "tb_rep ie crc K opt contents tb' ps' (cur' @ [(k, v)])"
    using p(1) by (auto simp: tb_rep_def run'(4) add_key_def)
  with p(2) show ?thesis by (metis append.assoc)
qed

end

fun tb_add_all ::
    "int_codec \<Rightarrow> (bytes \<Rightarrow> u32) \<Rightarrow> 'w write_fun \<Rightarrow> 'w table_builder \<Rightarrow> (bytes \<times> bytes) list \<Rightarrow> ('w table_builder \<times> unit result) run" where
  "tb_add_all ie crc wr tb [] = Some (tb, Inr ())"
| "tb_add_all ie crc wr tb ((k, v) # es) =
     do { (tb, r) \<leftarrow> tb_add ie crc wr tb k v;
          case r of Inl e \<Rightarrow> Some (tb, Inl e) | Inr _ \<Rightarrow> tb_add_all ie crc wr tb es }"

definition write_table ::
    "int_codec \<Rightarrow> (bytes \<Rightarrow> u32) \<Rightarrow> 'w write_fun \<Rightarrow> ('w \<Rightarrow> 'w \<times> unit result) \<Rightarrow> 'w table_builder \<Rightarrow> (bytes \<times> bytes) list \<Rightarrow>
      ('w \<times> nat result) run" where
  "write_table ie crc wr flush tb es =
     do { (tb, r) \<leftarrow> tb_add_all ie crc wr tb es;
          case r of Inl e \<Rightarrow> Some (tb_dst tb, Inl e) | Inr _ \<Rightarrow> tb_finish ie crc wr flush tb }"

text \<open>A finished file: its data blocks, the metaindex with the filter block, the index and the footer.\<close>

definition filter_key :: "options \<Rightarrow> bytes" where
  "filter_key opt = map of_char (''filter.'' @ fp_name (opt_filter_policy opt))"

definition table_file ::
    "int_codec \<Rightarrow> (bytes \<Rightarrow> u32) \<Rightarrow> bytes set \<Rightarrow> options \<Rightarrow> bytes \<Rightarrow> table_part list \<Rightarrow> block_handle \<Rightarrow> block_entry list \<Rightarrow> nat list \<Rightarrow> bool" where
  "table_file ie crc K opt content ps ih ixs irs \<longleftrightarrow>
     (\<forall>p \<in> set ps. part_written ie crc opt content p \<and> part_bounded opt p) \<and> block_input (cmp (opt_cmp opt)) K (map part_index ps) \<and>
     block_written ie crc opt content ih ixs irs \<and> map snd ixs = map part_index ps \<and>
     (\<exists>body mh mxs mrs fh fenc fdata. content = body @ enc_footer ie (footer_new mh ih) \<and>
        block_written ie crc opt content mh mxs mrs \<and> map snd mxs = [(filter_key opt, fenc)] \<and>
        handle_bytes ie fh = Some fenc \<and> stored_at ie crc NoneCompressor_ID fdata fh content \<and> 5 \<le> length fdata)"

context byte_sink
begin

lemma tb_add_all_rep:
  assumes ie: "integer_encoding ie" and opt: "0 < block_restart_interval opt" "8 \<le> options.block_size opt"
    and K: "table_keys (opt_cmp opt) D K" and rep: "tb_rep ie crc K opt contents tb ps cur"
    and inp: "block_input (cmp (opt_cmp opt)) K (table_entries ps @ cur @ es)" and D: "fst ` set (table_entries ps @ cur @ es) \<subseteq> D"
    and run: "tb_add_all ie crc wr tb es = Some (tb', Inr ())"
  shows "\<exists>ps' cur'. tb_rep ie crc K opt contents tb' ps' cur' \<and> table_entries ps' @ cur' = table_entries ps @ cur @ es"
  using rep inp D run
proof (induction es arbitrary: tb ps cur)
  case (Cons e es)
  obtain k v where e: "e = (k, v)" by (cases e)
  obtain tb1 r where r: "tb_add ie crc wr tb k v = Some (tb1, r)" using Cons.prems(4) by (auto simp: e bind_eq_Some_conv)
  then have r1: "tb_add ie crc wr tb k v = Some (tb1, Inr ())" "tb_add_all ie crc wr tb1 es = Some (tb', Inr ())"
    using Cons.prems(4) by (auto simp: e split: sum.splits)
  have "block_input (cmp (opt_cmp opt)) K (table_entries ps @ cur @ [(k, v)])"
    using Cons.prems(2) by (auto simp: e block_input_def sorted_wrt_append)
  moreover have "fst ` set (cur @ [(k, v)]) \<subseteq> D" using Cons.prems(3) e by auto
  ultimately obtain ps1 cur1 where
    1: "tb_rep ie crc K opt contents tb1 ps1 cur1" "table_entries ps1 @ cur1 = table_entries ps @ cur @ [(k, v)]"
    using tb_add_rep [OF ie opt K Cons.prems(1) _ _ r1(1)] by blast
  then have "table_entries ps1 @ cur1 @ es = table_entries ps @ cur @ e # es" by (metis append.assoc append_Cons append_Nil e)
  with Cons.IH [OF 1(1) _ _ r1(2)] Cons.prems(2,3) show ?case by simp
qed auto

lemma write_filter_block_rep:
  assumes ie: "integer_encoding ie" and opt: "0 < block_restart_interval opt"
    and tb: "tb_offset tb = length (contents (tb_dst tb))" "tb_filter_block tb = Some fb" "fb_policy fb = opt_filter_policy opt"
    and fk: "length (filter_key opt) < 2 ^ 64" "cmp_order (cmp (opt_cmp opt)) {filter_key opt}"
    and run: "write_filter_block ie crc wr tb (block_builder_new opt) = Some (tb', Inr meta)"
  shows "\<exists>w' d fh fenc fdata. contents w' = contents (tb_dst tb) @ d \<and>
    tb' = tb\<lparr>tb_filter_block := None, tb_dst := w', tb_offset := length (contents w')\<rparr> \<and>
    holds ie opt (Some meta) [(filter_key opt, fenc)] \<and>
    handle_bytes ie fh = Some fenc \<and> stored_at ie crc NoneCompressor_ID fdata fh (contents w') \<and> 5 \<le> length fdata"
proof -
  let ?tb = "tb\<lparr>tb_filter_block := None\<rparr>"
  obtain data where data: "fb_finish ie fb = Some data" using run tb(2) by (auto simp: write_filter_block_def Let_def bind_eq_Some_conv)
  obtain tb1 h where wb: "write_block ie crc wr ?tb data NoneCompressor_ID NoneCompressor = (tb1, Inr h)"
    using run tb(2) data by (cases "write_block ie crc wr ?tb data NoneCompressor_ID NoneCompressor")
      (auto simp: write_filter_block_def Let_def split: sum.splits)
  have "tb_offset ?tb = length (contents (tb_dst ?tb))" using tb(1) by simp
  then obtain data' w' where w: "comp_encode NoneCompressor data = Inr data'"
      "contents w' = contents (tb_dst ?tb) @ raw_block ie crc NoneCompressor_ID data'"
      "tb1 = ?tb\<lparr>tb_dst := w', tb_offset := length (contents w')\<rparr>"
      "stored_at ie crc NoneCompressor_ID data' h (contents w')" "h = bh_new (tb_offset ?tb) (length data')"
    by (rule write_block_stored [OF ie _ wb])
  obtain fenc where fe: "handle_bytes ie h = Some fenc" "bb_add ie (block_builder_new opt) (filter_key opt) fenc = Some meta" "tb' = tb1"
    using run tb(2,3) data wb by (auto simp: write_filter_block_def Let_def bind_eq_Some_conv filter_key_def filter_name_def)
  have "block_input (cmp (opt_cmp opt)) {filter_key opt} []" using fk(2) by (simp add: block_input_def)
  have "filter_key opt \<noteq> []" by (simp add: filter_key_def)
  from holds_add(1) [OF ie opt holds_new fe(2) \<open>block_input _ _ []\<close> _ this fk(1)] handle_bytes_length [OF fe(1)]
  have "holds ie opt (Some meta) [(filter_key opt, fenc)]" by simp
  moreover have "5 \<le> length data'"
    using data w(1) integer_encoding.codec_laws [OF ie] by (auto simp: NoneCompressor_def fb_finish_def bind_eq_Some_conv)
  ultimately show ?thesis
    using w fe(1,3)
    by (intro exI [of _ w'] exI [of _ "raw_block ie crc NoneCompressor_ID data'"] exI [of _ h] exI [of _ fenc] exI [of _ data']) simp
qed

text \<open>The steps of a \<open>finish\<close> that succeeds.\<close>

lemma tb_finish_steps:
  assumes "tb_finish ie crc wr flush tb = Some (w, Inr n)" "tb_opt tb = opt" "tb_data_block tb = Some block"
  obtains compr tb1 tb2 meta tb3 mh ib tb4 ih buf w1 m where
    "compressor_get (opt_compressor_list opt) (opt_compressor opt) = Inr compr"
    "(if bb_entries block > 0 then do { nk \<leftarrow> find_short_succ (opt_cmp opt) (bb_last_key block); write_data_block ie crc wr tb nk }
      else Some (tb, Inr ())) = Some (tb1, Inr ())"
    "write_filter_block ie crc wr tb1 (block_builder_new (tb_opt tb1)) = Some (tb2, Inr meta)"
    "write_block ie crc wr tb2 (bb_finish ie meta) (opt_compressor (tb_opt tb2)) compr = (tb3, Inr mh)"
    "tb_index_block tb3 = Some ib"
    "write_block ie crc wr tb3 (bb_finish ie ib) (opt_compressor (tb_opt tb3)) compr = (tb4, Inr ih)"
    "footer_encode ie (footer_new mh ih) (replicate FULL_FOOTER_LENGTH 0) = Some buf"
    "wr (tb_dst tb4) buf = (w1, Inr m)" "w = fst (flush w1)" "n = tb_offset tb4 + m"
proof -
  note run = assms(1) [unfolded tb_finish_def assms(3) bind.bind_lunit assms(2)]
  let ?w = "if bb_entries block > 0 then do { nk \<leftarrow> find_short_succ (opt_cmp opt) (bb_last_key block); write_data_block ie crc wr tb nk }
      else Some (tb, Inr ())"
  obtain compr where c: "compressor_get (opt_compressor_list opt) (opt_compressor opt) = Inr compr"
    using run by (cases "compressor_get (opt_compressor_list opt) (opt_compressor opt)") auto
  obtain tb1 r1 where 1: "?w = Some (tb1, r1)" using run c by (cases ?w) auto
  then have r1: "r1 = Inr ()" using run c by (cases r1) auto
  obtain tb2 r2 where 2: "write_filter_block ie crc wr tb1 (block_builder_new (tb_opt tb1)) = Some (tb2, r2)"
    using run c 1 r1 by (cases "write_filter_block ie crc wr tb1 (block_builder_new (tb_opt tb1))") auto
  then obtain meta where r2: "r2 = Inr meta" using run c 1 r1 by (cases r2) auto
  obtain tb3 r3 where 3: "write_block ie crc wr tb2 (bb_finish ie meta) (opt_compressor (tb_opt tb2)) compr = (tb3, r3)"
    by fastforce
  then obtain mh where r3: "r3 = Inr mh" using run c 1 r1 2 r2 by (cases r3) auto
  obtain ib where ib: "tb_index_block tb3 = Some ib" using run c 1 r1 2 r2 3 r3 by (cases "tb_index_block tb3") auto
  obtain tb4 r4 where 4: "write_block ie crc wr tb3 (bb_finish ie ib) (opt_compressor (tb_opt tb3)) compr = (tb4, r4)"
    by fastforce
  then obtain ih where r4: "r4 = Inr ih" using run c 1 r1 2 r2 3 r3 ib by (cases r4) auto
  obtain buf where buf: "footer_encode ie (footer_new mh ih) (replicate FULL_FOOTER_LENGTH 0) = Some buf"
    using run c 1 r1 2 r2 3 r3 ib 4 r4 by (cases "footer_encode ie (footer_new mh ih) (replicate FULL_FOOTER_LENGTH 0)") auto
  obtain w1 r5 where 5: "wr (tb_dst tb4) buf = (w1, r5)" by fastforce
  then obtain m where r5: "r5 = Inr m" using run c 1 r1 2 r2 3 r3 ib 4 r4 buf by (cases r5) auto
  have "w = fst (flush w1)" "n = tb_offset tb4 + m"
    using run c 1 r1 2 r2 3 r3 ib 4 r4 buf 5 r5 by (auto split: prod.splits sum.splits)
  then show ?thesis using that c 1 r1 2 r2 3 r3 ib 4 r4 buf 5 r5 by blast
qed

lemma tb_finish_rep:
  assumes ie: "integer_encoding ie" and opt: "0 < block_restart_interval opt" and K: "table_keys (opt_cmp opt) D K"
    and rep: "tb_rep ie crc K opt contents tb ps cur" and cur: "block_input (cmp (opt_cmp opt)) K cur"
    and D: "fst ` set cur \<subseteq> D"
    and fk: "length (filter_key opt) < 2 ^ 64" "cmp_order (cmp (opt_cmp opt)) {filter_key opt}"
    and flush: "\<And>w. contents (fst (flush w)) = contents w"
    and run: "tb_finish ie crc wr flush tb = Some (w, Inr n)" and n: "n < 2 ^ 32"
  shows "\<exists>ps' ih ixs irs. table_file ie crc K opt (contents w) ps' ih ixs irs \<and>
    table_entries ps' = table_entries ps @ cur \<and> n = length (contents w)"
proof -
  obtain block where block: "tb_data_block tb = Some block" "holds ie opt (Some block) cur" and o: "tb_opt tb = opt"
    using rep by (auto simp: tb_rep_def holds_def)
  obtain compr tb1 tb2 meta tb3 mh ib tb4 ih buf w1 m where st:
    "compressor_get (opt_compressor_list opt) (opt_compressor opt) = Inr compr"
    "(if bb_entries block > 0 then do { nk \<leftarrow> find_short_succ (opt_cmp opt) (bb_last_key block); write_data_block ie crc wr tb nk }
      else Some (tb, Inr ())) = Some (tb1, Inr ())"
    "write_filter_block ie crc wr tb1 (block_builder_new (tb_opt tb1)) = Some (tb2, Inr meta)"
    "write_block ie crc wr tb2 (bb_finish ie meta) (opt_compressor (tb_opt tb2)) compr = (tb3, Inr mh)"
    "tb_index_block tb3 = Some ib"
    "write_block ie crc wr tb3 (bb_finish ie ib) (opt_compressor (tb_opt tb3)) compr = (tb4, Inr ih)"
    "footer_encode ie (footer_new mh ih) (replicate FULL_FOOTER_LENGTH 0) = Some buf"
    "wr (tb_dst tb4) buf = (w1, Inr m)" "w = fst (flush w1)" "n = tb_offset tb4 + m"
    by (rule tb_finish_steps [OF run o block(1)])
  have "\<exists>ps'. tb_rep ie crc K opt contents tb1 ps' [] \<and> table_entries ps' = table_entries ps @ cur"
  proof (cases "cur = []")
    case True
    then have "bb_entries block = 0" using block(2) by (auto simp: holds_def bb_entries_def bb_rep_def)
    then show ?thesis using st(2) rep True by auto
  next
    case False
    then have e: "bb_entries block > 0" "bb_last_key block = fst (last cur)"
      using block(2) by (auto simp: holds_def bb_entries_def bb_rep_def last_map split: if_splits)
    obtain nk where nk: "find_short_succ (opt_cmp opt) (fst (last cur)) = Some nk" "write_data_block ie crc wr tb nk = Some (tb1, Inr ())"
      using st(2) e by (auto simp: bind_eq_Some_conv)
    obtain p where "tb_rep ie crc K opt contents tb1 (ps @ [p]) []" "part_entries p = cur"
      using write_data_block_rep [OF ie opt K rep False cur D _ nk(2)] nk(1) by blast
    then show ?thesis by (intro exI [of _ "ps @ [p]"]) (simp add: table_entries_def)
  qed
  then obtain ps' where ps': "tb_rep ie crc K opt contents tb1 ps' []" "table_entries ps' = table_entries ps @ cur" by blast
  have r1: "tb_opt tb1 = opt" "tb_offset tb1 = length (contents (tb_dst tb1))" using ps'(1) by (simp_all add: tb_rep_def)
  obtain fb where fb: "tb_filter_block tb1 = Some fb" "fb_policy fb = opt_filter_policy opt" using ps'(1) by (auto simp: tb_rep_def)
  obtain w2 d2 fh fenc fdata where 2: "contents w2 = contents (tb_dst tb1) @ d2"
      "tb2 = tb1\<lparr>tb_filter_block := None, tb_dst := w2, tb_offset := length (contents w2)\<rparr>"
      "holds ie opt (Some meta) [(filter_key opt, fenc)]" "handle_bytes ie fh = Some fenc"
      "stored_at ie crc NoneCompressor_ID fdata fh (contents w2)" "5 \<le> length fdata"
    using write_filter_block_rep [OF ie opt r1(2) fb fk st(3) [unfolded r1(1)]] by blast
  have o2: "tb_opt tb2 = opt" "tb_offset tb2 = length (contents (tb_dst tb2))" using 2(2) r1 by simp_all
  obtain w3 d3 mxs mrs where 3: "contents w3 = contents (tb_dst tb2) @ d3"
      "tb3 = tb2\<lparr>tb_dst := w3, tb_offset := length (contents w3)\<rparr>"
      "block_written ie crc opt (contents w3) mh mxs mrs" "map snd mxs = [(filter_key opt, fenc)]"
    by (rule write_built [OF ie o2(2) 2(3) st(1) st(4) [unfolded o2(1)]])
  have o3: "tb_opt tb3 = opt" "tb_offset tb3 = length (contents (tb_dst tb3))" using 3(2) o2 by simp_all
  have ib: "holds ie opt (Some ib) (map part_index ps')" using ps'(1) st(5) by (simp add: tb_rep_def 3(2) 2(2))
  obtain w4 d4 ixs irs where 4: "contents w4 = contents (tb_dst tb3) @ d4"
      "tb4 = tb3\<lparr>tb_dst := w4, tb_offset := length (contents w4)\<rparr>"
      "block_written ie crc opt (contents w4) ih ixs irs" "map snd ixs = map part_index ps'"
    by (rule write_built [OF ie o3(2) ib st(1) st(6) [unfolded o3(1)]])
  have off: "tb_offset tb4 = length (contents w4)" "tb_dst tb4 = w4" using 4(2) by simp_all
  have small: "length (contents w4) < 2 ^ 32" using n st(10) off by simp
  have all: "contents w4 = contents w3 @ d4" "contents w4 = contents w2 @ d3 @ d4" "contents w4 = contents (tb_dst tb1) @ d2 @ d3 @ d4"
    using 4(1) 3(1) 2(1) by (simp_all add: 3(2) 2(2))
  have mh: "block_written ie crc opt (contents w4) mh mxs mrs" using block_written_append [OF 3(3)] all(1) by metis
  have hok: "handle_ok mh" "handle_ok ih" using mh 4(3) stored_at_bounds small by (auto simp: block_written_def)
  have buf: "buf = enc_footer ie (footer_new mh ih)" "length buf = 48"
    using integer_encoding.footer_encode_eq [OF ie, of "footer_new mh ih"] hok st(7) by (auto simp: footer_new_def)
  obtain w5 where w5: "wr w4 buf = (w5, Inr (length buf))" "contents w5 = contents w4 @ buf" by (rule write_cases)
  have final: "contents w = contents w4 @ buf" "n = length (contents w)"
    using st(8,9,10) w5 off flush by auto
  have parts: "\<forall>p \<in> set ps'. part_written ie crc opt (contents w) p \<and> part_bounded opt p"
    using ps'(1) all(3) final(1) by (auto simp: tb_rep_def dest!: bspec intro: part_written_append)
  have "table_file ie crc K opt (contents w) ps' ih ixs irs"
    unfolding table_file_def
  proof (intro conjI exI)
    show "contents w = contents w4 @ enc_footer ie (footer_new mh ih)" using final(1) buf(1) by simp
    show "block_written ie crc opt (contents w) mh mxs mrs" "block_written ie crc opt (contents w) ih ixs irs"
      using block_written_append [OF mh, of buf] block_written_append [OF 4(3), of buf] final(1) by simp_all
    show "stored_at ie crc NoneCompressor_ID fdata fh (contents w)"
      using stored_at_append [OF 2(5), of "d3 @ d4 @ buf"] all(2) final(1) by simp
    show "block_input (cmp (opt_cmp opt)) K (map part_index ps')" using ps'(1) by (simp add: tb_rep_def)
  qed (use parts 3(4) 4(4) 2(4,6) in auto)
  with ps'(2) final(2) show ?thesis by blast
qed

end


section \<open>Opening the file\<close>

definition compressor_ok :: "options \<Rightarrow> bool" where
  "compressor_ok opt \<longleftrightarrow> (\<forall>c. compressor_get (opt_compressor_list opt) (opt_compressor opt) = Inr c \<longrightarrow> lossless c)"

lemma block_written_read:
  assumes "integer_encoding ie" "random_file f content" "length content < 2 ^ 32" "compressor_ok opt"
    "block_written ie crc opt content h xs rs" "block_input (cmp (opt_cmp opt)) K (map snd xs)"
  shows "handle_ok h" "\<exists>b. read_table_block ie crc opt f h = Some (Inr b) \<and> block_holds ie K opt b xs rs"
proof -
  obtain data c where d: "entries_wf xs" "restarts_wf xs rs" "stored_at ie crc (opt_compressor opt) data h content"
      "compressor_get (opt_compressor_list opt) (opt_compressor opt) = Inr c" "comp_encode c (block_bytes ie xs rs) = Inr data"
    using assms(5) by (auto simp: block_written_def)
  have c: "lossless c" using assms(4) d(4) by (simp add: compressor_ok_def)
  show "handle_ok h" using stored_at_bounds [OF d(3) assms(3)] by simp
  have "length (block_bytes ie xs rs) < 2 ^ 32"
    using lossless.encode_small [OF c d(5)] stored_at_bounds [OF d(3) assms(3)] by blast
  from finished_block [OF assms(1,6) d(1,2) this]
  show "\<exists>b. read_table_block ie crc opt f h = Some (Inr b) \<and> block_holds ie K opt b xs rs"
    using read_stored [OF assms(1,2) d(3,4) lossless.decode_encode [OF c d(5)]] by (auto simp: block_holds_def)
qed

lemma block_seek_single:
  assumes "block_holds ie {k} opt b xs rs" "map snd xs = [(k, v)]"
  shows "block_seek_entry ie b k = Some (Some (k, v))"
proof -
  obtain it where it: "block_iter_new ie b = Some it" "bi_inv ie xs rs {k} it" "bi_opt it = opt"
    using assms(1) by (auto simp: block_holds_def)
  have ord: "cmp_order (cmp (opt_cmp opt)) {k}"
    by (rule conjunct1 [OF bi_inv_found(4) [OF it(2), unfolded it(3) keys_sorted_def]])
  have "\<not> cmp_lt (cmp (opt_cmp opt)) k k" by (rule cmp_order.lt_irrefl [OF ord]) simp
  then have p: "pos_find (\<lambda>(k', v). \<not> cmp_lt (cmp (opt_cmp opt)) k' k) (map snd xs) = Some 0" by (simp add: assms(2))
  obtain it' where it': "bi_seek ie k it = Some it'" "bi_inv ie xs rs {k} it'" "bi_pos ie xs it' = Some 0"
    using bi.seek_pos [OF it(2), of k, unfolded it(3) p] by (auto simp: block_iter_ops_def)
  then have "bi_current it' = Some (Some (k, v))" using bi.current_pos [OF it'(2)] by (simp add: block_iter_ops_def assms(2))
  then show ?thesis using it(1) it'(1) by (simp add: block_seek_entry_def)
qed

lemma read_filter_ok:
  assumes "integer_encoding ie" "random_file f content" "length content < 2 ^ 32"
    "handle_bytes ie fh = Some fenc" "stored_at ie crc ct fdata fh content" "5 \<le> length fdata"
    "block_seek_entry ie b (filter_key opt) = Some (Some (filter_key opt, fenc))"
  shows "\<exists>r. table_read_filter_block ie b f opt = Some (Inr (Some r))"
proof -
  have h: "handle_ok fh" using stored_at_bounds [OF assms(5,3)] by simp
  have e: "bh_decode ie fenc = Some (Some (fh, length fenc))"
    using integer_encoding.bh_decode_enc [OF assms(1) h, of "[]"] integer_encoding.handle_bytes_eq [OF assms(1) h assms(4)] by simp
  obtain pre post where "content = pre @ fdata @ post" "bh_offset fh = length pre" "bh_size fh = length fdata"
    using assms(5) by (auto simp: stored_at_def raw_block_def)
  then have "read_bytes f fh = Inr fdata" and pos: "0 < bh_size fh"
    using random_file.read_at_middle [OF assms(2), of pre fdata post] assms(6) by (auto simp: read_bytes_def)
  moreover have "length fdata - 5 \<le> length fdata - Suc 0" by simp
  then obtain r where "filter_block_reader_new ie (opt_filter_policy opt) fdata = Some r"
    using assms(6) by (simp add: filter_block_reader_new_def Let_def slice_range_def)
  ultimately show ?thesis
    using assms(7) e by (auto simp: table_read_filter_block_def filter_key_def read_filter_block_def)
qed

lemma table_open:
  assumes ie: "integer_encoding ie" and f: "random_file f content" "length content < 2 ^ 32" and c: "compressor_ok opt"
    and fk: "length (filter_key opt) < 2 ^ 64" "cmp_order (cmp (opt_cmp opt)) {filter_key opt}"
    and tf: "table_file ie crc K opt content ps ih ixs irs"
  shows "\<exists>t cache'. table_new_raw ie crc opt cache f (length content) = Some (Inr t, cache') \<and>
    block_holds ie K opt (t_indexblock t) ixs irs \<and> t_opt t = opt \<and> t_file t = f"
proof -
  obtain body mh mxs mrs fh fenc fdata where w: "block_input (cmp (opt_cmp opt)) K (map part_index ps)"
      "block_written ie crc opt content ih ixs irs" "map snd ixs = map part_index ps"
      "content = body @ enc_footer ie (footer_new mh ih)" "block_written ie crc opt content mh mxs mrs"
      "map snd mxs = [(filter_key opt, fenc)]" "handle_bytes ie fh = Some fenc"
      "stored_at ie crc NoneCompressor_ID fdata fh content" "5 \<le> length fdata"
    using tf by (auto simp: table_file_def)
  have "length fenc < 2 ^ 64" using handle_bytes_length [OF w(7)] by simp
  then have "block_input (cmp (opt_cmp opt)) {filter_key opt} (map snd mxs)"
    using fk by (simp add: w(6) block_input_def) (simp add: filter_key_def)
  note m = block_written_read [OF ie f c w(5) this]
  note i = block_written_read [OF ie f c w(2), of K, unfolded w(3), OF w(1)]
  obtain ib mb where ib: "read_table_block ie crc opt f ih = Some (Inr ib)" "block_holds ie K opt ib ixs irs"
      and mb: "read_table_block ie crc opt f mh = Some (Inr mb)" "block_holds ie {filter_key opt} opt mb mxs mrs"
    using m(2) i(2) by blast
  obtain fr where fr: "table_read_filter_block ie mb f opt = Some (Inr (Some fr))"
    using read_filter_ok [OF ie f w(7,8,9) block_seek_single [OF mb(2) w(6)]] by blast
  let ?ft = "footer_new mh ih"
  have ok: "handle_ok (ft_meta_index ?ft)" "handle_ok (ft_index ?ft)" using m(1) i(1) by (simp_all add: footer_new_def)
  have "length (enc_footer ie ?ft) = 48" by (rule integer_encoding.footer_encode_eq(2) [OF ie ok])
  then have "f (length content - 48) 48 = Inr (enc_footer ie ?ft, 48)" "48 \<le> length content"
    using random_file.read_at_middle [OF f(1), of body "enc_footer ie ?ft" "[]"] w(4) by auto
  then have "read_footer ie f (length content) = Some (Inr ?ft)"
    using integer_encoding.footer_decode_enc [OF ie ok] by (simp add: read_footer_def usub_def FULL_FOOTER_LENGTH_def FOOTER_LENGTH_def)
  then show ?thesis
    using ib mb(1) fr by (simp add: table_new_raw_def footer_new_def new_cache_id_def)
qed

lemma table_file_layout:
  assumes ie: "integer_encoding ie" and f: "random_file f content" "length content < 2 ^ 32" and c: "compressor_ok opt"
    and tf: "table_file ie crc K opt content ps ih ixs irs" and inp: "block_input (cmp (opt_cmp opt)) K (table_entries ps)"
  shows "table_layout ie (read_table_block ie crc opt f) K opt ixs ps"
proof -
  have "part_loads ie (read_table_block ie crc opt f) K opt p" if p: "p \<in> set ps" for p
  proof -
    obtain s hb xs rs where e: "p = (s, hb, xs, rs)" by (cases p)
    obtain h where h: "xs \<noteq> []" "handle_bytes ie h = Some hb" "block_written ie crc opt content h xs rs"
      using tf p e by (auto simp: table_file_def part_written_def)
    obtain ps1 ps2 where "ps = ps1 @ p # ps2" using p by (meson split_list)
    then have "block_input (cmp (opt_cmp opt)) K (map snd xs)"
      using inp e by (auto simp: table_entries_def block_input_def sorted_wrt_append)
    note r = block_written_read [OF ie f c h(3) this]
    have "bh_decode ie hb = Some (Some (h, length hb))"
      using integer_encoding.bh_decode_enc [OF ie r(1), of "[]"] integer_encoding.handle_bytes_eq [OF ie r(1) h(2)] by simp
    with r(2) h(1) show ?thesis by (auto simp: e)
  qed
  then show ?thesis using tf by (simp add: table_layout_def table_file_def)
qed


section \<open>Searching the parts\<close>

lemma find_pos: "find P xs = map_option ((!) xs) (pos_find P xs)"
  by (induction xs) (auto simp: option.map_comp o_def)

lemma find_skip: "\<forall>x \<in> set xs. \<not> P x \<Longrightarrow> find P (xs @ ys) = find P ys"
  by (induction xs) auto

lemma find_append_Some: "find P xs = Some x \<Longrightarrow> find P (xs @ ys) = Some x"
  by (induction xs) (auto split: if_splits)

text \<open>
  The first entry not before a key is in the first part whose index key is not before it, or the key is
  between the last entry of this part and its index key.
\<close>

lemma find_in_parts:
  assumes inp: "block_input (cmp (opt_cmp opt)) K es" "table_entries ps = es" "\<forall>p \<in> set ps. part_bounded opt p"
    "\<forall>p \<in> set ps. part_entries p \<noteq> []" "\<forall>p \<in> set ps. fst (part_index p) \<in> K" "k \<in> K"
  defines "lt \<equiv> cmp_lt (cmp (opt_cmp opt))"
  shows "(case pos_find (\<lambda>p. \<not> lt (fst (part_index p)) k) ps of
      None \<Rightarrow> None | Some i \<Rightarrow> find (\<lambda>(k', v). \<not> lt k' k) (part_entries (ps ! i))) = find (\<lambda>(k', v). \<not> lt k' k) es \<or>
    (case pos_find (\<lambda>p. \<not> lt (fst (part_index p)) k) ps of
      None \<Rightarrow> None | Some i \<Rightarrow> find (\<lambda>(k', v). \<not> lt k' k) (part_entries (ps ! i))) = None \<and>
    (\<exists>a b s. a \<in> fst ` set es \<and> lt a k \<and> find_shortest_sep (opt_cmp opt) a b = Some s \<and> \<not> lt s k)"
proof -
  have ord: "cmp_order (cmp (opt_cmp opt)) K" using inp(1) by (simp add: block_input_def)
  have mem: "(k', v) \<in> set es" if "p \<in> set ps" "(k', v) \<in> set (part_entries p)" for p k' v
    using that inp(2) by (auto simp: table_entries_def)
  have below: "lt k' k" if p: "p \<in> set ps" "lt (fst (part_index p)) k" "(k', v) \<in> set (part_entries p)" for p k' v
  proof -
    have "k' \<in> K" using inp(1) mem [OF p(1,3)] by (auto simp: block_input_def)
    moreover have "cmp_le (cmp (opt_cmp opt)) k' (fst (part_index p))" using inp(3) p(1,3) by (auto simp: part_bounded_def)
    ultimately show ?thesis using cmp_order.le_lt_trans [OF ord, of k' "fst (part_index p)" k] inp(5,6) p(1,2) by (simp add: lt_def)
  qed
  show ?thesis
  proof (cases "pos_find (\<lambda>p. \<not> lt (fst (part_index p)) k) ps")
    case None
    then have "\<forall>x \<in> set es. \<not> (\<lambda>(k', v). \<not> lt k' k) x"
      using below inp(2) by (auto simp: pos_find_None table_entries_def)
    then have "find (\<lambda>(k', v). \<not> lt k' k) es = None" by (auto simp: find_None_iff)
    with None show ?thesis by simp
  next
    case (Some i)
    note i = pos_find_Some [OF Some]
    let ?p = "ps ! i"
    have p: "?p \<in> set ps" using i(1) by simp
    have "lt (fst (part_index q)) k" "q \<in> set ps" if q: "q \<in> set (take i ps)" for q
      using q i(3) by (auto simp: in_set_conv_nth in_set_takeD)
    then have "lt (fst x) k" if "q \<in> set (take i ps)" "x \<in> set (part_entries q)" for q x
      using that below [of q "fst x" "snd x"] by simp
    then have "\<forall>x \<in> set (table_entries (take i ps)). \<not> (\<lambda>(k', v). \<not> lt k' k) x"
      by (simp add: table_entries_def case_prod_beta)
    note skip = find_skip [OF this, of "part_entries ?p @ table_entries (drop (Suc i) ps)"]
    have "ps = take i ps @ ?p # drop (Suc i) ps" by (rule id_take_nth_drop [OF i(1)])
    then have "es = table_entries (take i ps) @ part_entries ?p @ table_entries (drop (Suc i) ps)"
      using inp(2) by (metis (no_types, lifting) table_entries_def concat.simps(2) concat_append list.simps(9) map_append)
    with skip have f: "find (\<lambda>(k', v). \<not> lt k' k) es = find (\<lambda>(k', v). \<not> lt k' k) (part_entries ?p @ table_entries (drop (Suc i) ps))"
      by simp
    show ?thesis
    proof (cases "find (\<lambda>(k', v). \<not> lt k' k) (part_entries ?p)")
      case None
      have l: "last (part_entries ?p) \<in> set (part_entries ?p)" using inp(4) p by simp
      then have "lt (fst (last (part_entries ?p))) k" using None by (simp add: find_None_iff case_prod_beta) (metis prod.collapse)
      moreover have "fst (last (part_entries ?p)) \<in> fst ` set es" using l mem [OF p] by (metis image_eqI prod.collapse)
      moreover obtain b where "find_shortest_sep (opt_cmp opt) (fst (last (part_entries ?p))) b = Some (fst (part_index ?p))"
        using inp(3) p by (auto simp: part_bounded_def)
      ultimately show ?thesis using Some None i(2) by auto
    next
      case (Some e)
      then have "find (\<lambda>(k', v). \<not> lt k' k) es = Some e" unfolding f by (rule find_append_Some)
      with Some \<open>pos_find _ ps = Some i\<close> show ?thesis by simp
    qed
  qed
qed


section \<open>Properties\<close>

text \<open>Options, keys and entries a table can be built from.\<close>

definition table_input :: "int_codec \<Rightarrow> options \<Rightarrow> bytes set \<Rightarrow> (bytes \<times> bytes) list \<Rightarrow> bool" where
  "table_input ie opt K es \<longleftrightarrow> integer_encoding ie \<and> 0 < block_restart_interval opt \<and> 8 \<le> options.block_size opt \<and>
     compressor_ok opt \<and> table_keys (opt_cmp opt) (fst ` set es) K \<and> block_input (cmp (opt_cmp opt)) K es \<and>
     length (filter_key opt) < 2 ^ 64 \<and> cmp_order (cmp (opt_cmp opt)) {filter_key opt}"

lemma table_builder_new_rep:
  assumes "cmp_order (cmp (opt_cmp opt)) K" "cont w = []"
  shows "tb_rep ie crc K opt cont (table_builder_new_raw opt w) [] []"
  using assms holds_new [of ie opt] by (simp add: tb_rep_def table_builder_new_raw_def filter_block_builder_new_def block_input_def)

lemma write_table_file:
  assumes inp: "table_input ie opt K es" and sink: "byte_sink wr contents" "contents w0 = []" "\<forall>w. contents (fst (flush w)) = contents w"
    and run: "write_table ie crc wr flush (table_builder_new_raw opt w0) es = Some (w, Inr n)" and n: "n < 2 ^ 32"
  shows "\<exists>ps ih ixs irs. table_file ie crc K opt (contents w) ps ih ixs irs \<and> table_entries ps = es \<and> n = length (contents w)"
proof -
  have i: "integer_encoding ie" "0 < block_restart_interval opt" "8 \<le> options.block_size opt" "table_keys (opt_cmp opt) (fst ` set es) K"
      "block_input (cmp (opt_cmp opt)) K es" "length (filter_key opt) < 2 ^ 64" "cmp_order (cmp (opt_cmp opt)) {filter_key opt}"
    using inp by (simp_all add: table_input_def)
  let ?tb = "table_builder_new_raw opt w0"
  obtain tb r where 1: "tb_add_all ie crc wr ?tb es = Some (tb, r)" using run by (auto simp: write_table_def bind_eq_Some_conv)
  have "r = Inr ()" using run 1 by (cases r) (simp_all add: write_table_def)
  then have r: "tb_add_all ie crc wr ?tb es = Some (tb, Inr ())" "tb_finish ie crc wr flush tb = Some (w, Inr n)"
    using run 1 by (simp_all add: write_table_def)
  have ord: "cmp_order (cmp (opt_cmp opt)) K" using i(4) by (simp add: table_keys_def)
  have e: "table_entries [] @ [] @ es = es" by (simp add: table_entries_def)
  obtain ps cur where rep: "tb_rep ie crc K opt contents tb ps cur" "table_entries ps @ cur = es"
    using byte_sink.tb_add_all_rep [OF sink(1) i(1-4) table_builder_new_rep [where cont = contents, OF ord sink(2)], of es crc tb, unfolded e, OF i(5) subset_refl r(1)]
    by blast
  have "block_input (cmp (opt_cmp opt)) K cur" using i(5) rep(2) by (auto simp: block_input_def sorted_wrt_append)
  moreover have "fst ` set cur \<subseteq> fst ` set es" using rep(2) by auto
  ultimately show ?thesis
    using byte_sink.tb_finish_rep [OF sink(1) i(1,2,4) rep(1) _ _ i(6,7) _ r(2) n] sink(3) unfolding rep(2) by blast
qed

text \<open>The opened table and its iterator.\<close>

lemma table_read_back:
  assumes inp: "table_input ie opt K es" and f: "random_file f content" "length content < 2 ^ 32"
    and tf: "table_file ie crc K opt content ps ih ixs irs" and es: "table_entries ps = es"
  shows "\<exists>t cache' it. table_new_raw ie crc opt cache f (length content) = Some (Inr t, cache') \<and> table_iter_new ie t = Some it \<and>
    ti_inv ie (read_table_block ie crc opt f) K opt ixs irs ps it \<and> ti_pos ie ixs ps it = None \<and>
    bi_opt (ti_index_block it) = opt \<and> t_opt (ti_table it) = opt"
proof -
  have i: "integer_encoding ie" "compressor_ok opt" "length (filter_key opt) < 2 ^ 64" "cmp_order (cmp (opt_cmp opt)) {filter_key opt}"
      "block_input (cmp (opt_cmp opt)) K es"
    using inp by (simp_all add: table_input_def)
  obtain t cache' where t: "table_new_raw ie crc opt cache f (length content) = Some (Inr t, cache')"
      "block_holds ie K opt (t_indexblock t) ixs irs" "t_opt t = opt"
    using table_open [OF i(1) f i(2-4) tf] by blast
  obtain ix where "block_iter_new ie (t_indexblock t) = Some ix" "bi_inv ie ixs irs K ix" "bi_pos ie ixs ix = None" "bi_opt ix = opt"
    using t(2) by (auto simp: block_holds_def)
  moreover have "table_layout ie (read_table_block ie crc opt f) K opt ixs ps"
    using table_file_layout [OF i(1) f i(2) tf] i(5) es by simp
  ultimately show ?thesis using t(1,3) by (simp add: table_iter_new_def ti_inv_def ti_pos_def)
qed

text \<open>C5: A table file holds exactly the entries it was built from. When building a table from sorted entries
  succeeds, the size returned is the size of the file, the file can be opened, and its iterator yields
  the entries in order: the index, the metaindex and the footer lead to every data block, and every
  block passes its checksum and is decompressed to what the builder compressed.\<close>

theorem table_roundtrip:
  assumes "table_input ie opt K es" "byte_sink wr contents" "contents w0 = []" "\<forall>w. contents (fst (flush w)) = contents w"
    "write_table ie crc wr flush (table_builder_new_raw opt w0) es = Some (w, Inr n)" "n < 2 ^ 32" "random_file f (contents w)"
  shows "n = length (contents w) \<and> (\<exists>t cache' it. table_new_raw ie crc opt cache f n = Some (Inr t, cache') \<and>
    table_iter_new ie t = Some it \<and> collect (table_iter_ops ie (read_table_block ie crc opt f)) (length es + 1) it = Some es)"
proof -
  obtain ps ih ixs irs where tf: "table_file ie crc K opt (contents w) ps ih ixs irs" "table_entries ps = es" "n = length (contents w)"
    using write_table_file [OF assms(1-6)] by blast
  have small: "length (contents w) < 2 ^ 32" using assms(6) tf(3) by simp
  obtain t cache' it where t: "table_new_raw ie crc opt cache f n = Some (Inr t, cache')" "table_iter_new ie t = Some it"
      "ti_inv ie (read_table_block ie crc opt f) K opt ixs irs ps it" "ti_pos ie ixs ps it = None"
    using table_read_back [OF assms(1,7) small tf(1,2)] tf(3) by metis
  from ti.collect_all [OF t(3,4), of "length es + 1"] t(1,2) tf(2,3) show ?thesis by auto
qed

text \<open>An example: a table of two blocks.\<close>

definition example_opt :: options where
  "example_opt = (options_default wire_codec literal_snap)\<lparr>options.block_size := 8, opt_filter_policy := NoFilterPolicy\<rparr>"

lemma example_opt_sel:
  "opt_cmp example_opt = DefaultCmp" "options.block_size example_opt = 8" "block_restart_interval example_opt = 16"
  "opt_compressor example_opt = 0" "compressor_get (opt_compressor_list example_opt) 0 = Inr NoneCompressor"
  "opt_filter_policy example_opt = NoFilterPolicy"
  by (simp_all add: example_opt_def options_default_def compressor_list_default_def NoneCompressor_ID_def SnappyCompressor_ID_def)

lemma wire_small: "n < 128 \<Longrightarrow> encode_var wire_codec n = [of_nat n]"
  by (simp add: wire_codec_def leb128.simps)

lemma wire_handle_small:
  assumes "a < 128" "b < 128"
  shows "handle_bytes wire_codec \<lparr>bh_offset = a, bh_size = b\<rparr> = Some [of_nat a, of_nat b]"
proof -
  let ?h = "\<lparr>bh_offset = a, bh_size = b\<rparr>"
  have e: "enc_handle wire_codec ?h = [of_nat a, of_nat b]" using assms by (simp add: enc_handle_def wire_small)
  have "handle_ok ?h" using assms by (simp add: handle_ok_def)
  from wire.bh_encode_to_eq [OF this, of 0 "[]" 16] show ?thesis by (simp add: handle_bytes_def e slice_range_def)
qed

lemma wire_footer:
  assumes "handle_ok mh" "handle_ok ih"
  shows "footer_encode wire_codec (footer_new mh ih) (replicate FULL_FOOTER_LENGTH 0) = Some (enc_footer wire_codec (footer_new mh ih))"
    "length (enc_footer wire_codec (footer_new mh ih)) = 48"
  using wire.footer_encode_eq [of "footer_new mh ih"] assms by (simp_all add: footer_new_def)

lemma start_first_block: "off < 2048 \<Longrightarrow> fb_filter_offsets b = [] \<Longrightarrow> start_block b off = Some b"
  by (simp add: start_block_def get_filter_index_def FILTER_BASE_LOG2_def start_block_loop.simps)

lemma example_keys:
  "find_shortest_sep DefaultCmp [1] [2] = Some [1, 0]" "find_shortest_sep DefaultCmp [2] [3] = Some [2, 0]"
  "find_short_succ DefaultCmp [1] = Some [2]" "find_short_succ DefaultCmp [2] = Some [3]"
  by code_simp+

lemma example_written:
  "\<exists>w. write_table wire_codec crc vec_write (\<lambda>w. (w, Inr ())) (table_builder_new_raw example_opt []) [([1], [7]), ([2], [8])] =
     Some (w, Inr 151)"
  by (simp add: write_table_def tb_add_def table_builder_new_raw_def block_builder_new_def bb_size_estimate_def example_opt_sel bb_add_def
      usub_def slice_from_def resize_def wire_small add_key_def filter_block_builder_new_def write_data_block_def example_keys write_block_def
      NoneCompressor_def vec_write_def TABLE_BLOCK_COMPRESS_LEN_def TABLE_BLOCK_CKSUM_LEN_def bh_new_def bb_finish_def wire_handle_small
      wire.codec_laws start_first_block tb_finish_def bb_entries_def write_filter_block_def fb_finish_def generate_filter_def
      NoFilterPolicy_def wire_footer handle_ok_def filter_name_def)

lemma example_input: "table_input wire_codec example_opt {[1], [2], [1, 0], [2, 0]} [([1], [7]), ([2], [8])]"
proof -
  have sub: "cmp_order (cmp DefaultCmp) B" for B
    using default_cmp.cmp_order_axioms unfolding cmp_order_def by blast
  have "table_keys DefaultCmp {[1], [2]} {[1], [2], [1, 0], [2, 0]}"
    using sub example_keys by (auto simp: table_keys_def cmp_lt_def cmp_le_def)
  moreover have "block_input (cmp DefaultCmp) {[1], [2], [1, 0], [2, 0]} [([1], [7]), ([2], [8])]"
    using sub by (simp add: block_input_def cmp_lt_def)
  moreover have "compressor_ok example_opt" "length (filter_key example_opt) < 2 ^ 64"
    by (simp_all add: compressor_ok_def example_opt_sel none_compressor.lossless_axioms filter_key_def NoFilterPolicy_def)
  ultimately show ?thesis
    using wire.integer_encoding_axioms sub by (simp add: table_input_def example_opt_sel)
qed

theorem table_roundtrip_witness:
  "\<exists>w cache t c it. cache_new 2 = Some cache \<and>
    write_table wire_codec (\<lambda>_. 0) vec_write (\<lambda>w. (w, Inr ())) (table_builder_new_raw example_opt []) [([1], [7]), ([2], [8])] = Some (w, Inr 151) \<and>
    table_new_raw wire_codec (\<lambda>_. 0) example_opt cache (buffer_read_at w) 151 = Some (Inr t, c) \<and> table_iter_new wire_codec t = Some it \<and>
    collect (table_iter_ops wire_codec (read_table_block wire_codec (\<lambda>_. 0) example_opt (buffer_read_at w))) 3 it =
      Some [([1], [7]), ([2], [8])]"
proof -
  let ?es = "[([1], [7]), ([2], [8])]"
  obtain w where w: "write_table wire_codec (\<lambda>_. 0) vec_write (\<lambda>w. (w, Inr ())) (table_builder_new_raw example_opt []) ?es = Some (w, Inr 151)"
    using example_written by blast
  obtain cache :: block_cache where cache: "cache_new 2 = Some cache" using cache_new_rep [of 2] by auto
  have "collect ops (length ?es + 1) it = collect ops 3 it" for ops :: "table_iter iter_ops" and it by (simp add: eval_nat_numeral del: collect.simps)
  with table_roundtrip [OF example_input vec.byte_sink_axioms _ _ w, of "buffer_read_at w" cache] buffer_random.random_file_axioms w cache
  show ?thesis by auto
qed



end
