(* ===== verification/Merging_Iter.thy ===== *)
theory Merging_Iter
  imports Skip_Map_Iter "HOL-Library.Multiset"
begin

text \<open>
  The iterator that merges several iterators (\<open>src/src/merging_iter.rs\<close>). The boxed iterators it holds
  are states of one type with their operations as a parameter. The main result: iterating forward
  from the start yields all entries of all iterators, in order.
\<close>

datatype direction = Forward | Reverse

datatype sl = Smallest | Largest

record 's merging_iter =
  mi_iters :: "'s list"
  mi_current :: "nat option"
  mi_direction :: direction
  mi_cmp :: comparator

definition merging_iter_new :: "comparator \<Rightarrow> 's list \<Rightarrow> 's merging_iter" where
  "merging_iter_new c iters = \<lparr>mi_iters = iters, mi_current = None, mi_direction = Forward, mi_cmp = c\<rparr>"

text \<open>\<open>find\<close>: the loop over the iterators from the second one on.\<close>

function find_loop :: "'s iter_ops \<Rightarrow> comparator \<Rightarrow> ordering \<Rightarrow> 's list \<Rightarrow> nat \<Rightarrow> nat \<Rightarrow> nat run" where
  "find_loop ops c ord iters i next_ix =
     (if i < length iters
      then do { cur \<leftarrow> it_current ops (iters ! i);
                next_ix' \<leftarrow> (case cur of
                    None \<Rightarrow> Some next_ix
                  | Some (current, _) \<Rightarrow>
                      do { s \<leftarrow> index iters next_ix;
                           sm \<leftarrow> it_current ops s;
                           case sm of
                             None \<Rightarrow> Some i
                           | Some (smallest, _) \<Rightarrow> do { r \<leftarrow> cmp c current smallest; Some (if r = ord then i else next_ix) } });
                find_loop ops c ord iters (i + 1) next_ix' }
      else Some next_ix)"
  by pat_completeness auto
termination
  by (relation "measure (\<lambda>(ops, c, ord, iters, i, next_ix). length iters - i)") auto

declare find_loop.simps [simp del]

definition mi_find :: "'s iter_ops \<Rightarrow> sl \<Rightarrow> 's merging_iter \<Rightarrow> 's merging_iter run" where
  "mi_find ops d m =
     (if mi_iters m = [] then Some m
      else do { ix \<leftarrow> find_loop ops (mi_cmp m) (if d = Smallest then Less else Greater) (mi_iters m) 1 0;
                Some (m\<lparr>mi_current := Some ix\<rparr>) })"

definition find_smallest :: "'s iter_ops \<Rightarrow> 's merging_iter \<Rightarrow> 's merging_iter run" where
  "find_smallest ops m = mi_find ops Smallest m"

definition find_largest :: "'s iter_ops \<Rightarrow> 's merging_iter \<Rightarrow> 's merging_iter run" where
  "find_largest ops m = mi_find ops Largest m"

text \<open>The loops that treat every iterator alike.\<close>

fun each_iter :: "('s \<Rightarrow> 's run) \<Rightarrow> 's list \<Rightarrow> 's list run" where
  "each_iter f [] = Some []"
| "each_iter f (s # ss) = do { s \<leftarrow> f s; ss \<leftarrow> each_iter f ss; Some (s # ss) }"

definition init_iter :: "'s iter_ops \<Rightarrow> 's \<Rightarrow> 's run" where
  "init_iter ops s =
     do { s \<leftarrow> it_reset ops s;
          (_, s) \<leftarrow> it_advance ops s;
          if \<not> it_valid ops s then it_reset ops s else Some s }"

definition mi_init :: "'s iter_ops \<Rightarrow> 's merging_iter \<Rightarrow> 's merging_iter run" where
  "mi_init ops m = do { iters \<leftarrow> each_iter (init_iter ops) (mi_iters m); find_smallest ops (m\<lparr>mi_iters := iters\<rparr>) }"

definition mi_valid :: "'s iter_ops \<Rightarrow> 's merging_iter \<Rightarrow> bool" where
  "mi_valid ops m = (case mi_current m of None \<Rightarrow> False | Some ix \<Rightarrow> ix < length (mi_iters m) \<and> it_valid ops (mi_iters m ! ix))"

definition mi_current_entry :: "'s iter_ops \<Rightarrow> 's merging_iter \<Rightarrow> (bytes \<times> bytes) option run" where
  "mi_current_entry ops m =
     (case mi_current m of None \<Rightarrow> Some None | Some ix \<Rightarrow> do { s \<leftarrow> index (mi_iters m) ix; it_current ops s })"

text \<open>The loops of \<open>update_direction\<close>, which leave out the current iterator.\<close>

definition turn_forward :: "'s iter_ops \<Rightarrow> comparator \<Rightarrow> bytes \<Rightarrow> 's \<Rightarrow> 's run" where
  "turn_forward ops c key s =
     do { s \<leftarrow> it_seek ops key s;
          cur \<leftarrow> it_current ops s;
          case cur of
            None \<Rightarrow> Some s
          | Some (k, _) \<Rightarrow>
              do { r \<leftarrow> cmp c k key;
                   if r = Equal then do { (_, s) \<leftarrow> it_advance ops s; Some s } else Some s } }"

partial_function (option) advance_to_end :: "'s iter_ops \<Rightarrow> 's \<Rightarrow> 's option" where
  "advance_to_end ops s = it_advance ops s \<bind> (\<lambda>(moved, s). if moved then advance_to_end ops s else Some s)"

definition turn_reverse :: "'s iter_ops \<Rightarrow> bytes \<Rightarrow> 's \<Rightarrow> 's run" where
  "turn_reverse ops key s =
     do { s \<leftarrow> it_seek ops key s;
          if it_valid ops s then do { (_, s) \<leftarrow> it_prev ops s; Some s } else advance_to_end ops s }"

fun each_other :: "('s \<Rightarrow> 's run) \<Rightarrow> nat \<Rightarrow> nat \<Rightarrow> 's list \<Rightarrow> 's list run" where
  "each_other f current i [] = Some []"
| "each_other f current i (s # ss) =
     do { s \<leftarrow> (if i \<noteq> current then f s else Some s); ss \<leftarrow> each_other f current (i + 1) ss; Some (s # ss) }"

definition update_direction :: "'s iter_ops \<Rightarrow> direction \<Rightarrow> 's merging_iter \<Rightarrow> 's merging_iter run" where
  "update_direction ops d m =
     (if mi_direction m = d then Some m
      else do { cur \<leftarrow> mi_current_entry ops m;
                case (cur, mi_current m) of
                  (Some (key, _), Some current) \<Rightarrow>
                    do { iters \<leftarrow> each_other (case d of Forward \<Rightarrow> turn_forward ops (mi_cmp m) key | Reverse \<Rightarrow> turn_reverse ops key)
                           current 0 (mi_iters m);
                         Some (m\<lparr>mi_direction := d, mi_iters := iters\<rparr>) }
                | _ \<Rightarrow> Some m })"

definition mi_advance :: "'s iter_ops \<Rightarrow> 's merging_iter \<Rightarrow> (bool \<times> 's merging_iter) run" where
  "mi_advance ops m =
     do { m \<leftarrow> (case mi_current m of
              Some current \<Rightarrow>
                do { m \<leftarrow> update_direction ops Forward m;
                     s \<leftarrow> index (mi_iters m) current;
                     (moved, s) \<leftarrow> it_advance ops s;
                     s \<leftarrow> (if \<not> moved then it_reset ops s else Some s);
                     find_smallest ops (m\<lparr>mi_iters := (mi_iters m)[current := s]\<rparr>) }
            | None \<Rightarrow> mi_init ops m);
          Some (mi_valid ops m, m) }"

definition mi_seek :: "'s iter_ops \<Rightarrow> bytes \<Rightarrow> 's merging_iter \<Rightarrow> 's merging_iter run" where
  "mi_seek ops key m = do { iters \<leftarrow> each_iter (it_seek ops key) (mi_iters m); find_smallest ops (m\<lparr>mi_iters := iters\<rparr>) }"

definition mi_reset :: "'s iter_ops \<Rightarrow> 's merging_iter \<Rightarrow> 's merging_iter run" where
  "mi_reset ops m = do { iters \<leftarrow> each_iter (it_reset ops) (mi_iters m); Some (m\<lparr>mi_iters := iters, mi_current := None\<rparr>) }"

definition mi_prev :: "'s iter_ops \<Rightarrow> 's merging_iter \<Rightarrow> (bool \<times> 's merging_iter) run" where
  "mi_prev ops m =
     (case mi_current m of
        None \<Rightarrow> Some (False, m)
      | Some current \<Rightarrow>
          do { s \<leftarrow> index (mi_iters m) current;
               if it_valid ops s
               then do { m \<leftarrow> update_direction ops Reverse m;
                         s \<leftarrow> index (mi_iters m) current;
                         (_, s) \<leftarrow> it_prev ops s;
                         m \<leftarrow> find_largest ops (m\<lparr>mi_iters := (mi_iters m)[current := s]\<rparr>);
                         Some (mi_valid ops m, m) }
               else Some (False, m) })"

definition merging_iter_ops :: "'s iter_ops \<Rightarrow> 's merging_iter iter_ops" where
  "merging_iter_ops ops =
     \<lparr>it_advance = mi_advance ops, it_current = mi_current_entry ops, it_seek = mi_seek ops, it_reset = mi_reset ops,
      it_valid = mi_valid ops, it_prev = mi_prev ops\<rparr>"


section \<open>Boxed iterators\<close>

text \<open>Two implementations of the trait behind \<open>Box<dyn LdbIterator>\<close>.\<close>

definition dyn_ops :: "'a iter_ops \<Rightarrow> 'b iter_ops \<Rightarrow> ('a + 'b) iter_ops" where
  "dyn_ops f g =
     \<lparr>it_advance = case_sum (\<lambda>s. map_option (map_prod id Inl) (it_advance f s)) (\<lambda>s. map_option (map_prod id Inr) (it_advance g s)),
      it_current = case_sum (it_current f) (it_current g),
      it_seek = (\<lambda>k. case_sum (\<lambda>s. map_option Inl (it_seek f k s)) (\<lambda>s. map_option Inr (it_seek g k s))),
      it_reset = case_sum (\<lambda>s. map_option Inl (it_reset f s)) (\<lambda>s. map_option Inr (it_reset g s)),
      it_valid = case_sum (it_valid f) (it_valid g),
      it_prev = case_sum (\<lambda>s. map_option (map_prod id Inl) (it_prev f s)) (\<lambda>s. map_option (map_prod id Inr) (it_prev g s))\<rparr>"

lemma dyn_forward:
  assumes "ldb_forward f inv1 es1 pos1" "ldb_forward g inv2 es2 pos2"
  shows "ldb_forward (dyn_ops f g) (case_sum inv1 inv2) (case_sum es1 es2) (case_sum pos1 pos2)"
proof
  fix s :: "'a + 'b" and i
  assume inv: "case_sum inv1 inv2 s"
  note l = ldb_forward.pos_bound [OF assms(1)] ldb_forward.valid_pos [OF assms(1)] ldb_forward.current_pos [OF assms(1)]
    ldb_forward.pos_bound [OF assms(2)] ldb_forward.valid_pos [OF assms(2)] ldb_forward.current_pos [OF assms(2)]
  show "case_sum pos1 pos2 s = Some i \<Longrightarrow> i < length (case_sum es1 es2 s)"
    "it_valid (dyn_ops f g) s \<longleftrightarrow> case_sum pos1 pos2 s \<noteq> None"
    "it_current (dyn_ops f g) s = Some (map_option ((!) (case_sum es1 es2 s)) (case_sum pos1 pos2 s))"
    using inv l by (cases s; simp add: dyn_ops_def)+
  show "\<exists>s'. it_advance (dyn_ops f g) s = Some (case_sum pos1 pos2 s' \<noteq> None, s') \<and> case_sum inv1 inv2 s' \<and>
      case_sum es1 es2 s' = case_sum es1 es2 s \<and> case_sum pos1 pos2 s' = pos_advance (length (case_sum es1 es2 s)) (case_sum pos1 pos2 s)"
  proof (cases s)
    case (Inl a)
    with ldb_forward.advance_pos [OF assms(1), of a] inv obtain s' where
      "it_advance f a = Some (pos1 s' \<noteq> None, s')" "inv1 s'" "es1 s' = es1 a" "pos1 s' = pos_advance (length (es1 a)) (pos1 a)" by auto
    then show ?thesis using Inl by (intro exI [of _ "Inl s'"]) (simp add: dyn_ops_def)
  next
    case (Inr b)
    with ldb_forward.advance_pos [OF assms(2), of b] inv obtain s' where
      "it_advance g b = Some (pos2 s' \<noteq> None, s')" "inv2 s'" "es2 s' = es2 b" "pos2 s' = pos_advance (length (es2 b)) (pos2 b)" by auto
    then show ?thesis using Inr by (intro exI [of _ "Inr s'"]) (simp add: dyn_ops_def)
  qed
  show "\<exists>s'. it_reset (dyn_ops f g) s = Some s' \<and> case_sum inv1 inv2 s' \<and> case_sum es1 es2 s' = case_sum es1 es2 s \<and> case_sum pos1 pos2 s' = None"
  proof (cases s)
    case (Inl a)
    with ldb_forward.reset_pos [OF assms(1), of a] inv obtain s' where
      "it_reset f a = Some s'" "inv1 s'" "es1 s' = es1 a" "pos1 s' = None" by auto
    then show ?thesis using Inl by (intro exI [of _ "Inl s'"]) (simp add: dyn_ops_def)
  next
    case (Inr b)
    with ldb_forward.reset_pos [OF assms(2), of b] inv obtain s' where
      "it_reset g b = Some s'" "inv2 s'" "es2 s' = es2 b" "pos2 s' = None" by auto
    then show ?thesis using Inr by (intro exI [of _ "Inr s'"]) (simp add: dyn_ops_def)
  qed
qed


section \<open>Forward iteration\<close>

text \<open>An iterator that is at the first of the given entries and yields them one after the other.\<close>

fun yields :: "'s iter_ops \<Rightarrow> 's \<Rightarrow> (bytes \<times> bytes) list \<Rightarrow> bool" where
  "yields ops s [] \<longleftrightarrow> \<not> it_valid ops s"
| "yields ops s (x # xs) \<longleftrightarrow> it_valid ops s \<and> it_current ops s = Some (Some x) \<and>
     (\<exists>s'. it_advance ops s = Some (xs \<noteq> [], s') \<and> yields ops s' xs)"

text \<open>\<open>find_smallest\<close>: among the iterators before an index, the chosen one has an entry if any has, and no smaller one.\<close>

definition best :: "(bytes \<Rightarrow> bytes \<Rightarrow> ordering run) \<Rightarrow> (bytes \<times> bytes) list list \<Rightarrow> nat \<Rightarrow> nat \<Rightarrow> bool" where
  "best cm rems i m \<longleftrightarrow> m < length rems \<and>
     (\<forall>j < i. rems ! j \<noteq> [] \<longrightarrow> rems ! m \<noteq> [] \<and> cmp_le cm (fst (hd (rems ! m))) (fst (hd (rems ! j))))"

definition keys_in :: "bytes set \<Rightarrow> (bytes \<times> bytes) list list \<Rightarrow> bool" where
  "keys_in K rems \<longleftrightarrow> (\<forall>xs \<in> set rems. fst ` set xs \<subseteq> K)"

lemma keys_in_hd: "keys_in K rems \<Longrightarrow> j < length rems \<Longrightarrow> rems ! j \<noteq> [] \<Longrightarrow> fst (hd (rems ! j)) \<in> K"
  by (force simp: keys_in_def dest: hd_in_set nth_mem)

definition sorted_by :: "comparator \<Rightarrow> (bytes \<times> bytes) list \<Rightarrow> bool" where
  "sorted_by c xs \<longleftrightarrow> sorted_wrt (\<lambda>x y. cmp_lt (cmp c) (fst x) (fst y)) xs"

lemma best_least:
  assumes ord: "cmp_order (cmp c) K" and K: "keys_in K rems" "\<forall>xs \<in> set rems. sorted_by c xs"
    and b: "best (cmp c) rems (length rems) ix" "rems ! ix = x # xs" and y: "y \<in> set (concat rems)"
  shows "cmp_le (cmp c) (fst x) (fst y)"
proof -
  obtain j where j: "j < length rems" "y \<in> set (rems ! j)" using y by (auto simp: in_set_conv_nth [of _ rems])
  then obtain z zs where z: "rems ! j = z # zs" by (cases "rems ! j") auto
  have "cmp_le (cmp c) (fst x) (fst z)" using b j(1) z by (auto simp: best_def)
  moreover have "y = z \<or> cmp_lt (cmp c) (fst z) (fst y)" using K(2) j z by (force simp: sorted_by_def dest: nth_mem)
  moreover have "fst x \<in> K" "fst z \<in> K" "fst y \<in> K"
    using K(1) b j z y by (force simp: keys_in_def best_def dest: nth_mem)+
  ultimately show ?thesis using cmp_order.le_trans [OF ord] cmp_order.lt_imp_le [OF ord] by blast
qed

lemma mset_concat_tail: "ix < length rems \<Longrightarrow> rems ! ix = x # xs \<Longrightarrow> mset (concat rems) = add_mset x (mset (concat (rems[ix := xs])))"
  by (subst id_take_nth_drop [of ix rems]) (simp_all add: upd_conv_take_nth_drop)

context ldb_forward
begin

text \<open>What an iterator has yet to yield.\<close>

definition rem :: "'s \<Rightarrow> (bytes \<times> bytes) list \<Rightarrow> bool" where
  "rem s xs \<longleftrightarrow> inv s \<and> xs = (case pos s of None \<Rightarrow> [] | Some i \<Rightarrow> drop i (entries s))"

lemma rem_facts:
  assumes "rem s xs"
  shows "it_current ops s = Some (case xs of [] \<Rightarrow> None | x # _ \<Rightarrow> Some x)" "it_valid ops s \<longleftrightarrow> xs \<noteq> []" "inv s"
proof -
  have s: "inv s" "xs = (case pos s of None \<Rightarrow> [] | Some i \<Rightarrow> drop i (entries s))" using assms by (simp_all add: rem_def)
  have "xs = (case pos s of None \<Rightarrow> [] | Some i \<Rightarrow> entries s ! i # drop (Suc i) (entries s))"
    using s pos_bound [OF s(1)] by (auto simp: Cons_nth_drop_Suc split: option.splits)
  then show "it_current ops s = Some (case xs of [] \<Rightarrow> None | x # _ \<Rightarrow> Some x)" "it_valid ops s \<longleftrightarrow> xs \<noteq> []"
    using current_pos [OF s(1)] valid_pos [OF s(1)] by (auto split: option.splits)
qed (use assms in \<open>simp add: rem_def\<close>)

lemma rem_advance:
  assumes "rem s (x # xs)"
  shows "\<exists>s'. it_advance ops s = Some (xs \<noteq> [], s') \<and> rem s' xs"
proof -
  obtain i where i: "inv s" "pos s = Some i" "x # xs = drop i (entries s)" using assms by (auto simp: rem_def split: option.splits)
  obtain s' where s': "it_advance ops s = Some (pos s' \<noteq> None, s')" "inv s'" "entries s' = entries s"
      "pos s' = (if i + 1 < length (entries s) then Some (i + 1) else None)"
    using advance_pos [OF i(1)] i(2) by auto
  have "xs = drop (Suc i) (entries s)" using i(3) by (metis drop_Suc list.sel(3) tl_drop)
  then show ?thesis using s' by (auto simp: rem_def)
qed

lemma rem_reset: "inv s \<Longrightarrow> \<exists>s'. it_reset ops s = Some s' \<and> rem s' [] \<and> entries s' = entries s"
  using reset_pos [of s] by (auto simp: rem_def)

lemma rem_init:
  assumes "inv s"
  shows "\<exists>s'. init_iter ops s = Some s' \<and> rem s' (entries s)"
proof -
  obtain s1 where s1: "it_reset ops s = Some s1" "inv s1" "entries s1 = entries s" "pos s1 = None"
    using reset_pos [OF assms] by blast
  obtain s2 where s2: "it_advance ops s1 = Some (pos s2 \<noteq> None, s2)" "inv s2" "entries s2 = entries s1"
      "pos s2 = pos_advance (length (entries s1)) (pos s1)"
    using advance_pos [OF s1(2)] by blast
  then have r: "rem s2 (entries s)" using s1 by (auto simp: rem_def)
  show ?thesis
  proof (cases "entries s = []")
    case True
    then have "\<not> it_valid ops s2" using rem_facts(2) [OF r] by simp
    then show ?thesis using s1(1) s2(1) rem_reset [OF s2(2)] True by (auto simp: init_iter_def)
  qed (use s1(1) s2(1) r rem_facts(2) [OF r] in \<open>auto simp: init_iter_def\<close>)
qed

lemma each_iter_init:
  assumes "\<forall>s \<in> set ss. inv s"
  shows "\<exists>ss'. each_iter (init_iter ops) ss = Some ss' \<and> list_all2 rem ss' (map entries ss)"
  using assms
proof (induction ss)
  case (Cons s ss)
  then show ?case using rem_init [of s] by fastforce
qed simp

lemma each_iter_reset:
  assumes "\<forall>s \<in> set ss. inv s"
  shows "\<exists>ss'. each_iter (it_reset ops) ss = Some ss' \<and> (\<forall>s \<in> set ss'. inv s) \<and> map entries ss' = map entries ss"
  using assms
proof (induction ss)
  case (Cons s ss)
  then show ?case using reset_pos [of s] by fastforce
qed simp

lemma find_loop_ok:
  assumes ord: "cmp_order (cmp c) K" and ss: "list_all2 rem ss rems" and K: "keys_in K rems"
    and b: "best (cmp c) rems i nx" "i \<le> length ss"
  shows "\<exists>m. find_loop ops c Less ss i nx = Some m \<and> best (cmp c) rems (length ss) m"
  using b
proof (induction "length ss - i" arbitrary: i nx)
  case 0
  then show ?case by (subst find_loop.simps) auto
next
  case (Suc d)
  then have i: "i < length ss" "d = length ss - (i + 1)" by auto
  have len: "length rems = length ss" using ss by (simp add: list_all2_lengthD)
  have nx: "nx < length ss" using Suc.prems(1) len by (simp add: best_def)
  have cur: "it_current ops (ss ! j) = Some (case rems ! j of [] \<Rightarrow> None | x # _ \<Rightarrow> Some x)" if "j < length ss" for j
    using rem_facts(1) list_all2_nthD [OF ss that] by blast
  define nx' where "nx' = (if rems ! i \<noteq> [] \<and> (rems ! nx = [] \<or> cmp_lt (cmp c) (fst (hd (rems ! i))) (fst (hd (rems ! nx)))) then i else nx)"
  have b': "best (cmp c) rems (i + 1) nx'"
  proof -
    have le: "cmp_le (cmp c) (fst (hd (rems ! nx))) (fst (hd (rems ! j)))" "rems ! nx \<noteq> []" if "j < i" "rems ! j \<noteq> []" for j
      using Suc.prems(1) that by (auto simp: best_def)
    have in_K: "fst (hd (rems ! j)) \<in> K" if "j \<le> i" "rems ! j \<noteq> []" for j using keys_in_hd [OF K] that i(1) len by simp
    have nxK: "rems ! nx \<noteq> [] \<Longrightarrow> fst (hd (rems ! nx)) \<in> K" using keys_in_hd [OF K] nx len by simp
    show ?thesis
    proof (cases "rems ! i \<noteq> [] \<and> (rems ! nx = [] \<or> cmp_lt (cmp c) (fst (hd (rems ! i))) (fst (hd (rems ! nx))))")
      case True
      have "cmp_le (cmp c) (fst (hd (rems ! i))) (fst (hd (rems ! j)))" if j: "j < i" "rems ! j \<noteq> []" for j
      proof -
        have "cmp_le (cmp c) (fst (hd (rems ! i))) (fst (hd (rems ! nx)))"
          using True le(2) [OF j] cmp_order.lt_imp_le [OF ord] by blast
        then show ?thesis
          using cmp_order.le_trans [OF ord, of "fst (hd (rems ! i))" "fst (hd (rems ! nx))"] le [OF j] in_K [of j] in_K [of i] nxK True j by simp
      qed
      moreover have "cmp_le (cmp c) (fst (hd (rems ! i))) (fst (hd (rems ! i)))"
        using cmp_order.le_refl [OF ord] in_K [of i] True by simp
      ultimately show ?thesis using True i(1) len by (auto simp: best_def nx'_def less_Suc_eq)
    next
      case False
      then have "rems ! nx \<noteq> [] \<and> cmp_le (cmp c) (fst (hd (rems ! nx))) (fst (hd (rems ! i)))" if "rems ! i \<noteq> []"
        using that cmp_order.not_lt [OF ord, of "fst (hd (rems ! i))" "fst (hd (rems ! nx))"] in_K [of i] nxK by blast
      then show ?thesis using False nx len le by (auto simp: best_def nx'_def less_Suc_eq)
    qed
  qed
  have "find_loop ops c Less ss i nx = find_loop ops c Less ss (i + 1) nx'"
  proof (cases "rems ! i")
    case Nil
    then show ?thesis using i(1) cur by (subst find_loop.simps) (simp add: nx'_def)
  next
    case (Cons x xs)
    show ?thesis
    proof (cases "rems ! nx")
      case Nil
      then show ?thesis using Cons i(1) cur nx by (subst find_loop.simps) (cases x, simp add: nx'_def index_def)
    next
      case (Cons y ys)
      obtain r where r: "cmp c (fst x) (fst y) = Some r"
        using cmp_order.cmp_total [OF ord] keys_in_hd [OF K, of i] keys_in_hd [OF K, of nx] i(1) nx len Cons \<open>rems ! i = x # xs\<close> by fastforce
      then show ?thesis
        using Cons \<open>rems ! i = x # xs\<close> i(1) cur nx by (subst find_loop.simps) (cases x, cases y, simp add: nx'_def index_def cmp_lt_def)
    qed
  qed
  with Suc.hyps(1) [OF i(2) b'] i(1) show ?case by simp
qed

definition mi_rep :: "comparator \<Rightarrow> (bytes \<times> bytes) list list \<Rightarrow> 's merging_iter \<Rightarrow> bool" where
  "mi_rep c rems m \<longleftrightarrow> mi_direction m = Forward \<and> mi_cmp m = c \<and> list_all2 rem (mi_iters m) rems \<and>
     (if rems = [] then mi_current m = None else \<exists>ix. mi_current m = Some ix \<and> best (cmp c) rems (length rems) ix)"

lemma find_smallest_ok:
  assumes "cmp_order (cmp c) K" "list_all2 rem (mi_iters m) rems" "keys_in K rems" "mi_cmp m = c" "mi_direction m = Forward"
    "rems = [] \<longrightarrow> mi_current m = None"
  shows "\<exists>m'. find_smallest ops m = Some m' \<and> mi_rep c rems m'"
proof (cases "rems = []")
  case True
  then have "mi_iters m = []" using assms(2) by simp
  then show ?thesis using assms True by (simp add: find_smallest_def mi_find_def mi_rep_def)
next
  case False
  then have l: "mi_iters m \<noteq> []" "length rems = length (mi_iters m)" using assms(2) by (auto dest: list_all2_lengthD)
  have "best (cmp c) rems 1 0"
    using False keys_in_hd [OF assms(3), of 0] cmp_order.le_refl [OF assms(1)] by (simp add: best_def)
  from find_loop_ok [OF assms(1-3) this] l obtain ix where
    "find_loop ops c Less (mi_iters m) 1 0 = Some ix" "best (cmp c) rems (length rems) ix" by (auto simp: Suc_le_eq)
  then show ?thesis using l(1) assms(2,4,5) False by (simp add: find_smallest_def mi_find_def mi_rep_def)
qed

lemma yields_merge:
  assumes "cmp_order (cmp c) K" "keys_in K rems" "\<forall>xs \<in> set rems. sorted_by c xs" "mi_rep c rems m"
  shows "\<exists>ys. yields (merging_iter_ops ops) m ys \<and> mset ys = mset (concat rems) \<and>
    sorted_wrt (\<lambda>x y. cmp_le (cmp c) (fst x) (fst y)) ys"
  using assms(2-)
proof (induction "length (concat rems)" arbitrary: rems m)
  case 0
  then have "\<not> mi_valid ops m"
    using rem_facts(2) by (auto simp: mi_rep_def mi_valid_def best_def split: if_splits dest!: list_all2_nthD)
  with 0 show ?case by (intro exI [of _ "[]"]) (simp add: merging_iter_ops_def)
next
  case (Suc n)
  then have ne: "rems \<noteq> []" by auto
  then obtain ix where m: "mi_direction m = Forward" "mi_cmp m = c" "list_all2 rem (mi_iters m) rems" "mi_current m = Some ix"
      "best (cmp c) rems (length rems) ix"
    using Suc.prems(3) by (auto simp: mi_rep_def)
  have len: "length (mi_iters m) = length rems" using m(3) by (simp add: list_all2_lengthD)
  have ix: "ix < length rems" "ix < length (mi_iters m)" using m(5) len by (simp_all add: best_def)
  obtain j where "j < length rems" "rems ! j \<noteq> []" using Suc.hyps(2) by (metis concat_eq_Nil_conv in_set_conv_nth length_0_conv nat.distinct(1))
  then obtain x xs where x: "rems ! ix = x # xs" using m(5) by (cases "rems ! ix") (auto simp: best_def)
  have r: "rem (mi_iters m ! ix) (x # xs)" using list_all2_nthD [OF m(3) ix(2)] x by simp
  obtain s1 where s1: "it_advance ops (mi_iters m ! ix) = Some (xs \<noteq> [], s1)" "rem s1 xs" using rem_advance [OF r] by blast
  obtain s' where s': "(if xs = [] then it_reset ops s1 else Some s1) = Some s'" "rem s' xs"
    using rem_reset rem_facts(3) [OF s1(2)] s1(2) by (cases "xs = []") auto
  let ?rems = "rems[ix := xs]" and ?m = "m\<lparr>mi_iters := (mi_iters m)[ix := s']\<rparr>"
  have rems': "keys_in K ?rems" "\<forall>xs \<in> set ?rems. sorted_by c xs"
    using Suc.prems(1,2) ix(1) x by (fastforce simp: keys_in_def sorted_by_def dest!: set_update_subset_insert [THEN subsetD] dest: nth_mem)+
  obtain m' where m': "find_smallest ops ?m = Some m'" "mi_rep c ?rems m'"
    using find_smallest_ok [OF assms(1), of ?m ?rems] list_all2_update_cong [OF m(3) s'(2)] rems'(1) m(1,2) ne by auto
  have size: "mset (concat rems) = add_mset x (mset (concat ?rems))" by (rule mset_concat_tail [OF ix(1) x])
  then have "n = length (concat ?rems)" using Suc.hyps(2) by (metis Suc_inject size_add_mset size_mset)
  from Suc.hyps(1) [OF this rems' m'(2)] obtain ys where ys: "yields (merging_iter_ops ops) m' ys" "mset ys = mset (concat ?rems)"
      "sorted_wrt (\<lambda>x y. cmp_le (cmp c) (fst x) (fst y)) ys" by blast
  have "mi_advance ops m = Some (mi_valid ops m', m')"
    using m(1,4) ix(2) s1(1) s'(1) m'(1) by (simp add: mi_advance_def update_direction_def index_def)
  moreover have "mi_valid ops m' \<longleftrightarrow> ys \<noteq> []" using ys(1) by (cases ys) (simp_all add: merging_iter_ops_def)
  moreover have "mi_valid ops m" "mi_current_entry ops m = Some (Some x)"
    using m(4) ix(2) rem_facts(1,2) [OF r] by (simp_all add: mi_valid_def mi_current_entry_def index_def)
  ultimately have "yields (merging_iter_ops ops) m (x # ys)" using ys(1) by (simp add: merging_iter_ops_def)
  moreover have all: "mset (x # ys) = mset (concat rems)" using ys(2) size by simp
  moreover have "cmp_le (cmp c) (fst x) (fst y)" if "y \<in> set ys" for y
    by (rule best_least [OF assms(1) Suc.prems(1,2) m(5) x]) (use mset_eq_setD [OF all] that in \<open>metis insertCI list.simps(15)\<close>)
  ultimately show ?case using ys(3) by (intro exI [of _ "x # ys"]) auto
qed

end


section \<open>A scan of the merged entries\<close>

text \<open>A merging iterator over iterators with sorted entries yields, from its first entry on, exactly the
  entries of all of them, in the order of their keys.\<close>

lemma merging_iter_merges:
  assumes "ldb_forward ops ok entries pos" "cmp_order (cmp c) K"
    "\<forall>s \<in> set ss. ok s \<and> fst ` set (entries s) \<subseteq> K \<and> sorted_by c (entries s)"
  shows "\<exists>m ys. seek_to_first (merging_iter_ops ops) (merging_iter_new c ss) = Some m \<and> yields (merging_iter_ops ops) m ys \<and>
    mset ys = mset (concat (map entries ss)) \<and> sorted_wrt (\<lambda>x y. cmp_le (cmp c) (fst x) (fst y)) ys"
proof -
  note L = assms(1)
  have ok: "\<forall>s \<in> set ss. ok s" using assms(3) by blast
  obtain ss1 where ss1: "each_iter (it_reset ops) ss = Some ss1" "\<forall>s \<in> set ss1. ok s" "map entries ss1 = map entries ss"
    using ldb_forward.each_iter_reset [OF L ok] by blast
  obtain ss2 where ss2: "each_iter (init_iter ops) ss1 = Some ss2" "list_all2 (ldb_forward.rem ok entries pos) ss2 (map entries ss)"
    using ldb_forward.each_iter_init [OF L ss1(2)] ss1(3) by auto
  have K: "keys_in K (map entries ss)" "\<forall>xs \<in> set (map entries ss). sorted_by c xs"
    using assms(3) by (auto simp: keys_in_def)
  let ?m = "\<lparr>mi_iters = ss2, mi_current = None, mi_direction = Forward, mi_cmp = c\<rparr>"
  obtain m where m: "find_smallest ops ?m = Some m" "ldb_forward.mi_rep ok entries pos c (map entries ss) m"
    using ldb_forward.find_smallest_ok [OF L assms(2), of ?m "map entries ss"] ss2(2) K(1) by auto
  have "seek_to_first (merging_iter_ops ops) (merging_iter_new c ss) = Some m"
    using ss1(1) ss2(1) m(1)
    by (simp add: seek_to_first_def merging_iter_ops_def mi_reset_def mi_advance_def mi_init_def merging_iter_new_def)
  with ldb_forward.yields_merge [OF L assms(2) K m(2)] show ?thesis by blast
qed

end
