(* ===== verification/Version_Builder.thy ===== *)
theory Version_Builder
  imports Version_Search "HOL-Library.Multiset"
begin

text \<open>
  The builder of versions (\<open>Builder\<close> of \<open>src/src/version_set.rs\<close>), which collects edits and forms the
  next version from a base version, with the helper functions on lists of files. The properties: a
  saved version has exactly the files of the base and the new files that are not deleted, in order,
  and collecting a sequence of edits gives the version that saving them one by one gives.
\<close>

text \<open>\<open>sort_by\<close> of the library is stable; here it is an insertion sort.\<close>

fun insert_file :: "comparator \<Rightarrow> file_meta_data \<Rightarrow> file_meta_data list \<Rightarrow> file_meta_data list run" where
  "insert_file c f [] = Some [f]"
| "insert_file c f (g # gs) =
     do { o1 \<leftarrow> cmp c (smallest f) (smallest g);
          if o1 \<noteq> Greater then Some (f # g # gs) else do { gs \<leftarrow> insert_file c f gs; Some (g # gs) } }"

fun sort_files_by_smallest :: "comparator \<Rightarrow> file_meta_data list \<Rightarrow> file_meta_data list run" where
  "sort_files_by_smallest c [] = Some []"
| "sort_files_by_smallest c (f # fs) = do { fs \<leftarrow> sort_files_by_smallest c fs; insert_file c f fs }"

fun merge_iters :: "('a \<Rightarrow> 'a \<Rightarrow> ordering run) \<Rightarrow> 'a list \<Rightarrow> 'a list \<Rightarrow> 'a list run" where
  "merge_iters cm (a # as) (b # bs) =
     do { o1 \<leftarrow> cm a b;
          if o1 = Less then do { out \<leftarrow> merge_iters cm as (b # bs); Some (a # out) }
          else do { out \<leftarrow> merge_iters cm (a # as) bs; Some (b # out) } }"
| "merge_iters cm as [] = Some as"
| "merge_iters cm [] bs = Some bs"

text \<open>The loop of \<open>get_range\<close>, with the bounds so far; it unwraps nothing when there are no files.\<close>

fun range_loop :: "comparator \<Rightarrow> file_meta_data list \<Rightarrow> bytes option \<Rightarrow> bytes option \<Rightarrow> (bytes \<times> bytes) run" where
  "range_loop c [] small large = do { s \<leftarrow> small; l \<leftarrow> large; Some (s, l) }"
| "range_loop c (f # fs) small large =
     (let s = (case small of None \<Rightarrow> smallest f | Some s \<Rightarrow> s); l = (case large of None \<Rightarrow> largest f | Some l \<Rightarrow> l)
      in do { o1 \<leftarrow> cmp c (smallest f) s;
              o2 \<leftarrow> cmp c (largest f) l;
              range_loop c fs (Some (if o1 = Less then smallest f else s)) (Some (if o2 = Greater then largest f else l)) })"

definition get_range :: "comparator \<Rightarrow> file_meta_data list \<Rightarrow> (bytes \<times> bytes) run" where
  "get_range c files = range_loop c files None None"


section \<open>The builder\<close>

record builder =
  bd_deleted :: "file_num list list"
  bd_added :: "file_meta_data list list"

definition builder_new :: builder where
  "builder_new = \<lparr>bd_deleted = replicate NUM_LEVELS [], bd_added = replicate NUM_LEVELS []\<rparr>"

fun apply_pointers :: "compaction_pointer list \<Rightarrow> bytes list \<Rightarrow> bytes list run" where
  "apply_pointers [] ptrs = Some ptrs"
| "apply_pointers (c # cs) ptrs = do { ensure (cp_level c < length ptrs); apply_pointers cs (ptrs[cp_level c := cp_key c]) }"

fun apply_deleted :: "(nat \<times> file_num) list \<Rightarrow> builder \<Rightarrow> builder run" where
  "apply_deleted [] b = Some b"
| "apply_deleted ((level, num) # ds) b =
     do { d \<leftarrow> index (bd_deleted b) level; apply_deleted ds (b\<lparr>bd_deleted := (bd_deleted b)[level := d @ [num]]\<rparr>) }"

definition seeks_for :: "nat \<Rightarrow> nat" where
  "seeks_for sz = (let n = sz div 16384 in if n < 100 then 100 else n)"

fun apply_new_files :: "(nat \<times> file_meta_data) list \<Rightarrow> builder \<Rightarrow> builder run" where
  "apply_new_files [] b = Some b"
| "apply_new_files ((level, f) # fs) b =
     (let f = f\<lparr>allowed_seeks := seeks_for (fsize f)\<rparr>
      in do { d \<leftarrow> index (bd_deleted b) level;
              a \<leftarrow> index (bd_added b) level;
              apply_new_files fs (b\<lparr>bd_deleted := (bd_deleted b)[level := filter (\<lambda>n. n \<noteq> fnum f) d],
                bd_added := (bd_added b)[level := a @ [f]]\<rparr>) })"

definition builder_apply :: "builder \<Rightarrow> version_edit \<Rightarrow> bytes list \<Rightarrow> (builder \<times> bytes list) run" where
  "builder_apply b edit ptrs =
     do { ptrs \<leftarrow> apply_pointers (ve_compaction_ptrs edit) ptrs;
          b \<leftarrow> apply_deleted (ve_deleted edit) b;
          b \<leftarrow> apply_new_files (ve_new_files edit) b;
          Some (b, ptrs) }"

definition maybe_add_file :: "builder \<Rightarrow> comparator \<Rightarrow> version \<Rightarrow> nat \<Rightarrow> file_meta_data \<Rightarrow> version run" where
  "maybe_add_file b c v level f =
     do { d \<leftarrow> index (bd_deleted b) level;
          if fnum f \<in> set d then Some v
          else do { files \<leftarrow> index (v_files v) level;
                    (if level > 0 \<and> files \<noteq> []
                     then do { o1 \<leftarrow> cmp c (largest (last files)) (smallest f); ensure (o1 = Less) } else Some ());
                    Some (v\<lparr>v_files := (v_files v)[level := files @ [f]]\<rparr>) } }"

fun add_files :: "builder \<Rightarrow> comparator \<Rightarrow> version \<Rightarrow> nat \<Rightarrow> file_meta_data list \<Rightarrow> version run" where
  "add_files b c v level [] = Some v"
| "add_files b c v level (f # fs) = do { v \<leftarrow> maybe_add_file b c v level f; add_files b c v level fs }"

text \<open>The check for overlaps between the files of a level.\<close>

fun check_disjoint :: "comparator \<Rightarrow> file_meta_data list \<Rightarrow> unit run" where
  "check_disjoint c (f # g # fs) =
     do { o1 \<leftarrow> cmp c (largest f) (smallest g); ensure (o1 < Equal); check_disjoint c (g # fs) }"
| "check_disjoint c fs = Some ()"

definition save_level :: "comparator \<Rightarrow> nat \<Rightarrow> builder \<times> version \<times> version \<Rightarrow> (builder \<times> version \<times> version) run" where
  "save_level c level = (\<lambda>(b, base, v).
     do { added \<leftarrow> index (bd_added b) level;
          added \<leftarrow> sort_files_by_smallest c added;
          basefiles \<leftarrow> index (v_files base) level;
          basefiles \<leftarrow> sort_files_by_smallest c basefiles;
          let b = b\<lparr>bd_added := (bd_added b)[level := added]\<rparr>;
          let base = base\<lparr>v_files := (v_files base)[level := basefiles]\<rparr>;
          merged \<leftarrow> merge_iters (\<lambda>f g. cmp c (smallest f) (smallest g)) added basefiles;
          v \<leftarrow> add_files b c v level merged;
          files \<leftarrow> index (v_files v) level;
          (if level = 0 then Some () else check_disjoint c files);
          Some (b, base, v) })"

fun save_levels :: "comparator \<Rightarrow> nat list \<Rightarrow> builder \<times> version \<times> version \<Rightarrow> (builder \<times> version \<times> version) run" where
  "save_levels c [] s = Some s"
| "save_levels c (l # ls) s = do { s \<leftarrow> save_level c l s; save_levels c ls s }"

text \<open>The base version and the builder are sorted on the way.\<close>

definition save_to :: "builder \<Rightarrow> comparator \<Rightarrow> version \<Rightarrow> version \<Rightarrow> (builder \<times> version \<times> version) run" where
  "save_to b c base v = save_levels c [0..<NUM_LEVELS] (b, base, v)"


section \<open>Sorting and merging\<close>

abbreviation by_smallest :: "comparator \<Rightarrow> file_meta_data list \<Rightarrow> bool" where
  "by_smallest c fs \<equiv> sorted_wrt (\<lambda>f g. cmp_le (cmp c) (smallest f) (smallest g)) fs"

lemma insert_file_ok:
  assumes "cmp_order (cmp c) K" "\<forall>f \<in> insert f (set fs). smallest f \<in> K" "by_smallest c fs"
  shows "\<exists>fs'. insert_file c f fs = Some fs' \<and> mset fs' = add_mset f (mset fs) \<and> by_smallest c fs'"
  using assms(2,3)
proof (induction fs)
  case (Cons g gs)
  have K: "smallest f \<in> K" "smallest g \<in> K" "\<forall>h \<in> set gs. smallest h \<in> K" using Cons.prems(1) by auto
  obtain o1 where o1: "cmp c (smallest f) (smallest g) = Some o1" using cmp_order.cmp_total [OF assms(1) K(1,2)] by blast
  show ?case
  proof (cases "o1 = Greater")
    case True
    have gf: "cmp_le (cmp c) (smallest g) (smallest f)"
      using cmp_order.flipI [OF assms(1) K(1,2) o1] True by (simp add: cmp_le_def)
    obtain fs' where fs': "insert_file c f gs = Some fs'" "mset fs' = add_mset f (mset gs)" "by_smallest c fs'"
      using Cons.IH Cons.prems K by auto
    have "\<forall>h \<in> set fs'. cmp_le (cmp c) (smallest g) (smallest h)"
      using gf Cons.prems(2) mset_eq_setD [of fs' "f # gs"] fs'(2) by auto
    then show ?thesis using fs' o1 True by (intro exI [of _ "g # fs'"]) simp
  next
    case False
    then have "cmp_le (cmp c) (smallest f) (smallest g)" using o1 by (cases o1) (auto simp: cmp_le_def)
    then have "\<forall>h \<in> set gs. cmp_le (cmp c) (smallest f) (smallest h)"
      using Cons.prems(2) K cmp_order.le_trans [OF assms(1) K(1,2)] by auto
    then show ?thesis using \<open>cmp_le (cmp c) (smallest f) (smallest g)\<close> Cons.prems(2) o1 False by simp
  qed
qed simp

lemma sort_files_ok:
  assumes "cmp_order (cmp c) K" "\<forall>f \<in> set fs. smallest f \<in> K"
  shows "\<exists>fs'. sort_files_by_smallest c fs = Some fs' \<and> mset fs' = mset fs \<and> by_smallest c fs'"
  using assms(2)
proof (induction fs)
  case (Cons f fs)
  then obtain fs' where fs': "sort_files_by_smallest c fs = Some fs'" "mset fs' = mset fs" "by_smallest c fs'" by auto
  have "\<forall>g \<in> insert f (set fs'). smallest g \<in> K" using Cons.prems mset_eq_setD [OF fs'(2)] by simp
  from insert_file_ok [OF assms(1) this fs'(3)] show ?case using fs' by auto
qed simp

lemma merge_files_ok:
  assumes "cmp_order (cmp c) K" "\<forall>f \<in> set as \<union> set bs. smallest f \<in> K" "by_smallest c as" "by_smallest c bs"
  shows "\<exists>fs. merge_iters (\<lambda>f g. cmp c (smallest f) (smallest g)) as bs = Some fs \<and> mset fs = mset as + mset bs \<and> by_smallest c fs"
  using assms(2-)
proof (induction "\<lambda>f g. cmp c (smallest (f :: file_meta_data)) (smallest (g :: file_meta_data))" as bs rule: merge_iters.induct)
  case (1 a as b bs)
  have K: "smallest a \<in> K" "smallest b \<in> K" using 1(3) by auto
  obtain o1 where o1: "cmp c (smallest a) (smallest b) = Some o1" using cmp_order.cmp_total [OF assms(1) K] by blast
  show ?case
  proof (cases "o1 = Less")
    case True
    then obtain fs where fs: "merge_iters (\<lambda>f g. cmp c (smallest f) (smallest g)) as (b # bs) = Some fs"
        "mset fs = mset as + mset (b # bs)" "by_smallest c fs"
      using 1(1) [OF o1 True] 1(3-5) by auto
    have ab: "cmp_le (cmp c) (smallest a) (smallest b)" using o1 True by (simp add: cmp_le_def)
    then have "\<forall>h \<in> set bs. cmp_le (cmp c) (smallest a) (smallest h)"
      using 1(3,5) K cmp_order.le_trans [OF assms(1) K] by auto
    then have "\<forall>h \<in> set fs. cmp_le (cmp c) (smallest a) (smallest h)"
      using ab 1(4) mset_eq_setD [of fs "as @ b # bs"] fs(2) by auto
    then show ?thesis using fs o1 True by (intro exI [of _ "a # fs"]) simp
  next
    case False
    then obtain fs where fs: "merge_iters (\<lambda>f g. cmp c (smallest f) (smallest g)) (a # as) bs = Some fs"
        "mset fs = mset (a # as) + mset bs" "by_smallest c fs"
      using 1(2) [OF o1 False] 1(3-5) by auto
    have ba: "cmp_le (cmp c) (smallest b) (smallest a)"
      using cmp_order.flipI [OF assms(1) K o1] False by (cases o1) (simp_all add: cmp_le_def)
    then have "\<forall>h \<in> set as. cmp_le (cmp c) (smallest b) (smallest h)"
      using 1(3,4) K cmp_order.le_trans [OF assms(1) K(2,1)] by auto
    then have "\<forall>h \<in> set fs. cmp_le (cmp c) (smallest b) (smallest h)"
      using ba 1(5) mset_eq_setD [of fs "(a # as) @ bs"] fs(2) by auto
    then show ?thesis using fs o1 False by (intro exI [of _ "b # fs"]) simp
  qed
qed simp_all

text \<open>A symmetric relation that holds between all elements of a list does not depend on their order.\<close>

lemma pairwise_mset:
  assumes "\<And>x y. P x y \<Longrightarrow> P y x" "mset xs = mset ys" "sorted_wrt P xs"
  shows "sorted_wrt P ys"
  using assms(2,3)
proof (induction ys arbitrary: xs)
  case (Cons y ys)
  then obtain a b where xs: "xs = a @ y # b" by (metis list.set_intros(1) mset_eq_setD split_list)
  then have ys: "mset (a @ b) = mset ys" using Cons.prems(1) by simp
  moreover have "sorted_wrt P (a @ b)" using Cons.prems(2) xs by (simp add: sorted_wrt_append)
  moreover have "\<forall>z \<in> set (a @ b). P y z" using Cons.prems(2) xs assms(1) by (auto simp: sorted_wrt_append)
  ultimately show ?case using Cons.IH [OF ys] mset_eq_setD [OF ys] by simp
qed simp

lemma distinct_pairwise: "distinct xs \<Longrightarrow> sorted_wrt (\<noteq>) xs"
  by (induction xs) auto

text \<open>Files of a level whose ranges do not meet, in any order and in ascending order.\<close>

definition apart :: "comparator \<Rightarrow> file_meta_data \<Rightarrow> file_meta_data \<Rightarrow> bool" where
  "apart c f g \<longleftrightarrow> cmp_lt (cmp c) (largest f) (smallest g) \<or> cmp_lt (cmp c) (largest g) (smallest f)"

abbreviation ascending :: "comparator \<Rightarrow> file_meta_data list \<Rightarrow> bool" where
  "ascending c fs \<equiv> sorted_wrt (\<lambda>f g. cmp_lt (cmp c) (largest f) (smallest g)) fs"

definition bounds_in :: "comparator \<Rightarrow> bytes set \<Rightarrow> file_meta_data \<Rightarrow> bool" where
  "bounds_in c K f \<longleftrightarrow> smallest f \<in> K \<and> largest f \<in> K \<and> cmp_le (cmp c) (smallest f) (largest f)"

lemma apart_ascending:
  assumes ord: "cmp_order (cmp c) K" and "\<forall>f \<in> set fs. bounds_in c K f" "by_smallest c fs" "sorted_wrt (apart c) fs"
  shows "ascending c fs"
  using assms(2-)
proof (induction fs)
  case (Cons f fs)
  have "cmp_lt (cmp c) (largest f) (smallest g)" if g: "g \<in> set fs" for g
  proof -
    have K: "smallest f \<in> K" "smallest g \<in> K" "largest g \<in> K" and gg: "cmp_le (cmp c) (smallest g) (largest g)"
      using Cons.prems(1) g by (auto simp: bounds_in_def)
    have "cmp_le (cmp c) (smallest f) (smallest g)" "apart c f g" using Cons.prems(2,3) g by auto
    then have "cmp_le (cmp c) (smallest f) (largest g)" using cmp_order.le_trans [OF ord K] gg by blast
    then have "\<not> cmp_lt (cmp c) (largest g) (smallest f)" using cmp_order.not_lt [OF ord K(3,1)] by simp
    with \<open>apart c f g\<close> show ?thesis by (simp add: apart_def)
  qed
  then show ?case using Cons by simp
qed simp


section \<open>Saving a level\<close>

definition keeps :: "builder \<Rightarrow> nat \<Rightarrow> file_meta_data \<Rightarrow> bool" where
  "keeps b l f \<longleftrightarrow> fnum f \<notin> set (bd_deleted b ! l)"

definition kept :: "builder \<Rightarrow> version \<Rightarrow> nat \<Rightarrow> file_meta_data list" where
  "kept b base l = filter (keeps b l) (bd_added b ! l @ v_files base ! l)"

lemma add_files_eq:
  assumes "level < length (bd_deleted b)" "level < length (v_files v)"
    "level > 0 \<longrightarrow> ascending c (v_files v ! level @ filter (keeps b level) fs)"
  shows "add_files b c v level fs = Some (v\<lparr>v_files := (v_files v)[level := v_files v ! level @ filter (keeps b level) fs]\<rparr>)"
  using assms(2,3)
proof (induction fs arbitrary: v)
  case (Cons f fs)
  show ?case
  proof (cases "keeps b level f")
    case False
    then show ?thesis using Cons assms(1) by (simp add: maybe_add_file_def index_def keeps_def)
  next
    case True
    let ?v = "v\<lparr>v_files := (v_files v)[level := v_files v ! level @ [f]]\<rparr>"
    have "cmp_lt (cmp c) (largest (last (v_files v ! level))) (smallest f)" if "level > 0" "v_files v ! level \<noteq> []"
      using Cons.prems(2) that True last_in_set [OF that(2)] by (simp add: sorted_wrt_append)
    then have "maybe_add_file b c v level f = Some ?v"
      using Cons.prems(1) assms(1) True by (auto simp: maybe_add_file_def index_def keeps_def cmp_lt_def)
    then show ?thesis using Cons.IH [of ?v] Cons.prems True by simp
  qed
qed simp

lemma check_disjoint_ok: "ascending c fs \<Longrightarrow> check_disjoint c fs = Some ()"
  by (induction c fs rule: check_disjoint.induct) (auto simp: cmp_lt_def less_ordering_def)

definition level_good :: "comparator \<Rightarrow> bytes set \<Rightarrow> nat \<Rightarrow> file_meta_data list \<Rightarrow> bool" where
  "level_good c K l fs \<longleftrightarrow> (\<forall>f \<in> set fs. bounds_in c K f) \<and> (l > 0 \<longrightarrow> sorted_wrt (apart c) fs)"

definition saved :: "comparator \<Rightarrow> builder \<Rightarrow> version \<Rightarrow> nat \<Rightarrow> file_meta_data list \<Rightarrow> bool" where
  "saved c b base l files \<longleftrightarrow> mset files = mset (kept b base l) \<and> by_smallest c files \<and> (l > 0 \<longrightarrow> ascending c files)"

lemma save_level_ok:
  assumes ord: "cmp_order (cmp c) K" and len: "l < length (bd_deleted b)" "l < length (bd_added b)" "l < length (v_files base)" "l < length (v_files v)"
    and empty: "v_files v ! l = []" and K: "\<forall>f \<in> set (bd_added b ! l) \<union> set (v_files base ! l). smallest f \<in> K"
    and good: "level_good c K l (kept b base l)"
  obtains a bs files where "save_level c l (b, base, v) =
      Some (b\<lparr>bd_added := (bd_added b)[l := a]\<rparr>, base\<lparr>v_files := (v_files base)[l := bs]\<rparr>, v\<lparr>v_files := (v_files v)[l := files]\<rparr>)"
    "mset a = mset (bd_added b ! l)" "mset bs = mset (v_files base ! l)" "saved c b base l files"
proof -
  obtain a where a: "sort_files_by_smallest c (bd_added b ! l) = Some a" "mset a = mset (bd_added b ! l)" "by_smallest c a"
    using sort_files_ok [OF ord, of "bd_added b ! l"] K by blast
  obtain bs where bs: "sort_files_by_smallest c (v_files base ! l) = Some bs" "mset bs = mset (v_files base ! l)" "by_smallest c bs"
    using sort_files_ok [OF ord, of "v_files base ! l"] K by blast
  have "\<forall>f \<in> set a \<union> set bs. smallest f \<in> K" using K mset_eq_setD [OF a(2)] mset_eq_setD [OF bs(2)] by simp
  then obtain m where m: "merge_iters (\<lambda>f g. cmp c (smallest f) (smallest g)) a bs = Some m" "mset m = mset a + mset bs" "by_smallest c m"
    using merge_files_ok [OF ord _ a(3) bs(3)] by blast
  let ?files = "filter (keeps b l) m"
  have kept: "mset ?files = mset (kept b base l)" using m(2) a(2) bs(2) by (simp add: kept_def)
  have sorted: "by_smallest c ?files" using m(3) by (rule sorted_wrt_filter)
  have asc: "ascending c ?files" if "l > 0"
  proof (rule apart_ascending [OF ord _ sorted])
    show "\<forall>f \<in> set ?files. bounds_in c K f" using good mset_eq_setD [OF kept] by (simp add: level_good_def)
    show "sorted_wrt (apart c) ?files"
      using good that by (intro pairwise_mset [OF _ kept [symmetric]]) (auto simp: level_good_def apart_def)
  qed
  let ?b = "b\<lparr>bd_added := (bd_added b)[l := a]\<rparr>"
  have "keeps ?b l = keeps b l" by (simp add: keeps_def fun_eq_iff)
  then have "add_files ?b c v l m = Some (v\<lparr>v_files := (v_files v)[l := ?files]\<rparr>)"
    using add_files_eq [of l ?b v c m] len empty asc by simp
  then have "save_level c l (b, base, v) =
      Some (?b, base\<lparr>v_files := (v_files base)[l := bs]\<rparr>, v\<lparr>v_files := (v_files v)[l := ?files]\<rparr>)"
    using a(1) bs(1) m(1) len check_disjoint_ok [OF asc] by (simp add: save_level_def index_def)
  then show thesis using that a(2) bs(2) kept sorted asc by (simp add: saved_def)
qed

lemma save_levels_ok:
  assumes ord: "cmp_order (cmp c) K" and "distinct ls" "\<forall>l \<in> set ls. l < NUM_LEVELS"
    "length (bd_deleted b) = NUM_LEVELS" "length (bd_added b) = NUM_LEVELS" "length (v_files base) = NUM_LEVELS" "length (v_files v) = NUM_LEVELS"
    "\<forall>l \<in> set ls. v_files v ! l = [] \<and> level_good c K l (kept b base l) \<and>
      (\<forall>f \<in> set (bd_added b ! l) \<union> set (v_files base ! l). smallest f \<in> K)"
  shows "\<exists>b' bf vf. save_levels c ls (b, base, v) = Some (b', base\<lparr>v_files := bf\<rparr>, v\<lparr>v_files := vf\<rparr>) \<and>
    length bf = NUM_LEVELS \<and> length vf = NUM_LEVELS \<and> (\<forall>l < NUM_LEVELS. mset (bf ! l) = mset (v_files base ! l)) \<and>
    (\<forall>l \<in> set ls. saved c b base l (vf ! l)) \<and> (\<forall>l. l \<notin> set ls \<longrightarrow> vf ! l = v_files v ! l)"
  using assms(2-)
proof (induction ls arbitrary: b base v)
  case Nil
  then show ?case by (intro exI [of _ b] exI [of _ "v_files base"] exI [of _ "v_files v"]) simp
next
  case (Cons l ls)
  note P = Cons.prems
  have l: "l < NUM_LEVELS" "l \<notin> set ls" using P(1,2) by auto
  obtain a bs files where one: "save_level c l (b, base, v) =
      Some (b\<lparr>bd_added := (bd_added b)[l := a]\<rparr>, base\<lparr>v_files := (v_files base)[l := bs]\<rparr>, v\<lparr>v_files := (v_files v)[l := files]\<rparr>)"
      "mset a = mset (bd_added b ! l)" "mset bs = mset (v_files base ! l)" "saved c b base l files"
    by (rule save_level_ok [OF ord, of l b base v]) (use P l in auto)
  let ?b = "b\<lparr>bd_added := (bd_added b)[l := a]\<rparr>" and ?base = "base\<lparr>v_files := (v_files base)[l := bs]\<rparr>"
    and ?v = "v\<lparr>v_files := (v_files v)[l := files]\<rparr>"
  have other: "kept ?b ?base l' = kept b base l'" "bd_added ?b ! l' = bd_added b ! l'" "v_files ?base ! l' = v_files base ! l'"
    if "l' \<in> set ls" for l'
  proof -
    have "l \<noteq> l'" "keeps ?b l' = keeps b l'" using that l(2) by (auto simp: keeps_def fun_eq_iff)
    then show "kept ?b ?base l' = kept b base l'" "bd_added ?b ! l' = bd_added b ! l'" "v_files ?base ! l' = v_files base ! l'"
      by (simp_all add: kept_def)
  qed
  have "\<exists>b' bf vf. save_levels c ls (?b, ?base, ?v) = Some (b', ?base\<lparr>v_files := bf\<rparr>, ?v\<lparr>v_files := vf\<rparr>) \<and>
    length bf = NUM_LEVELS \<and> length vf = NUM_LEVELS \<and> (\<forall>l < NUM_LEVELS. mset (bf ! l) = mset (v_files ?base ! l)) \<and>
    (\<forall>l \<in> set ls. saved c ?b ?base l (vf ! l)) \<and> (\<forall>l. l \<notin> set ls \<longrightarrow> vf ! l = v_files ?v ! l)"
    by (rule Cons.IH) (use P l other in \<open>auto simp: nth_list_update\<close>)
  then obtain b' bf vf where rest: "save_levels c ls (?b, ?base, ?v) = Some (b', ?base\<lparr>v_files := bf\<rparr>, ?v\<lparr>v_files := vf\<rparr>)"
      "length bf = NUM_LEVELS" "length vf = NUM_LEVELS" "\<forall>l < NUM_LEVELS. mset (bf ! l) = mset (v_files ?base ! l)"
      "\<forall>l \<in> set ls. saved c ?b ?base l (vf ! l)" "\<forall>l. l \<notin> set ls \<longrightarrow> vf ! l = v_files ?v ! l"
    by blast
  have "\<forall>l' < NUM_LEVELS. mset (bf ! l') = mset (v_files base ! l')"
    using rest(4) one(3) l(1) P(5) by (auto simp: nth_list_update)
  moreover have "\<forall>l' \<in> set ls. saved c b base l' (vf ! l')" using rest(5) other by (simp add: saved_def)
  moreover have "vf ! l = files" using rest(6) l P(6) by simp
  moreover have "\<forall>l'. l' \<notin> set (l # ls) \<longrightarrow> vf ! l' = v_files v ! l'" using rest(6) by auto
  ultimately show ?case using one(1,4) rest(1-3) by (intro exI [of _ b'] exI [of _ bf] exI [of _ vf]) simp
qed

lemma save_to_ok:
  assumes "cmp_order (cmp c) K" "length (bd_deleted b) = NUM_LEVELS" "length (bd_added b) = NUM_LEVELS" "length (v_files base) = NUM_LEVELS"
    "\<forall>l < NUM_LEVELS. level_good c K l (kept b base l) \<and> (\<forall>f \<in> set (bd_added b ! l) \<union> set (v_files base ! l). smallest f \<in> K)"
  shows "\<exists>b' bf vf. save_to b c base (version_new U) = Some (b', base\<lparr>v_files := bf\<rparr>, (version_new U)\<lparr>v_files := vf\<rparr>) \<and>
    length bf = NUM_LEVELS \<and> (\<forall>l < NUM_LEVELS. mset (bf ! l) = mset (v_files base ! l)) \<and>
    length vf = NUM_LEVELS \<and> (\<forall>l < NUM_LEVELS. saved c b base l (vf ! l))"
  using save_levels_ok [OF assms(1) distinct_upt _ assms(2-4), of 0 NUM_LEVELS "version_new U"] assms(5)
  by (auto simp: save_to_def version_new_def)


section \<open>What edits mean\<close>

text \<open>The effect of an edit on the files of a level.\<close>

definition new_at :: "version_edit \<Rightarrow> nat \<Rightarrow> file_meta_data list" where
  "new_at e l = map (\<lambda>(_, f). f\<lparr>allowed_seeks := seeks_for (fsize f)\<rparr>) (filter (\<lambda>(l', _). l' = l) (ve_new_files e))"

definition deleted_at :: "version_edit \<Rightarrow> nat \<Rightarrow> file_num set" where
  "deleted_at e l = {n. (l, n) \<in> set (ve_deleted e)} - fnum ` set (new_at e l)"

definition edit_level :: "version_edit \<Rightarrow> nat \<Rightarrow> file_meta_data set \<Rightarrow> file_meta_data set" where
  "edit_level e l S = {f \<in> S. fnum f \<notin> deleted_at e l} \<union> set (new_at e l)"

definition edit_levels_ok :: "version_edit \<Rightarrow> bool" where
  "edit_levels_ok e \<longleftrightarrow> (\<forall>c \<in> set (ve_compaction_ptrs e). cp_level c < NUM_LEVELS) \<and>
     (\<forall>(l, _) \<in> set (ve_deleted e). l < NUM_LEVELS) \<and> (\<forall>(l, _) \<in> set (ve_new_files e). l < NUM_LEVELS)"

fun apply_edits :: "builder \<Rightarrow> version_edit list \<Rightarrow> bytes list \<Rightarrow> (builder \<times> bytes list) run" where
  "apply_edits b [] ptrs = Some (b, ptrs)"
| "apply_edits b (e # es) ptrs = do { (b, ptrs) \<leftarrow> builder_apply b e ptrs; apply_edits b es ptrs }"

lemma apply_pointers_ok:
  "\<forall>c \<in> set cs. cp_level c < length ptrs \<Longrightarrow> \<exists>ptrs'. apply_pointers cs ptrs = Some ptrs' \<and> length ptrs' = length ptrs"
proof (induction cs arbitrary: ptrs)
  case (Cons c cs)
  then show ?case using Cons.IH [of "ptrs[cp_level c := cp_key c]"] by simp
qed simp

lemma apply_deleted_ok:
  "\<forall>(l, _) \<in> set ds. l < length (bd_deleted b) \<Longrightarrow> \<exists>d. apply_deleted ds b = Some (b\<lparr>bd_deleted := d\<rparr>) \<and> length d = length (bd_deleted b) \<and>
     (\<forall>l < length d. set (d ! l) = set (bd_deleted b ! l) \<union> {n. (l, n) \<in> set ds})"
proof (induction ds arbitrary: b)
  case Nil
  then show ?case by (intro exI [of _ "bd_deleted b"]) simp
next
  case (Cons x ds)
  obtain l n where x: "x = (l, n)" by (cases x)
  let ?b = "b\<lparr>bd_deleted := (bd_deleted b)[l := bd_deleted b ! l @ [n]]\<rparr>"
  have "l < length (bd_deleted b)" using Cons.prems x by auto
  with Cons.IH [of ?b] Cons.prems obtain d where d: "apply_deleted ds ?b = Some (?b\<lparr>bd_deleted := d\<rparr>)" "length d = length (bd_deleted b)"
      "\<forall>l' < length d. set (d ! l') = set (bd_deleted ?b ! l') \<union> {n. (l', n) \<in> set ds}" by auto
  then show ?case
    using \<open>l < length (bd_deleted b)\<close> x by (intro exI [of _ d]) (auto simp: index_def nth_list_update)
qed

lemma apply_new_files_ok:
  "\<forall>(l, _) \<in> set fs. l < n \<Longrightarrow> length (bd_deleted b) = n \<Longrightarrow> length (bd_added b) = n \<Longrightarrow>
     \<exists>b'. apply_new_files fs b = Some b' \<and> length (bd_deleted b') = n \<and> length (bd_added b') = n \<and>
     (\<forall>l < n. bd_added b' ! l = bd_added b ! l @ map (\<lambda>(_, f). f\<lparr>allowed_seeks := seeks_for (fsize f)\<rparr>) (filter (\<lambda>(l', _). l' = l) fs) \<and>
       set (bd_deleted b' ! l) = set (bd_deleted b ! l) - (fnum \<circ> snd) ` set (filter (\<lambda>(l', _). l' = l) fs))"
proof (induction fs arbitrary: b)
  case (Cons x fs)
  obtain l f where x: "x = (l, f)" by (cases x)
  let ?f = "f\<lparr>allowed_seeks := seeks_for (fsize f)\<rparr>"
  let ?b = "b\<lparr>bd_deleted := (bd_deleted b)[l := filter (\<lambda>n. n \<noteq> fnum f) (bd_deleted b ! l)], bd_added := (bd_added b)[l := bd_added b ! l @ [?f]]\<rparr>"
  have l: "l < n" using Cons.prems(1) x by auto
  with Cons.IH [of ?b] Cons.prems obtain b' where b': "apply_new_files fs ?b = Some b'" "length (bd_deleted b') = n" "length (bd_added b') = n"
     "\<forall>l < n. bd_added b' ! l = bd_added ?b ! l @ map (\<lambda>(_, f). f\<lparr>allowed_seeks := seeks_for (fsize f)\<rparr>) (filter (\<lambda>(l', _). l' = l) fs) \<and>
       set (bd_deleted b' ! l) = set (bd_deleted ?b ! l) - (fnum \<circ> snd) ` set (filter (\<lambda>(l', _). l' = l) fs)" by auto
  then show ?case
    using l Cons.prems(2,3) x by (intro exI [of _ b']) (auto simp: index_def nth_list_update Let_def)
qed auto

lemma builder_apply_ok:
  assumes "edit_levels_ok e" "length (bd_deleted b) = NUM_LEVELS" "length (bd_added b) = NUM_LEVELS" "length ptrs = NUM_LEVELS"
  obtains b' ptrs' where "builder_apply b e ptrs = Some (b', ptrs')" "length (bd_deleted b') = NUM_LEVELS" "length (bd_added b') = NUM_LEVELS"
    "length ptrs' = NUM_LEVELS" "\<forall>l < NUM_LEVELS. bd_added b' ! l = bd_added b ! l @ new_at e l"
    "\<forall>l < NUM_LEVELS. set (bd_deleted b' ! l) = set (bd_deleted b ! l) \<union> {n. (l, n) \<in> set (ve_deleted e)} - fnum ` set (new_at e l)"
proof -
  obtain ptrs' where p: "apply_pointers (ve_compaction_ptrs e) ptrs = Some ptrs'" "length ptrs' = NUM_LEVELS"
    using apply_pointers_ok [of "ve_compaction_ptrs e" ptrs] assms by (auto simp: edit_levels_ok_def)
  obtain d where d: "apply_deleted (ve_deleted e) b = Some (b\<lparr>bd_deleted := d\<rparr>)" "length d = NUM_LEVELS"
      "\<forall>l < NUM_LEVELS. set (d ! l) = set (bd_deleted b ! l) \<union> {n. (l, n) \<in> set (ve_deleted e)}"
    using apply_deleted_ok [of "ve_deleted e" b] assms by (auto simp: edit_levels_ok_def)
  let ?b = "b\<lparr>bd_deleted := d\<rparr>"
  have "(fnum \<circ> snd) ` set (filter (\<lambda>(l', _). l' = l) (ve_new_files e)) = fnum ` set (new_at e l)" for l
    by (force simp: new_at_def image_image)
  then obtain b' where "apply_new_files (ve_new_files e) ?b = Some b'" "length (bd_deleted b') = NUM_LEVELS" "length (bd_added b') = NUM_LEVELS"
      "\<forall>l < NUM_LEVELS. bd_added b' ! l = bd_added b ! l @ new_at e l \<and> set (bd_deleted b' ! l) = set (d ! l) - fnum ` set (new_at e l)"
    using apply_new_files_ok [of "ve_new_files e" NUM_LEVELS ?b] assms d(2) by (auto simp: edit_levels_ok_def new_at_def)
  then show thesis using that p d by (auto simp: builder_apply_def)
qed

text \<open>Edits that give a file a number that no file of the level had before.\<close>

fun fresh_edits :: "nat \<Rightarrow> file_num set \<Rightarrow> version_edit list \<Rightarrow> bool" where
  "fresh_edits l N [] \<longleftrightarrow> True"
| "fresh_edits l N (e # es) \<longleftrightarrow> distinct (map fnum (new_at e l)) \<and> fnum ` set (new_at e l) \<inter> N = {} \<and>
     fresh_edits l (N \<union> fnum ` set (new_at e l)) es"

definition all_files :: "builder \<Rightarrow> version \<Rightarrow> nat \<Rightarrow> file_meta_data list" where
  "all_files b base l = bd_added b ! l @ v_files base ! l"

lemma kept_edit:
  assumes "bd_added b' ! l = bd_added b ! l @ new_at e l"
    "set (bd_deleted b' ! l) = set (bd_deleted b ! l) \<union> {n. (l, n) \<in> set (ve_deleted e)} - fnum ` set (new_at e l)"
    "fnum ` set (new_at e l) \<inter> fnum ` set (all_files b base l) = {}"
  shows "set (kept b' base l) = edit_level e l (set (kept b base l))"
  using assms by (auto simp: kept_def keeps_def edit_level_def deleted_at_def all_files_def)

lemma apply_edits_ok:
  assumes "\<forall>e \<in> set es. edit_levels_ok e" "length (bd_deleted b) = NUM_LEVELS" "length (bd_added b) = NUM_LEVELS" "length ptrs = NUM_LEVELS"
    "\<forall>l < NUM_LEVELS. distinct (map fnum (all_files b base l)) \<and> fresh_edits l (fnum ` set (all_files b base l)) es"
  shows "\<exists>b' ptrs'. apply_edits b es ptrs = Some (b', ptrs') \<and> length (bd_deleted b') = NUM_LEVELS \<and> length (bd_added b') = NUM_LEVELS \<and>
    length ptrs' = NUM_LEVELS \<and> (\<forall>l < NUM_LEVELS. set (kept b' base l) = fold (\<lambda>e. edit_level e l) es (set (kept b base l)) \<and>
      distinct (map fnum (all_files b' base l)) \<and> set (all_files b' base l) = set (all_files b base l) \<union> (\<Union>e \<in> set es. set (new_at e l)))"
  using assms
proof (induction es arbitrary: b ptrs)
  case (Cons e es)
  obtain b1 ptrs1 where one: "builder_apply b e ptrs = Some (b1, ptrs1)" "length (bd_deleted b1) = NUM_LEVELS" "length (bd_added b1) = NUM_LEVELS"
      "length ptrs1 = NUM_LEVELS" "\<forall>l < NUM_LEVELS. bd_added b1 ! l = bd_added b ! l @ new_at e l"
      "\<forall>l < NUM_LEVELS. set (bd_deleted b1 ! l) = set (bd_deleted b ! l) \<union> {n. (l, n) \<in> set (ve_deleted e)} - fnum ` set (new_at e l)"
    by (rule builder_apply_ok [of e b ptrs]) (use Cons.prems in auto)
  have fresh: "fnum ` set (new_at e l) \<inter> fnum ` set (all_files b base l) = {}" "distinct (map fnum (new_at e l))"
      "distinct (map fnum (all_files b base l))" "fresh_edits l (fnum ` set (all_files b base l) \<union> fnum ` set (new_at e l)) es"
    if "l < NUM_LEVELS" for l
    using Cons.prems(5) that by auto
  have step: "set (kept b1 base l) = edit_level e l (set (kept b base l))" if "l < NUM_LEVELS" for l
    using kept_edit [of b1 l b e base] one(5,6) fresh(1) that by blast
  have all: "set (all_files b1 base l) = set (all_files b base l) \<union> set (new_at e l)" "distinct (map fnum (all_files b1 base l))"
    if "l < NUM_LEVELS" for l
    using fresh(1-3) [OF that] one(5) that by (auto simp: all_files_def)
  have "\<exists>b' ptrs'. apply_edits b1 es ptrs1 = Some (b', ptrs') \<and> length (bd_deleted b') = NUM_LEVELS \<and> length (bd_added b') = NUM_LEVELS \<and>
    length ptrs' = NUM_LEVELS \<and> (\<forall>l < NUM_LEVELS. set (kept b' base l) = fold (\<lambda>e. edit_level e l) es (set (kept b1 base l)) \<and>
      distinct (map fnum (all_files b' base l)) \<and> set (all_files b' base l) = set (all_files b1 base l) \<union> (\<Union>e \<in> set es. set (new_at e l)))"
    by (rule Cons.IH) (use Cons.prems(1) one(2-4) all fresh(4) in \<open>auto simp: image_Un\<close>)
  then show ?case using one(1) step all by (simp add: Un_assoc)
qed (simp add: all_files_def)

text \<open>The files of a level after a sequence of edits, and edits that can be applied to a version.\<close>

definition edited :: "version_edit list \<Rightarrow> version \<Rightarrow> nat \<Rightarrow> file_meta_data set" where
  "edited es base l = fold (\<lambda>e. edit_level e l) es (set (v_files base ! l))"

definition edits_fit :: "comparator \<Rightarrow> bytes set \<Rightarrow> version_edit list \<Rightarrow> version \<Rightarrow> bool" where
  "edits_fit c K es base \<longleftrightarrow> length (v_files base) = NUM_LEVELS \<and> (\<forall>e \<in> set es. edit_levels_ok e) \<and>
     (\<forall>l < NUM_LEVELS. distinct (map fnum (v_files base ! l)) \<and> fresh_edits l (fnum ` set (v_files base ! l)) es \<and>
       (\<forall>f \<in> set (v_files base ! l) \<union> (\<Union>e \<in> set es. set (new_at e l)). bounds_in c K f) \<and>
       (l > 0 \<longrightarrow> (\<forall>f \<in> edited es base l. \<forall>g \<in> edited es base l. f \<noteq> g \<longrightarrow> apart c f g)))"

lemma saved_edits:
  assumes "cmp_order (cmp c) K" "edits_fit c K es base" "length ptrs = NUM_LEVELS"
  obtains b ptrs' b' bf vf where "apply_edits builder_new es ptrs = Some (b, ptrs')" "length ptrs' = NUM_LEVELS"
    "save_to b c base (version_new U) = Some (b', base\<lparr>v_files := bf\<rparr>, (version_new U)\<lparr>v_files := vf\<rparr>)"
    "length bf = NUM_LEVELS" "\<forall>l < NUM_LEVELS. mset (bf ! l) = mset (v_files base ! l)"
    "length vf = NUM_LEVELS" "\<forall>l < NUM_LEVELS. set (vf ! l) = edited es base l \<and> distinct (map fnum (vf ! l)) \<and> by_smallest c (vf ! l) \<and>
      (l > 0 \<longrightarrow> ascending c (vf ! l))"
proof -
  have new: "kept builder_new base l = v_files base ! l" "all_files builder_new base l = v_files base ! l" if "l < NUM_LEVELS" for l
    using that by (simp_all add: builder_new_def kept_def keeps_def all_files_def)
  obtain b ptrs' where b: "apply_edits builder_new es ptrs = Some (b, ptrs')" "length (bd_deleted b) = NUM_LEVELS" "length (bd_added b) = NUM_LEVELS"
      "length ptrs' = NUM_LEVELS" "\<forall>l < NUM_LEVELS. set (kept b base l) = edited es base l \<and> distinct (map fnum (all_files b base l)) \<and>
        set (all_files b base l) = set (v_files base ! l) \<union> (\<Union>e \<in> set es. set (new_at e l))"
    using apply_edits_ok [of es builder_new ptrs base] assms(2,3) new by (auto simp: edits_fit_def edited_def builder_new_def)
  have dist: "distinct (map fnum (kept b base l))" if "l < NUM_LEVELS" for l
    using b(5) that by (auto simp: kept_def all_files_def distinct_map intro: inj_on_subset)
  have bounds: "\<forall>f \<in> set (all_files b base l). bounds_in c K f" if "l < NUM_LEVELS" for l
    using b(5) assms(2) that unfolding edits_fit_def by simp
  have "sorted_wrt (apart c) (kept b base l)" if l: "l < NUM_LEVELS" "l > 0" for l
  proof -
    have "sorted_wrt (\<noteq>) (kept b base l)" using dist [OF l(1)] by (simp add: distinct_map distinct_pairwise)
    then show ?thesis
      by (rule sorted_wrt_mono_rel [rotated]) (use b(5) assms(2) l in \<open>simp add: edits_fit_def\<close>)
  qed
  moreover have "\<forall>f \<in> set (kept b base l). bounds_in c K f" if "l < NUM_LEVELS" for l
    using bounds [OF that] by (auto simp: kept_def all_files_def)
  moreover have "\<forall>f \<in> set (bd_added b ! l) \<union> set (v_files base ! l). smallest f \<in> K" if "l < NUM_LEVELS" for l
    using bounds [OF that] by (auto simp: all_files_def bounds_in_def)
  ultimately have "\<forall>l < NUM_LEVELS. level_good c K l (kept b base l) \<and> (\<forall>f \<in> set (bd_added b ! l) \<union> set (v_files base ! l). smallest f \<in> K)"
    by (simp add: level_good_def)
  from save_to_ok [OF assms(1) b(2,3) _ this, of U] assms(2) obtain b' bf vf where
    s: "save_to b c base (version_new U) = Some (b', base\<lparr>v_files := bf\<rparr>, (version_new U)\<lparr>v_files := vf\<rparr>)"
      "length bf = NUM_LEVELS" "\<forall>l < NUM_LEVELS. mset (bf ! l) = mset (v_files base ! l)"
      "length vf = NUM_LEVELS" "\<forall>l < NUM_LEVELS. saved c b base l (vf ! l)"
    by (auto simp: edits_fit_def)
  have "set (vf ! l) = edited es base l \<and> distinct (map fnum (vf ! l)) \<and> by_smallest c (vf ! l) \<and> (l > 0 \<longrightarrow> ascending c (vf ! l))"
    if "l < NUM_LEVELS" for l
  proof -
    have m: "mset (vf ! l) = mset (kept b base l)" using s(5) that by (simp add: saved_def)
    then have "mset (map fnum (vf ! l)) = mset (map fnum (kept b base l))" by simp
    from mset_eq_imp_distinct_iff [OF this] dist [OF that] have "distinct (map fnum (vf ! l))" by simp
    then show ?thesis using s(5) b(5) that mset_eq_setD [OF m] by (simp add: saved_def)
  qed
  then show thesis using that b(1,4) s(1-4) by blast
qed


section \<open>Properties\<close>

text \<open>C6: Collecting any sequence of edits in a builder and saving them to a new version neither panics nor loses a
  file: every level of the version has exactly the files that the edits, taken one after the other, leave of the base
  version, each once, in ascending order, and on the levels below the first the ranges of the files do not meet. So the
  version that is recovered from all edits of a manifest has the files of the version that was current. The edits must
  give new files fresh numbers and leave disjoint files on the lower levels.\<close>

theorem collected_edits_refine:
  assumes "cmp_order (cmp c) K" "edits_fit c K es base" "length ptrs = NUM_LEVELS"
  shows "\<exists>b ptrs' b' base' v. apply_edits builder_new es ptrs = Some (b, ptrs') \<and> save_to b c base (version_new U) = Some (b', base', v) \<and>
    (\<forall>l < NUM_LEVELS. set (v_files v ! l) = fold (\<lambda>e. edit_level e l) es (set (v_files base ! l)) \<and> distinct (v_files v ! l) \<and>
      sorted_wrt (\<lambda>f g. cmp_le (cmp c) (smallest f) (smallest g)) (v_files v ! l) \<and>
      (l > 0 \<longrightarrow> sorted_wrt (\<lambda>f g. cmp_lt (cmp c) (largest f) (smallest g)) (v_files v ! l)))"
proof -
  obtain b ptrs' b' bf vf where "apply_edits builder_new es ptrs = Some (b, ptrs')" "length ptrs' = NUM_LEVELS"
    "save_to b c base (version_new U) = Some (b', base\<lparr>v_files := bf\<rparr>, (version_new U)\<lparr>v_files := vf\<rparr>)"
    "length bf = NUM_LEVELS" "\<forall>l < NUM_LEVELS. mset (bf ! l) = mset (v_files base ! l)"
    "length vf = NUM_LEVELS" "\<forall>l < NUM_LEVELS. set (vf ! l) = edited es base l \<and> distinct (map fnum (vf ! l)) \<and> by_smallest c (vf ! l) \<and>
      (l > 0 \<longrightarrow> ascending c (vf ! l))"
    by (rule saved_edits [OF assms])
  then show ?thesis by (auto simp: edited_def distinct_map)
qed

theorem collected_edits_refine_witness:
  "\<exists>b ptrs' b' base' v.
    apply_edits builder_new [ve_add_file version_edit_new 1 (sample_file 5 6 9), ve_add_file (ve_delete_file version_edit_new 1 4) 2 (sample_file 4 1 3)]
      (replicate NUM_LEVELS []) = Some (b, ptrs') \<and>
    save_to b (InternalKeyCmp wire_codec DefaultCmp) (sample_version [] [sample_file 4 1 3]) (version_new DefaultCmp) = Some (b', base', v) \<and>
    set (v_files v ! 1) = {(sample_file 5 6 9)\<lparr>allowed_seeks := 100\<rparr>} \<and> set (v_files v ! 2) = {(sample_file 4 1 3)\<lparr>allowed_seeks := 100\<rparr>}"
proof -
  let ?c = "InternalKeyCmp wire_codec DefaultCmp" and ?base = "sample_version [] [sample_file 4 1 3]"
  let ?e1 = "ve_add_file version_edit_new 1 (sample_file 5 6 9)" and ?e2 = "ve_add_file (ve_delete_file version_edit_new 1 4) 2 (sample_file 4 1 3)"
  let ?f4 = "(sample_file 4 1 3)\<lparr>allowed_seeks := 100\<rparr>" and ?f5 = "(sample_file 5 6 9)\<lparr>allowed_seeks := 100\<rparr>"
  have new: "new_at ?e1 l = (if l = 1 then [?f5] else [])" "new_at ?e2 l = (if l = 2 then [?f4] else [])" for l
    by (simp_all add: new_at_def ve_add_file_def ve_delete_file_def version_edit_new_def seeks_for_def sample_file_def)
  have del: "deleted_at ?e1 l = {}" "deleted_at ?e2 l = (if l = 1 then {4} else {})" for l
    unfolding deleted_at_def new by (auto simp: ve_add_file_def ve_delete_file_def version_edit_new_def hs_insert_def)
  have files: "v_files ?base ! l = (if l = 1 then [sample_file 4 1 3] else [])" if "l < NUM_LEVELS" for l
    using that by (auto simp: sample_version_def NUM_LEVELS_def nth_Cons split: nat.split)
  have len: "length (v_files ?base) = NUM_LEVELS" by (simp add: sample_version_def NUM_LEVELS_def)
  have nums: "fnum (sample_file n a b) = n" for n a b by (simp add: sample_file_def)
  have edited: "edited [?e1, ?e2] ?base l = (if l = 1 then {?f5} else if l = 2 then {?f4} else {})" if "l < NUM_LEVELS" for l
    unfolding edited_def files [OF that] by (auto simp: edit_level_def new del nums simp del: One_nat_def)
  have "cmp DefaultCmp [1] [3] = Some Less" "cmp DefaultCmp [6] [9] = Some Less" by code_simp+
  then have bounds: "bounds_in ?c internal_keys (sample_file 4 1 3)" "bounds_in ?c internal_keys ?f4" "bounds_in ?c internal_keys ?f5"
    by (simp_all add: bounds_in_def in_internal_keys sample_file_def cmp_le_def cmp_internal_key_eq key_seq_cmp_def ikey_user_def)
  have "edit_levels_ok ?e1" "edit_levels_ok ?e2"
    by (simp_all add: edit_levels_ok_def ve_add_file_def ve_delete_file_def version_edit_new_def hs_insert_def NUM_LEVELS_def)
  then have "edits_fit ?c internal_keys [?e1, ?e2] ?base"
    unfolding edits_fit_def using len by (auto simp: edited files new nums bounds simp del: One_nat_def split: if_splits)
  from collected_edits_refine [OF bytewise.internal_order this, of "replicate NUM_LEVELS []" DefaultCmp] obtain b ptrs' b' base' v where
    v: "apply_edits builder_new [?e1, ?e2] (replicate NUM_LEVELS []) = Some (b, ptrs')" "save_to b ?c ?base (version_new DefaultCmp) = Some (b', base', v)"
      "\<forall>l < NUM_LEVELS. set (v_files v ! l) = edited [?e1, ?e2] ?base l"
    unfolding edited_def by auto
  then show ?thesis using edited [of 0] edited [of 1] edited [of 2]
    by (intro exI [of _ b] exI [of _ ptrs'] exI [of _ b'] exI [of _ base'] exI [of _ v])
      (simp add: NUM_LEVELS_def del: One_nat_def)
qed

end
