(* ===== verification/Db_Iter.thy ===== *)
theory Db_Iter
  imports Merging_Iter Version_Builder Mem_Table_Iter
begin

text \<open>
  The iterator over a database (\<open>src/src/db_iter.rs\<close>): it turns the entries of a merging iterator into the
  user keys and values that a snapshot shows. Its state holds the current version of the version set,
  whose seek statistics it updates, and the state of the random generator. The operations of the
  merging iterator are the parameter \<open>ops\<close>.
\<close>

definition READ_BYTES_PERIOD :: int where
  "READ_BYTES_PERIOD = 1048576"

text \<open>The \<open>%\<close> of signed integers, with the sign of the dividend; \<open>random\<close> gives a number of type \<open>isize\<close>.\<close>

definition random_period :: "('g \<Rightarrow> int \<times> 'g) \<Rightarrow> 'g \<Rightarrow> int \<times> 'g" where
  "random_period random g = (case random g of (r, g) \<Rightarrow> (sgn r * (\<bar>r\<bar> mod (2 * READ_BYTES_PERIOD)), g))"

record ('s, 'g) db_iter =
  di_cmp :: comparator
  di_version :: version
  di_iter :: 's
  di_ss :: sequence_number
  di_dir :: direction
  di_byte_count :: int
  di_valid :: bool
  di_savedkey :: bytes
  di_keybuf :: bytes
  di_savedval :: bytes
  di_valbuf :: bytes
  di_gen :: 'g

definition db_iter_new ::
    "('g \<Rightarrow> int \<times> 'g) \<Rightarrow> comparator \<Rightarrow> version \<Rightarrow> 's \<Rightarrow> sequence_number \<Rightarrow> 'g \<Rightarrow> ('s, 'g) db_iter" where
  "db_iter_new random c v iter ss g =
     (case random_period random g of (n, g) \<Rightarrow>
        \<lparr>di_cmp = c, di_version = v, di_iter = iter, di_ss = ss, di_dir = Forward, di_byte_count = n, di_valid = False,
         di_savedkey = [], di_keybuf = [], di_savedval = [], di_valbuf = [], di_gen = g\<rparr>)"

text \<open>The loop that draws periods; they may be negative, so that it need not end.\<close>

partial_function (option) add_periods :: "('g \<Rightarrow> int \<times> 'g) \<Rightarrow> int \<Rightarrow> 'g \<Rightarrow> (int \<times> 'g) option" where
  "add_periods random n g =
     (if n < 0 then case random_period random g of (p, g) \<Rightarrow> add_periods random (n + p) g else Some (n, g))"

definition di_record_read_sample ::
    "int_codec \<Rightarrow> ('g \<Rightarrow> int \<times> 'g) \<Rightarrow> nat \<Rightarrow> ('s, 'g) db_iter \<Rightarrow> ('s, 'g) db_iter run" where
  "di_record_read_sample ie random len di =
     (let n = di_byte_count di - int len
      in if n < 0
         then do { (_, v) \<leftarrow> record_read_sample ie (di_version di) (di_keybuf di);
                   (n, g) \<leftarrow> add_periods random n (di_gen di);
                   Some (di\<lparr>di_version := v, di_byte_count := n, di_gen := g\<rparr>) }
         else Some (di\<lparr>di_byte_count := n\<rparr>))"

text \<open>
  One round of the loop of \<open>find_next_user_entry\<close> up to the call of \<open>advance\<close>: whether the entry is
  shown, and whether keys are skipped from here on.
\<close>

definition next_entry ::
    "int_codec \<Rightarrow> ('g \<Rightarrow> int \<times> 'g) \<Rightarrow> 's iter_ops \<Rightarrow> ('s, 'g) db_iter \<Rightarrow> bool \<Rightarrow> (bool \<times> ('s, 'g) db_iter \<times> bool) run" where
  "next_entry ie random ops di skipping =
     do { cur \<leftarrow> it_current ops (di_iter di);
          let di = (case cur of None \<Rightarrow> di | Some (k, v) \<Rightarrow> di\<lparr>di_keybuf := k, di_savedval := v\<rparr>);
          di \<leftarrow> di_record_read_sample ie random (length (di_keybuf di) + length (di_savedval di)) di;
          (typ, seq, ukey) \<leftarrow> parse_internal_key ie (di_keybuf di);
          if seq \<le> di_ss di
          then (case typ of
                  TypeDeletion \<Rightarrow> Some (False, di\<lparr>di_savedkey := ukey\<rparr>, True)
                | TypeValue \<Rightarrow>
                    do { hidden \<leftarrow> (if skipping then do { c \<leftarrow> cmp (di_cmp di) ukey (di_savedkey di); Some (c \<le> Equal) }
                                   else Some False);
                         if hidden then Some (False, di, skipping)
                         else Some (True, di\<lparr>di_valid := True, di_savedkey := []\<rparr>, skipping) })
          else Some (False, di, skipping) }"

partial_function (option) next_loop ::
    "int_codec \<Rightarrow> ('g \<Rightarrow> int \<times> 'g) \<Rightarrow> 's iter_ops \<Rightarrow> ('s, 'g) db_iter \<Rightarrow> bool \<Rightarrow> (bool \<times> ('s, 'g) db_iter) option" where
  "next_loop ie random ops di skipping =
     (if it_valid ops (di_iter di)
      then next_entry ie random ops di skipping \<bind> (\<lambda>(found, di, skipping).
        if found then Some (True, di)
        else it_advance ops (di_iter di) \<bind> (\<lambda>(_, s). next_loop ie random ops (di\<lparr>di_iter := s\<rparr>) skipping))
      else Some (False, di\<lparr>di_savedkey := [], di_valid := False\<rparr>))"

definition find_next_user_entry ::
    "int_codec \<Rightarrow> ('g \<Rightarrow> int \<times> 'g) \<Rightarrow> 's iter_ops \<Rightarrow> ('s, 'g) db_iter \<Rightarrow> bool \<Rightarrow> (bool \<times> ('s, 'g) db_iter) run" where
  "find_next_user_entry ie random ops di skipping =
     do { ensure (it_valid ops (di_iter di)); ensure (di_dir di = Forward); next_loop ie random ops di skipping }"

text \<open>The loop of \<open>find_prev_user_entry\<close>: one round, which may end it, and the loop.\<close>

definition prev_entry ::
    "int_codec \<Rightarrow> ('g \<Rightarrow> int \<times> 'g) \<Rightarrow> 's iter_ops \<Rightarrow> ('s, 'g) db_iter \<Rightarrow> value_type \<Rightarrow> (bool \<times> ('s, 'g) db_iter \<times> value_type) run" where
  "prev_entry ie random ops di value_type =
     do { cur \<leftarrow> it_current ops (di_iter di);
          let di = (case cur of None \<Rightarrow> di | Some (k, v) \<Rightarrow> di\<lparr>di_keybuf := k, di_valbuf := v\<rparr>);
          di \<leftarrow> di_record_read_sample ie random (length (di_keybuf di) + length (di_valbuf di)) di;
          (typ, seq, ukey) \<leftarrow> parse_internal_key ie (di_keybuf di);
          if seq > 0 \<and> seq \<le> di_ss di
          then do { stop \<leftarrow> (if value_type \<noteq> TypeDeletion
                            then do { c \<leftarrow> cmp (di_cmp di) ukey (di_savedkey di); Some (c = Less) } else Some False);
                    if stop then Some (True, di, value_type)
                    else Some (False, (if typ = TypeDeletion then di\<lparr>di_savedkey := [], di_savedval := []\<rparr>
                           else di\<lparr>di_savedkey := ukey, di_savedval := di_valbuf di, di_valbuf := di_savedval di\<rparr>), typ) }
          else Some (False, di, value_type) }"

partial_function (option) prev_user_loop ::
    "int_codec \<Rightarrow> ('g \<Rightarrow> int \<times> 'g) \<Rightarrow> 's iter_ops \<Rightarrow> ('s, 'g) db_iter \<Rightarrow> value_type \<Rightarrow> (('s, 'g) db_iter \<times> value_type) option" where
  "prev_user_loop ie random ops di value_type =
     (if it_valid ops (di_iter di)
      then prev_entry ie random ops di value_type \<bind> (\<lambda>(stop, di, value_type).
        if stop then Some (di, value_type)
        else it_prev ops (di_iter di) \<bind> (\<lambda>(_, s). prev_user_loop ie random ops (di\<lparr>di_iter := s\<rparr>) value_type))
      else Some (di, value_type))"

definition find_prev_user_entry ::
    "int_codec \<Rightarrow> ('g \<Rightarrow> int \<times> 'g) \<Rightarrow> 's iter_ops \<Rightarrow> ('s, 'g) db_iter \<Rightarrow> (bool \<times> ('s, 'g) db_iter) run" where
  "find_prev_user_entry ie random ops di =
     do { ensure (di_dir di = Reverse);
          (di, value_type) \<leftarrow> prev_user_loop ie random ops di TypeDeletion;
          Some (True, if value_type = TypeDeletion
                      then di\<lparr>di_valid := False, di_savedkey := [], di_savedval := [], di_dir := Forward\<rparr>
                      else di\<lparr>di_valid := True\<rparr>) }"

definition di_seek_to_first :: "int_codec \<Rightarrow> ('g \<Rightarrow> int \<times> 'g) \<Rightarrow> 's iter_ops \<Rightarrow> ('s, 'g) db_iter \<Rightarrow> ('s, 'g) db_iter run" where
  "di_seek_to_first ie random ops di =
     do { s \<leftarrow> seek_to_first ops (di_iter di);
          let di = di\<lparr>di_dir := Forward, di_savedval := [], di_iter := s\<rparr>;
          if it_valid ops s then do { (_, di) \<leftarrow> find_next_user_entry ie random ops di False; Some di }
          else Some (di\<lparr>di_valid := False\<rparr>) }"

definition di_advance :: "int_codec \<Rightarrow> ('g \<Rightarrow> int \<times> 'g) \<Rightarrow> 's iter_ops \<Rightarrow> ('s, 'g) db_iter \<Rightarrow> (bool \<times> ('s, 'g) db_iter) run" where
  "di_advance ie random ops di =
     (if \<not> di_valid di then do { di \<leftarrow> di_seek_to_first ie random ops di; Some (di_valid di, di) }
      else case di_dir di of
          Reverse \<Rightarrow>
            do { s \<leftarrow> (if \<not> it_valid ops (di_iter di) then seek_to_first ops (di_iter di)
                       else do { (_, s) \<leftarrow> it_advance ops (di_iter di); Some s });
                 let di = di\<lparr>di_dir := Forward, di_iter := s\<rparr>;
                 if \<not> it_valid ops s then Some (False, di\<lparr>di_valid := False, di_savedkey := []\<rparr>)
                 else find_next_user_entry ie random ops di True }
        | Forward \<Rightarrow>
            do { cur \<leftarrow> it_current ops (di_iter di);
                 (k, v) \<leftarrow> cur;
                 ukey \<leftarrow> truncate_to_userkey k;
                 find_next_user_entry ie random ops (di\<lparr>di_savedkey := ukey, di_savedval := v\<rparr>) True })"

definition di_current :: "'s iter_ops \<Rightarrow> ('s, 'g) db_iter \<Rightarrow> (bytes \<times> bytes) option run" where
  "di_current ops di =
     (if \<not> di_valid di then Some None
      else case di_dir di of
          Forward \<Rightarrow> do { cur \<leftarrow> it_current ops (di_iter di); (k, v) \<leftarrow> cur; ukey \<leftarrow> truncate_to_userkey k; Some (Some (ukey, v)) }
        | Reverse \<Rightarrow> Some (Some (di_savedkey di, di_savedval di)))"

text \<open>The loop of \<open>prev\<close> that leaves the current user key; nothing when the entries end.\<close>

partial_function (option) leave_user_key :: "'s iter_ops \<Rightarrow> ('s, 'g) db_iter \<Rightarrow> (bool \<times> ('s, 'g) db_iter) option" where
  "leave_user_key ops di =
     it_prev ops (di_iter di) \<bind> (\<lambda>(_, s).
     if \<not> it_valid ops s then Some (False, di\<lparr>di_iter := s, di_valid := False, di_savedkey := [], di_savedval := []\<rparr>)
     else it_current ops s \<bind> (\<lambda>cur.
       truncate_to_userkey (case cur of None \<Rightarrow> di_keybuf di | Some (k, _) \<Rightarrow> k) \<bind> (\<lambda>ukey.
       cmp (di_cmp di) ukey (di_savedkey di) \<bind> (\<lambda>c.
         let di = di\<lparr>di_iter := s, di_keybuf := ukey, di_savedval := (case cur of None \<Rightarrow> di_savedval di | Some (_, v) \<Rightarrow> v)\<rparr>
         in if c = Less then Some (True, di) else leave_user_key ops di))))"

definition di_prev :: "int_codec \<Rightarrow> ('g \<Rightarrow> int \<times> 'g) \<Rightarrow> 's iter_ops \<Rightarrow> ('s, 'g) db_iter \<Rightarrow> (bool \<times> ('s, 'g) db_iter) run" where
  "di_prev ie random ops di =
     (if \<not> di_valid di then Some (False, di)
      else case di_dir di of
          Reverse \<Rightarrow> find_prev_user_entry ie random ops di
        | Forward \<Rightarrow>
            do { cur \<leftarrow> it_current ops (di_iter di);
                 let (k, v) = (case cur of None \<Rightarrow> (di_savedkey di, di_savedval di) | Some kv \<Rightarrow> kv);
                 ukey \<leftarrow> truncate_to_userkey k;
                 (ok, di) \<leftarrow> leave_user_key ops (di\<lparr>di_savedkey := ukey, di_savedval := v\<rparr>);
                 if \<not> ok then Some (False, di) else find_prev_user_entry ie random ops (di\<lparr>di_dir := Reverse\<rparr>) })"

definition di_seek :: "int_codec \<Rightarrow> ('g \<Rightarrow> int \<times> 'g) \<Rightarrow> 's iter_ops \<Rightarrow> bytes \<Rightarrow> ('s, 'g) db_iter \<Rightarrow> ('s, 'g) db_iter run" where
  "di_seek ie random ops to di =
     do { lk \<leftarrow> lookup_key_new ie to (di_ss di);
          k \<leftarrow> internal_key lk;
          s \<leftarrow> it_seek ops k (di_iter di);
          let di = di\<lparr>di_dir := Forward, di_savedval := [], di_savedkey := k, di_iter := s\<rparr>;
          if it_valid ops s then do { (_, di) \<leftarrow> find_next_user_entry ie random ops di False; Some di }
          else Some (di\<lparr>di_valid := False\<rparr>) }"

definition di_reset :: "'s iter_ops \<Rightarrow> ('s, 'g) db_iter \<Rightarrow> ('s, 'g) db_iter run" where
  "di_reset ops di =
     do { s \<leftarrow> it_reset ops (di_iter di);
          Some (di\<lparr>di_iter := s, di_valid := False, di_savedkey := [], di_savedval := [], di_keybuf := []\<rparr>) }"

definition db_iter_ops :: "int_codec \<Rightarrow> ('g \<Rightarrow> int \<times> 'g) \<Rightarrow> 's iter_ops \<Rightarrow> ('s, 'g) db_iter iter_ops" where
  "db_iter_ops ie random ops =
     \<lparr>it_advance = di_advance ie random ops, it_current = di_current ops, it_seek = di_seek ie random ops,
      it_reset = di_reset ops, it_valid = di_valid, it_prev = di_prev ie random ops\<rparr>"


section \<open>Read samples\<close>

text \<open>Versions in which taking a sample does not fail; taking one gives another.\<close>

definition sample_ok :: "comparator \<Rightarrow> version \<Rightarrow> bool" where
  "sample_ok U v \<longleftrightarrow> v_user_cmp v = U \<and> length (v_files v) = NUM_LEVELS \<and>
     (\<forall>fs \<in> set (v_files v). \<forall>f \<in> set fs. 8 \<le> length (smallest f) \<and> 8 \<le> length (largest f))"

lemma find_file_loop_total:
  assumes "\<forall>f \<in> set files. \<exists>c. cmp icmp (largest f) key = Some c" "right \<le> length files"
  shows "\<exists>r. find_file_loop icmp files key left right = Some r \<and> r \<le> length files"
  using assms(2)
proof (induction "right - left" arbitrary: left right rule: less_induct)
  case less
  let ?m = "(left + right) div 2"
  show ?case
  proof (cases "left < right")
    case True
    then have m: "?m < length files" using less.prems by simp
    then obtain c where c: "cmp icmp (largest (files ! ?m)) key = Some c" using assms(1) by fastforce
    have "right - (?m + 1) < right - left" "?m - left < right - left" using True by auto
    then show ?thesis
      using less.hyps [of right "?m + 1"] less.hyps [of ?m left] True less.prems m c
      by (subst find_file_loop.simps) (simp add: index_def Let_def)
  qed (use less.prems in \<open>simp add: find_file_loop.simps\<close>)
qed

context user_cmp
begin

lemma overlapping_level_total:
  assumes "\<forall>f \<in> set files. 8 \<le> length (smallest f) \<and> 8 \<le> length (largest f)" "8 \<le> length ik"
  shows "\<exists>fs. overlapping_level ie U ik ukey files = Some fs" "\<exists>fs. overlapping_level0 ie U ukey files = Some fs"
proof -
  have "\<exists>c. cmp (InternalKeyCmp ie U) (largest f) ik = Some c" if "f \<in> set files" for f
    using assms that user_total [of "ikey_user (largest f)" "ikey_user ik"] by (auto simp: cmp_internal_key_eq internal_keys_def key_seq_cmp_def)
  with find_file_loop_total [of files "InternalKeyCmp ie U" ik "length files" 0] obtain r where
    r: "find_file_loop (InternalKeyCmp ie U) files ik 0 (length files) = Some r" "r \<le> length files" by auto
  obtain c where "r < length files \<Longrightarrow> cmp U ukey (ikey_user (smallest (files ! r))) = Some c" using user_total by blast
  then show "\<exists>fs. overlapping_level ie U ik ukey files = Some fs"
    using r assms(1) by (auto simp: overlapping_level_def find_file_def index_def user_part_def parse_internal_key_eq)
  show "\<exists>fs. overlapping_level0 ie U ukey files = Some fs"
    using assms(1)
  proof (induction files)
    case (Cons f files)
    obtain c d where "cmp U ukey (ikey_user (smallest f)) = Some c" "cmp U ukey (ikey_user (largest f)) = Some d" using user_total by metis
    then show ?case using Cons by (auto simp: user_part_def parse_internal_key_eq)
  qed simp
qed

lemma record_read_sample_total:
  assumes "sample_ok U v" "8 \<le> length k"
  shows "\<exists>b v'. record_read_sample ie v k = Some (b, v') \<and> sample_ok U v'"
proof -
  have v: "v_user_cmp v = U" "length (v_files v) = NUM_LEVELS"
      "\<forall>fs \<in> set (v_files v). \<forall>f \<in> set fs. 8 \<le> length (smallest f) \<and> 8 \<le> length (largest f)"
    using assms(1) by (simp_all add: sample_ok_def)
  have "\<exists>r. overlapping_levels ie v k u ls = Some r" if "\<forall>l \<in> set ls. l < NUM_LEVELS" for ls u
    using that
  proof (induction ls)
    case (Cons l ls)
    then have l: "v_files v ! l \<in> set (v_files v)" "l < length (v_files v)" using v(2) by simp_all
    then obtain fs where "overlapping_level ie U k u (v_files v ! l) = Some fs"
      using overlapping_level_total(1) [of "v_files v ! l" k ie u] v(3) assms(2) by blast
    then show ?case using Cons l(2) v(1) by (auto simp: index_def)
  qed simp
  then obtain r where r: "overlapping_levels ie v k (ikey_user k) [1..<NUM_LEVELS] = Some r" by fastforce
  have "v_files v ! 0 \<in> set (v_files v)" "0 < length (v_files v)" using v(2) by (simp_all add: NUM_LEVELS_def)
  then obtain l0 where "overlapping_level0 ie U (ikey_user k) (v_files v ! 0) = Some l0"
    using overlapping_level_total(2) [of "v_files v ! 0" k ie "ikey_user k"] v(3) assms(2) by blast
  then have "get_overlapping ie v k = Some (newest_first l0 # r)"
    using r v assms(2) \<open>0 < length (v_files v)\<close> by (simp add: get_overlapping_def user_part_def parse_internal_key_eq index_def)
  moreover have "sample_ok U (snd (update_stats v st))" for st
    using assms(1) by (force simp: sample_ok_def update_stats_def set_allowed_seeks_def split: option.splits)
  ultimately show ?thesis using assms(1) by (simp add: record_read_sample_def Let_def) (metis prod.collapse snd_conv)
qed

end

text \<open>Random numbers for which drawing periods ends.\<close>

definition periods_end :: "('g \<Rightarrow> int \<times> 'g) \<Rightarrow> bool" where
  "periods_end random \<longleftrightarrow> (\<forall>n g. add_periods random n g \<noteq> None)"

lemma di_sample_total:
  assumes "user_cmp U" "sample_ok U (di_version di)" "8 \<le> length (di_keybuf di)" "periods_end random"
  shows "\<exists>v n g. di_record_read_sample ie random len di = Some (di\<lparr>di_version := v, di_byte_count := n, di_gen := g\<rparr>) \<and> sample_ok U v"
proof -
  obtain b v where v: "record_read_sample ie (di_version di) (di_keybuf di) = Some (b, v)" "sample_ok U v"
    using user_cmp.record_read_sample_total [OF assms(1-3)] by blast
  obtain n g where "add_periods random (di_byte_count di - int len) (di_gen di) = Some (n, g)"
    using assms(4) by (force simp: periods_end_def)
  then show ?thesis
    using v assms(2) by (cases "di_byte_count di - int len < 0")
      (force simp: di_record_read_sample_def Let_def, force simp: di_record_read_sample_def intro!: exI [of _ "di_version di"] exI [of _ "di_gen di"])
qed


section \<open>What a snapshot shows\<close>

text \<open>
  The value of a user key at a sequence number, given all entries: that of the newest entry of the
  key that is not after the number, unless it is a deletion.
\<close>

definition shows_value :: "int_codec \<Rightarrow> comparator \<Rightarrow> sequence_number \<Rightarrow> (bytes \<times> bytes) list \<Rightarrow> bytes \<Rightarrow> bytes \<Rightarrow> bool" where
  "shows_value ie U n es u val \<longleftrightarrow> (\<exists>k. (k, val) \<in> set es \<and> ikey_user k = u \<and> ikey_type ie k = TypeValue \<and> ikey_seq ie k \<le> n \<and>
     (\<forall>k' val'. (k', val') \<in> set es \<longrightarrow> cmp_eq (cmp U) (ikey_user k') u \<longrightarrow> ikey_seq ie k' \<le> n \<longrightarrow> ikey_seq ie k' \<le> ikey_seq ie k))"

text \<open>The entries a scan shows, given the user key up to which entries are skipped.\<close>

definition hidden_by :: "comparator \<Rightarrow> bytes option \<Rightarrow> bytes \<Rightarrow> bool" where
  "hidden_by U sk u \<longleftrightarrow> (case sk of None \<Rightarrow> False | Some s \<Rightarrow> cmp_le (cmp U) u s)"

fun view :: "int_codec \<Rightarrow> comparator \<Rightarrow> sequence_number \<Rightarrow> bytes option \<Rightarrow> (bytes \<times> bytes) list \<Rightarrow> (bytes \<times> bytes) list" where
  "view ie U n sk [] = []"
| "view ie U n sk ((k, v) # es) =
     (if ikey_seq ie k > n then view ie U n sk es
      else if ikey_type ie k = TypeDeletion then view ie U n (Some (ikey_user k)) es
      else if hidden_by U sk (ikey_user k) then view ie U n sk es
      else (ikey_user k, v) # view ie U n (Some (ikey_user k)) es)"

definition after_key :: "comparator \<Rightarrow> bytes option \<Rightarrow> bytes \<Rightarrow> bool" where
  "after_key U sk u \<longleftrightarrow> (case sk of None \<Rightarrow> True | Some s \<Rightarrow> cmp_lt (cmp U) s u)"

definition entries_sorted_by :: "int_codec \<Rightarrow> comparator \<Rightarrow> (bytes \<times> bytes) list \<Rightarrow> bool" where
  "entries_sorted_by ie U es \<longleftrightarrow> (\<forall>(k, v) \<in> set es. 8 \<le> length k) \<and> sorted_by (InternalKeyCmp ie U) es"

context user_cmp
begin

lemma internal_lt:
  "8 \<le> length a \<Longrightarrow> 8 \<le> length b \<Longrightarrow> cmp_lt (cmp (InternalKeyCmp ie U)) a b \<longleftrightarrow>
     cmp_lt (cmp U) (ikey_user a) (ikey_user b) \<or> cmp_eq (cmp U) (ikey_user a) (ikey_user b) \<and> ikey_seq ie b < ikey_seq ie a"
  using key_seq_cmp_cases by (auto simp: cmp_internal_key_eq internal_keys_def cmp_lt_def cmp_eq_def)

lemma later_entries:
  assumes "entries_sorted_by ie U ((k, v) # es)" "(k', v') \<in> set es"
  shows "cmp_lt (cmp U) (ikey_user k) (ikey_user k') \<or> cmp_eq (cmp U) (ikey_user k) (ikey_user k') \<and> ikey_seq ie k' < ikey_seq ie k"
  using assms internal_lt [of k k' ie] by (fastforce simp: entries_sorted_by_def sorted_by_def)

lemma eq_sym': "cmp_eq (cmp U) a b \<Longrightarrow> cmp_eq (cmp U) b a"
  using user.cmp_flip [of a b] by (simp add: cmp_eq_def)

lemma eq_trans': "cmp_eq (cmp U) a b \<Longrightarrow> cmp_eq (cmp U) b c \<Longrightarrow> cmp_eq (cmp U) a c"
  using user.cmp_equal_cong [of a b c] by (simp add: cmp_eq_def)

lemma lt_not_eq: "cmp_lt (cmp U) a b \<Longrightarrow> \<not> cmp_eq (cmp U) a b" "cmp_lt (cmp U) a b \<Longrightarrow> \<not> cmp_eq (cmp U) b a"
  using eq_sym' by (auto simp: cmp_lt_def cmp_eq_def)

text \<open>How one more entry in front changes what is shown.\<close>

lemma shows_value_Cons:
  assumes "entries_sorted_by ie U ((k, v) # es)"
  shows "ikey_seq ie k > n \<Longrightarrow> shows_value ie U n ((k, v) # es) u val \<longleftrightarrow> shows_value ie U n es u val"
    "\<not> cmp_eq (cmp U) (ikey_user k) u \<Longrightarrow> shows_value ie U n ((k, v) # es) u val \<longleftrightarrow> shows_value ie U n es u val"
    "ikey_seq ie k \<le> n \<Longrightarrow> cmp_eq (cmp U) (ikey_user k) u \<Longrightarrow>
      shows_value ie U n ((k, v) # es) u val \<longleftrightarrow> ikey_type ie k = TypeValue \<and> ikey_user k = u \<and> val = v"
proof -
  note later = later_entries [OF assms]
  show "ikey_seq ie k > n \<Longrightarrow> shows_value ie U n ((k, v) # es) u val \<longleftrightarrow> shows_value ie U n es u val"
    unfolding shows_value_def by (rule ex_cong1) auto
  show "\<not> cmp_eq (cmp U) (ikey_user k) u \<Longrightarrow> shows_value ie U n ((k, v) # es) u val \<longleftrightarrow> shows_value ie U n es u val"
    unfolding shows_value_def using user.cmp_refl [of u] by (intro ex_cong1) (auto simp: cmp_eq_def)
  assume le: "ikey_seq ie k \<le> n" and eq: "cmp_eq (cmp U) (ikey_user k) u"
  have less: "ikey_seq ie k' < ikey_seq ie k" if "(k', v') \<in> set es" "cmp_eq (cmp U) (ikey_user k') u" for k' v'
    using later [OF that(1)] eq_trans' [OF eq eq_sym' [OF that(2)]] lt_not_eq(1) by blast
  show "shows_value ie U n ((k, v) # es) u val \<longleftrightarrow> ikey_type ie k = TypeValue \<and> ikey_user k = u \<and> val = v"
  proof
    assume "shows_value ie U n ((k, v) # es) u val"
    then obtain k0 where k0: "(k0, val) \<in> set ((k, v) # es)" "ikey_user k0 = u" "ikey_type ie k0 = TypeValue"
        "ikey_seq ie k \<le> ikey_seq ie k0"
      using le eq unfolding shows_value_def by (metis list.set_intros(1))
    have "cmp_eq (cmp U) (ikey_user k0) u" using k0(2) user.cmp_refl [of u] by (simp add: cmp_eq_def)
    then have "(k0, val) = (k, v)" using k0(1,4) less [of k0 val] by (auto simp: not_less)
    then show "ikey_type ie k = TypeValue \<and> ikey_user k = u \<and> val = v" using k0 by simp
  next
    assume "ikey_type ie k = TypeValue \<and> ikey_user k = u \<and> val = v"
    then show "shows_value ie U n ((k, v) # es) u val"
      using le less by (auto simp: shows_value_def intro!: exI [of _ k] dest: less_imp_le)
  qed
qed

lemma view_spec:
  assumes "entries_sorted_by ie U es" "\<forall>s. sk = Some s \<longrightarrow> (\<forall>k v. (k, v) \<in> set es \<longrightarrow> cmp_le (cmp U) s (ikey_user k))"
  shows "(\<forall>u val. (u, val) \<in> set (view ie U n sk es) \<longleftrightarrow> shows_value ie U n es u val \<and> after_key U sk u) \<and>
    sorted_wrt (\<lambda>x y. cmp_lt (cmp U) (fst x) (fst y)) (view ie U n sk es)"
  using assms
proof (induction es arbitrary: sk)
  case (Cons e es)
  obtain k v where e: "e = (k, v)" by (cases e)
  have sub: "entries_sorted_by ie U es" using Cons.prems(1) by (simp add: e entries_sorted_by_def sorted_by_def)
  note later = later_entries [OF Cons.prems(1) [unfolded e]] and vis = shows_value_Cons [OF Cons.prems(1) [unfolded e]]
  have sk': "\<forall>s. sk = Some s \<longrightarrow> (\<forall>k v. (k, v) \<in> set es \<longrightarrow> cmp_le (cmp U) s (ikey_user k))" using Cons.prems(2) by (simp add: e)
  have next_k: "\<forall>s. Some (ikey_user k) = Some s \<longrightarrow> (\<forall>k v. (k, v) \<in> set es \<longrightarrow> cmp_le (cmp U) s (ikey_user k))"
    using later user.le_cases by auto
  note IH = Cons.IH [OF sub sk'] and IHk = Cons.IH [OF sub next_k]
  have before: "cmp_le (cmp U) s (ikey_user k)" if "sk = Some s" for s using Cons.prems(2) that by (simp add: e)
  have after: "cmp_lt (cmp U) (ikey_user k) u \<Longrightarrow> after_key U sk u" for u
    using before user.le_lt_trans by (auto simp: after_key_def split: option.splits)
  have shown_es: "shows_value ie U n es u val \<Longrightarrow> cmp_le (cmp U) (ikey_user k) u" for u val
    using next_k by (auto simp: shows_value_def)
  have new: "shows_value ie U n es u val \<Longrightarrow> \<not> cmp_eq (cmp U) (ikey_user k) u \<Longrightarrow> cmp_lt (cmp U) (ikey_user k) u" for u val
    using shown_es user.le_cases by blast
  note facts = new lt_not_eq(1) [of "ikey_user k"] after vis
  consider "ikey_seq ie k > n" | "ikey_seq ie k \<le> n" "ikey_type ie k = TypeDeletion"
    | s where "ikey_seq ie k \<le> n" "ikey_type ie k = TypeValue" "sk = Some s" "cmp_le (cmp U) (ikey_user k) s"
    | "ikey_seq ie k \<le> n" "ikey_type ie k = TypeValue" "\<not> (\<exists>s. sk = Some s \<and> cmp_le (cmp U) (ikey_user k) s)"
    by (cases "ikey_seq ie k > n"; cases "ikey_type ie k") (auto simp: not_less)
  then show ?case
  proof cases
    case 1 then show ?thesis using IH vis(1) by (simp add: e)
  next
    case 2
    then have "shows_value ie U n ((k, v) # es) u val \<and> after_key U sk u \<longleftrightarrow> shows_value ie U n es u val \<and> cmp_lt (cmp U) (ikey_user k) u" for u val
      using facts by (cases "cmp_eq (cmp U) (ikey_user k) u") auto
    then show ?thesis using 2 leD [OF 2(1)] IHk by (simp add: e after_key_def)
  next
    case 3
    have "\<not> cmp_lt (cmp U) s u" if "cmp_eq (cmp U) (ikey_user k) u" for u
      using 3(4) that user.le_lt_trans [of "ikey_user k" s u] lt_not_eq(1) by auto
    then have "shows_value ie U n ((k, v) # es) u val \<and> after_key U sk u \<longleftrightarrow> shows_value ie U n es u val \<and> after_key U sk u" for u val
      using vis 3(3) by (cases "cmp_eq (cmp U) (ikey_user k) u") (auto simp: after_key_def dest: shown_es)
    then show ?thesis using 3 leD [OF 3(1)] IH by (simp add: e hidden_by_def)
  next
    case 4
    have "after_key U sk (ikey_user k)" using 4(3) before user.not_lt by (auto simp: after_key_def split: option.splits)
    then have "shows_value ie U n ((k, v) # es) u val \<and> after_key U sk u \<longleftrightarrow>
        u = ikey_user k \<and> val = v \<or> shows_value ie U n es u val \<and> cmp_lt (cmp U) (ikey_user k) u" for u val
      using facts 4 user.cmp_refl [of u] by (cases "cmp_eq (cmp U) (ikey_user k) u") (auto simp: cmp_eq_def)
    then show ?thesis using 4 leD [OF 4(1)] IHk by (auto simp: e after_key_def hidden_by_def split: option.splits)
  qed
qed (simp add: shows_value_def)

end


section \<open>A scan in the forward direction\<close>

text \<open>A database iterator that moves forward and whose samples succeed; one that is at the first of the given entries.\<close>

definition di_ok :: "comparator \<Rightarrow> sequence_number \<Rightarrow> ('s, 'g) db_iter \<Rightarrow> bool" where
  "di_ok U n di \<longleftrightarrow> di_cmp di = U \<and> di_ss di = n \<and> di_dir di = Forward \<and> sample_ok U (di_version di)"

definition long_keys :: "(bytes \<times> bytes) list \<Rightarrow> bool" where
  "long_keys es \<longleftrightarrow> (\<forall>(k, v) \<in> set es. 8 \<le> length k)"

definition shows_from :: "int_codec \<Rightarrow> comparator \<Rightarrow> 's iter_ops \<Rightarrow> ('s, 'g) db_iter \<Rightarrow> (bytes \<times> bytes) list \<Rightarrow> bool" where
  "shows_from ie U ops di ws \<longleftrightarrow> di_valid di = (ws \<noteq> []) \<and>
     (ws \<noteq> [] \<longrightarrow> (\<exists>k v es. yields ops (di_iter di) ((k, v) # es) \<and> long_keys ((k, v) # es) \<and> ikey_seq ie k \<le> di_ss di \<and>
        ikey_type ie k = TypeValue \<and> ws = (ikey_user k, v) # view ie U (di_ss di) (Some (ikey_user k)) es))"

context user_cmp
begin

lemma next_entry_ok:
  assumes "di_ok U n di" "yields ops (di_iter di) ((k, v) # es)" "8 \<le> length k" "periods_end random"
  obtains d where "di_ok U n d" "di_iter d = di_iter di" "di_savedkey d = di_savedkey di"
    "next_entry ie random ops di skipping =
       Some (if ikey_seq ie k \<le> n
             then if ikey_type ie k = TypeDeletion then (False, d\<lparr>di_savedkey := ikey_user k\<rparr>, True)
                  else if hidden_by U (if skipping then Some (di_savedkey di) else None) (ikey_user k) then (False, d, skipping)
                  else (True, d\<lparr>di_valid := True, di_savedkey := []\<rparr>, skipping)
             else (False, d, skipping))"
proof -
  let ?di = "di\<lparr>di_keybuf := k, di_savedval := v\<rparr>"
  have "sample_ok U (di_version ?di)" "8 \<le> length (di_keybuf ?di)" using assms(1,3) by (simp_all add: di_ok_def)
  from di_sample_total [OF user_cmp_axioms this assms(4), of ie "length k + length v"] obtain v' b g where
    d: "di_record_read_sample ie random (length k + length v) ?di = Some (?di\<lparr>di_version := v', di_byte_count := b, di_gen := g\<rparr>)" "sample_ok U v'"
    by blast
  let ?d = "?di\<lparr>di_version := v', di_byte_count := b, di_gen := g\<rparr>"
  obtain c where "cmp U (ikey_user k) (di_savedkey di) = Some c" using user_total by blast
  then have "next_entry ie random ops di skipping =
       Some (if ikey_seq ie k \<le> n
             then if ikey_type ie k = TypeDeletion then (False, ?d\<lparr>di_savedkey := ikey_user k\<rparr>, True)
                  else if hidden_by U (if skipping then Some (di_savedkey di) else None) (ikey_user k) then (False, ?d, skipping)
                  else (True, ?d\<lparr>di_valid := True, di_savedkey := []\<rparr>, skipping)
             else (False, ?d, skipping))"
    using d(1) assms(1-3) by (cases "ikey_type ie k"; cases c) (simp_all add: next_entry_def di_ok_def parse_internal_key_eq hidden_by_def cmp_le_def Let_def)
  moreover have "di_ok U n ?d" using assms(1) d(2) by (simp add: di_ok_def)
  ultimately show thesis using that [of ?d] by simp
qed

lemma next_loop_view:
  assumes "periods_end random" "di_ok U n di" "yields ops (di_iter di) es" "long_keys es" "sk = (if skipping then Some (di_savedkey di) else None)"
  shows "\<exists>di'. next_loop ie random ops di skipping = Some (view ie U n sk es \<noteq> [], di') \<and> di_ok U n di' \<and> shows_from ie U ops di' (view ie U n sk es)"
  using assms(2-)
proof (induction es arbitrary: di sk skipping)
  case Nil
  then show ?case by (subst next_loop.simps) (simp add: shows_from_def di_ok_def)
next
  case (Cons e es)
  obtain k v where e: "e = (k, v)" by (cases e)
  have len: "8 \<le> length k" "long_keys es" using Cons.prems(3) by (auto simp: e long_keys_def)
  obtain s where s: "it_advance ops (di_iter di) = Some (es \<noteq> [], s)" "yields ops s es" using Cons.prems(2) by (auto simp: e)
  obtain d where d: "di_ok U n d" "di_iter d = di_iter di" "di_savedkey d = di_savedkey di"
    "next_entry ie random ops di skipping =
       Some (if ikey_seq ie k \<le> n
             then if ikey_type ie k = TypeDeletion then (False, d\<lparr>di_savedkey := ikey_user k\<rparr>, True)
                  else if hidden_by U sk (ikey_user k) then (False, d, skipping)
                  else (True, d\<lparr>di_valid := True, di_savedkey := []\<rparr>, skipping)
             else (False, d, skipping))"
    by (rule next_entry_ok [OF Cons.prems(1) Cons.prems(2) [unfolded e] len(1) assms(1), where ie = ie and skipping = skipping, folded Cons.prems(4)])
  have valid: "it_valid ops (di_iter di)" using Cons.prems(2) by (simp add: e)
  note step = next_loop.simps [of ie random ops di skipping]
  consider "ikey_seq ie k \<le> n" "ikey_type ie k = TypeDeletion" | "\<not> ikey_seq ie k \<le> n \<or> ikey_type ie k = TypeValue \<and> hidden_by U sk (ikey_user k)"
    | "ikey_seq ie k \<le> n" "ikey_type ie k = TypeValue" "\<not> hidden_by U sk (ikey_user k)"
    by (cases "ikey_type ie k") auto
  then show ?case
  proof cases
    case 1
    then have "next_loop ie random ops di skipping = next_loop ie random ops (d\<lparr>di_savedkey := ikey_user k, di_iter := s\<rparr>) True"
      using d valid s(1) step by simp
    then show ?thesis
      using Cons.IH [of "d\<lparr>di_savedkey := ikey_user k, di_iter := s\<rparr>" "Some (ikey_user k)" True] 1 leD [OF 1(1)] s(2) len(2) d(1)
      by (simp add: e di_ok_def)
  next
    case 2
    then have "next_loop ie random ops di skipping = next_loop ie random ops (d\<lparr>di_iter := s\<rparr>) skipping"
      using d valid s(1) step by auto
    moreover have "view ie U n sk (e # es) = view ie U n sk es" using 2 by (auto simp: e not_le)
    ultimately show ?thesis
      using Cons.IH [of "d\<lparr>di_iter := s\<rparr>" sk skipping] Cons.prems(4) s(2) len(2) d(1,3) by (cases skipping) (simp_all add: di_ok_def)
  next
    case 3
    then have "view ie U n sk (e # es) = (ikey_user k, v) # view ie U n (Some (ikey_user k)) es" by (simp add: e leD)
    then show ?thesis
      using 3 d valid Cons.prems(2,3) step by (auto simp: shows_from_def e di_ok_def)
  qed
qed

text \<open>\<open>advance\<close> finds the shown entry once more, and skips it.\<close>

lemma di_advance_ok:
  assumes "periods_end random" "di_ok U n di" "shows_from ie U ops di (w # ws)"
  shows "di_current ops di = Some (Some w)" "\<exists>di'. di_advance ie random ops di = Some (ws \<noteq> [], di') \<and> di_ok U n di' \<and> shows_from ie U ops di' ws"
proof -
  obtain k v es where k: "yields ops (di_iter di) ((k, v) # es)" "long_keys ((k, v) # es)" "ikey_seq ie k \<le> n" "ikey_type ie k = TypeValue"
      "w = (ikey_user k, v)" "ws = view ie U n (Some (ikey_user k)) es" and valid: "di_valid di"
    using assms(2,3) by (auto simp: shows_from_def di_ok_def)
  have key: "truncate_to_userkey k = Some (ikey_user k)" using k(2) by (simp add: truncate_to_userkey_eq long_keys_def)
  show "di_current ops di = Some (Some w)"
    using k(1,5) key valid assms(2) by (simp add: di_current_def di_ok_def)
  let ?di = "di\<lparr>di_savedkey := ikey_user k, di_savedval := v\<rparr>"
  have "view ie U n (Some (ikey_user k)) ((k, v) # es) = ws" using k(3,4,6) user.le_refl [of "ikey_user k"] by (auto simp: hidden_by_def)
  then obtain di' where "next_loop ie random ops ?di True = Some (ws \<noteq> [], di') \<and> di_ok U n di' \<and> shows_from ie U ops di' ws"
    using next_loop_view [OF assms(1), of n ?di ops "(k, v) # es" "Some (ikey_user k)" True ie] k(1,2) assms(2) by (auto simp: di_ok_def)
  then show "\<exists>di'. di_advance ie random ops di = Some (ws \<noteq> [], di') \<and> di_ok U n di' \<and> shows_from ie U ops di' ws"
    using k(1) key valid assms(2) by (auto simp: di_advance_def di_ok_def find_next_user_entry_def)
qed

lemma shows_from_yields:
  assumes "periods_end random" "di_ok U n di" "shows_from ie U ops di ws"
  shows "yields (db_iter_ops ie random ops) di ws"
  using assms(2,3)
proof (induction ws arbitrary: di)
  case (Cons w ws)
  from di_advance_ok [OF assms(1) Cons.prems] obtain di' where
    step: "di_current ops di = Some (Some w)" "di_advance ie random ops di = Some (ws \<noteq> [], di')" "di_ok U n di'" "shows_from ie U ops di' ws"
    by blast
  have "di_valid di" using Cons.prems(2) by (simp add: shows_from_def)
  then show ?case using step Cons.IH [OF step(3,4)] by (simp add: db_iter_ops_def)
qed (simp add: shows_from_def db_iter_ops_def)

lemma di_scan:
  assumes "periods_end random" "sample_ok U v" "seek_to_first ops s = Some m" "yields ops m es" "long_keys es"
  shows "\<exists>di. di_seek_to_first ie random ops (db_iter_new random U v s n g) = Some di \<and> yields (db_iter_ops ie random ops) di (view ie U n None es)"
proof -
  let ?di = "(db_iter_new random U v s n g)\<lparr>di_dir := Forward, di_savedval := [], di_iter := m\<rparr>"
  have ok: "di_ok U n ?di" "di_iter ?di = m" using assms(2) by (simp_all add: di_ok_def db_iter_new_def split: prod.split)
  have start: "di_iter (db_iter_new random U v s n g) = s" by (simp add: db_iter_new_def split: prod.split)
  show ?thesis
  proof (cases es)
    case Nil
    then show ?thesis using assms(3,4) start by (simp add: di_seek_to_first_def db_iter_ops_def)
  next
    case (Cons e es')
    from next_loop_view [OF assms(1) ok(1), of ops es None False ie] assms(4,5) ok(2) obtain di where
      di: "next_loop ie random ops ?di False = Some (view ie U n None es \<noteq> [], di)" "di_ok U n di" "shows_from ie U ops di (view ie U n None es)"
      by auto
    have "di_seek_to_first ie random ops (db_iter_new random U v s n g) = Some di"
      using di(1) assms(3,4) start Cons by (simp add: di_seek_to_first_def find_next_user_entry_def)
    then show ?thesis using shows_from_yields [OF assms(1) di(2,3)] by blast
  qed
qed

end

lemma sorted_by_merged:
  assumes "user_cmp U" "long_keys xs" "mset ys = mset xs" "sorted_wrt (\<lambda>x y. cmp_le (cmp (InternalKeyCmp ie U)) (fst x) (fst y)) ys"
    "sorted_wrt (\<lambda>x y. \<not> cmp_eq (cmp (InternalKeyCmp ie U)) (fst x) (fst y)) xs"
  shows "entries_sorted_by ie U ys"
proof -
  let ?cm = "cmp (InternalKeyCmp ie U)"
  let ?P = "\<lambda>x y. fst x \<in> internal_keys \<and> fst y \<in> internal_keys \<and> \<not> cmp_eq ?cm (fst x) (fst y)"
  note ord = internal_key_order [OF assms(1) [unfolded user_cmp_def], of ie]
  have "sorted_wrt ?P xs"
    using assms(5) by (rule sorted_wrt_mono_rel [rotated]) (use assms(2) in \<open>auto simp: long_keys_def internal_keys_def\<close>)
  moreover have "?P y x" if "?P x y" for x y :: "bytes \<times> bytes"
    using that cmp_order.flipI [OF ord, of "fst y" "fst x" Equal] by (auto simp: cmp_eq_def)
  ultimately have P: "sorted_wrt ?P ys" by (intro pairwise_mset [of ?P xs ys]) (use assms(3) in auto)
  have "sorted_by (InternalKeyCmp ie U) ys"
    using P assms(4) by (auto simp: sorted_by_def sorted_wrt_iff_nth_less cmp_le_def cmp_lt_def cmp_eq_def)
  then show ?thesis using assms(2) mset_eq_setD [OF assms(3)] by (simp add: entries_sorted_by_def long_keys_def)
qed


section \<open>Properties\<close>

text \<open>C2: A scan of the database from its first entry: over iterators of any sort that yield sorted internal keys, no two
  of them the same, the database iterator yields exactly the user keys that have a value at the snapshot, each with its
  newest value that is not after the snapshot, in strictly ascending order. Deleted keys and keys written later are not
  shown. It ends and does not fail for every well-formed version and every random generator whose periods end.\<close>

theorem db_scan_correct:
  assumes "cmp_order (cmp U) UNIV" "ldb_forward ops ok entries pos" "periods_end random" "sample_ok U v"
    "\<forall>s \<in> set ss. ok s \<and> long_keys (entries s) \<and> sorted_by (InternalKeyCmp ie U) (entries s)"
    "sorted_wrt (\<lambda>x y. \<not> cmp_eq (cmp (InternalKeyCmp ie U)) (fst x) (fst y)) (concat (map entries ss))"
  shows "\<exists>di ws. di_seek_to_first ie random (merging_iter_ops ops)
      (db_iter_new random U v (merging_iter_new (InternalKeyCmp ie U) ss) n g) = Some di \<and>
    yields (db_iter_ops ie random (merging_iter_ops ops)) di ws \<and>
    (\<forall>u val. (u, val) \<in> set ws \<longleftrightarrow> shows_value ie U n (concat (map entries ss)) u val) \<and>
    sorted_wrt (\<lambda>x y. cmp_lt (cmp U) (fst x) (fst y)) ws"
proof -
  have U: "user_cmp U" using assms(1) by (simp add: user_cmp_def)
  have "\<forall>s \<in> set ss. ok s \<and> fst ` set (entries s) \<subseteq> internal_keys \<and> sorted_by (InternalKeyCmp ie U) (entries s)"
    using assms(5) by (fastforce simp: long_keys_def internal_keys_def)
  from merging_iter_merges [OF assms(2) internal_key_order [OF assms(1)] this] obtain m ys where
    m: "seek_to_first (merging_iter_ops ops) (merging_iter_new (InternalKeyCmp ie U) ss) = Some m" "yields (merging_iter_ops ops) m ys"
      "mset ys = mset (concat (map entries ss))" "sorted_wrt (\<lambda>x y. cmp_le (cmp (InternalKeyCmp ie U)) (fst x) (fst y)) ys"
    by blast
  have long: "long_keys (concat (map entries ss))" using assms(5) by (fastforce simp: long_keys_def)
  have set: "set ys = set (concat (map entries ss))" by (rule mset_eq_setD [OF m(3)])
  have ys: "entries_sorted_by ie U ys" by (rule sorted_by_merged [OF U long m(3,4) assms(6)])
  obtain di where "di_seek_to_first ie random (merging_iter_ops ops)
      (db_iter_new random U v (merging_iter_new (InternalKeyCmp ie U) ss) n g) = Some di"
      "yields (db_iter_ops ie random (merging_iter_ops ops)) di (view ie U n None ys)"
    using user_cmp.di_scan [OF U assms(3,4) m(1,2), of ie n g] ys by (auto simp: long_keys_def entries_sorted_by_def)
  moreover have "shows_value ie U n ys u val \<longleftrightarrow> shows_value ie U n (concat (map entries ss)) u val" for u val
    unfolding shows_value_def set ..
  ultimately show ?thesis
    using user_cmp.view_spec [OF U ys, of None n] by (intro exI [of _ di] exI [of _ "view ie U n None ys"]) (simp add: after_key_def)
qed

lemma unit_periods_end: "periods_end (\<lambda>g :: 'g. (1, g))"
proof -
  have "add_periods (\<lambda>g. (1, g)) n g \<noteq> None" for n :: int and g :: 'g
  proof (induction "nat (- n)" arbitrary: n rule: less_induct)
    case less
    show ?case
      by (subst add_periods.simps) (use less.hyps [of "n + 1"] in \<open>simp add: random_period_def READ_BYTES_PERIOD_def\<close>)
  qed
  then show ?thesis by (simp add: periods_end_def)
qed

text \<open>One memtable under the scan: what a snapshot shows of its entries.\<close>

lemma memtable_shows:
  assumes "integer_encoding ie" "mem_inv ie U mt A" "\<forall>e \<in> A. entry_ok e"
  shows "set (mti_entries ie (skip_map_iter_new (mt_map mt))) = (\<lambda>(s, t, k, v). (ikey ie k s t, v)) ` A"
    "long_keys (mti_entries ie (skip_map_iter_new (mt_map mt)))"
proof -
  have "set (mti_entries ie (skip_map_iter_new (mt_map mt))) = (\<lambda>e. entry_pair ie (enc_entry ie e)) ` A"
    using assms(2) mem_inv_iter(3) [OF assms(1,2)] by (simp add: mti_entries_def mem_inv_def image_image del: enc_entry.simps)
  also have "\<dots> = (\<lambda>(s, t, k, v). (ikey ie k s t, v)) ` A"
    using assms(3) entry_pair_enc [OF assms(1)] by (intro image_cong) (auto simp del: enc_entry.simps entry_ok.simps)
  finally show eq: "set (mti_entries ie (skip_map_iter_new (mt_map mt))) = (\<lambda>(s, t, k, v). (ikey ie k s t, v)) ` A" .
  show "long_keys (mti_entries ie (skip_map_iter_new (mt_map mt)))"
    using integer_encoding.ikey_facts(1) [OF assms(1)] by (auto simp: long_keys_def eq)
qed

theorem db_scan_correct_witness:
  "\<exists>mt di ws. add_all wire_codec (\<lambda>g. (g, g)) (mem_table_new wire_codec 0 DefaultCmp)
      [(1, TypeValue, [97], [1]), (2, TypeDeletion, [97], []), (3, TypeValue, [98], [7])] = Some mt \<and>
    di_seek_to_first wire_codec (\<lambda>g. (1, g)) (merging_iter_ops (memtable_iter_ops wire_codec))
      (db_iter_new (\<lambda>g. (1, g)) DefaultCmp (version_new DefaultCmp)
        (merging_iter_new (InternalKeyCmp wire_codec DefaultCmp) [skip_map_iter_new (mt_map mt)]) 1 ()) = Some di \<and>
    yields (db_iter_ops wire_codec (\<lambda>g. (1, g)) (merging_iter_ops (memtable_iter_ops wire_codec))) di ws \<and>
    (\<forall>u val. (u, val) \<in> set ws \<longleftrightarrow> shows_value wire_codec DefaultCmp 1 (mti_entries wire_codec (skip_map_iter_new (mt_map mt))) u val)"
proof -
  let ?es = "[(1, TypeValue, [97], [1]), (2, TypeDeletion, [97], []), (3, TypeValue, [98], [7])] :: mem_entry list"
  note ie = wire.integer_encoding_axioms and ord = default_cmp.cmp_order_axioms
  have ok: "\<forall>e \<in> set ?es. entry_ok e" by (simp add: MAX_SEQUENCE_NUMBER_def word_le_nat_alt)
  obtain mt where mt: "add_all wire_codec (\<lambda>g. (g, g)) (mem_table_new wire_codec (0 :: u32) DefaultCmp) ?es = Some mt"
      "mem_inv wire_codec DefaultCmp mt (set ?es)"
    using add_all_ok [OF ie mem_table_new_inv [OF ord, of wire_codec "0 :: u32"] ok ord, of "\<lambda>g. (g, g)"] by (auto simp: bytes_cmp_Equal)
  let ?it = "skip_map_iter_new (mt_map mt)" and ?cm = "cmp (InternalKeyCmp wire_codec DefaultCmp)"
  note it = mem_inv_iter(1) [OF ie mt(2)] and long = memtable_shows(2) [OF ie mt(2) ok]
  have sorted: "sorted_by (InternalKeyCmp wire_codec DefaultCmp) (mti_entries wire_codec ?it)"
    using mti_sorted [OF it] by (simp add: sorted_by_def sorted_wrt_map)
  then have "sorted_wrt (\<lambda>x y. \<not> cmp_eq ?cm (fst x) (fst y)) (mti_entries wire_codec ?it)"
    unfolding sorted_by_def by (rule sorted_wrt_mono_rel [rotated]) (simp add: cmp_lt_def cmp_eq_def)
  moreover have "sample_ok DefaultCmp (version_new DefaultCmp)" by (simp add: sample_ok_def version_new_def)
  ultimately show ?thesis
    using db_scan_correct [OF ord mti.ldb_forward_axioms unit_periods_end, of "version_new DefaultCmp" "[?it]" wire_codec DefaultCmp wire_codec 1 "()"]
      mt(1) it long sorted by auto
qed

end
