(* ===== verification/Compaction.thy ===== *)
theory Compaction
  imports Version_Builder Options Db_Iter Snapshot
begin

text \<open>
  Compactions (\<open>Compaction\<close> of \<open>src/src/version_set.rs\<close>): the files that are merged, the search for
  deeper levels with a key, the rule where an output file ends, and the rule of \<open>do_compaction_work\<close>
  (\<open>src/src/db_impl.rs\<close>) that decides which entries are dropped. The properties: the cached search for
  deeper files answers like a search of all files, and dropping entries does not change what a
  snapshot shows, from the smallest sequence number on that the compaction is given.
\<close>

record compaction =
  co_level :: nat
  co_max_file_size :: nat
  co_input_version :: "version option"
  co_level_ixs :: "nat list"
  co_cmp :: comparator
  co_icmp :: comparator
  co_manual :: bool
  co_inputs :: "file_meta_data list list"
  co_grandparent_ix :: nat
  co_grandparents :: "file_meta_data list option"
  co_overlapped_bytes :: nat
  co_seen_key :: bool
  co_edit :: version_edit

definition compaction_new :: "int_codec \<Rightarrow> options \<Rightarrow> nat \<Rightarrow> version option \<Rightarrow> compaction" where
  "compaction_new ie opt level input =
     \<lparr>co_level = level, co_max_file_size = max_file_size opt, co_input_version = input, co_level_ixs = replicate NUM_LEVELS 0,
      co_cmp = opt_cmp opt, co_icmp = InternalKeyCmp ie (opt_cmp opt), co_manual = False, co_inputs = [[], []],
      co_grandparent_ix = 0, co_grandparents = None, co_overlapped_bytes = 0, co_seen_key = False, co_edit = version_edit_new\<rparr>"

definition add_input :: "compaction \<Rightarrow> nat \<Rightarrow> file_meta_data \<Rightarrow> compaction run" where
  "add_input c parent f =
     do { ensure (parent \<le> 1);
          fs \<leftarrow> index (co_inputs c) parent;
          Some (c\<lparr>co_inputs := (co_inputs c)[parent := fs @ [f]]\<rparr>) }"

definition co_input :: "compaction \<Rightarrow> nat \<Rightarrow> nat \<Rightarrow> file_meta_data run" where
  "co_input c parent ix =
     do { ensure (parent < 2); fs \<leftarrow> index (co_inputs c) parent; ensure (ix < length fs); index fs ix }"

definition num_inputs :: "compaction \<Rightarrow> nat \<Rightarrow> nat run" where
  "num_inputs c parent = do { ensure (parent < 2); fs \<leftarrow> index (co_inputs c) parent; Some (length fs) }"

definition delete_inputs :: "nat \<Rightarrow> file_meta_data list \<Rightarrow> version_edit \<Rightarrow> version_edit" where
  "delete_inputs level fs e = fold (\<lambda>f e. ve_delete_file e level (fnum f)) fs e"

definition add_input_deletions :: "compaction \<Rightarrow> compaction run" where
  "add_input_deletions c =
     do { fs0 \<leftarrow> index (co_inputs c) 0;
          fs1 \<leftarrow> index (co_inputs c) 1;
          Some (c\<lparr>co_edit := delete_inputs (co_level c + 1) fs1 (delete_inputs (co_level c) fs0 (co_edit c))\<rparr>) }"

text \<open>The loop over the files of a level, from the cached index on: whether the key is in a file, and the new index.\<close>

fun base_scan :: "int_codec \<Rightarrow> comparator \<Rightarrow> bytes \<Rightarrow> file_meta_data list \<Rightarrow> nat \<Rightarrow> (bool \<times> nat) run" where
  "base_scan ie ucmp k [] ix = Some (False, ix)"
| "base_scan ie ucmp k (f # fs) ix =
     do { ulargest \<leftarrow> user_part ie (largest f);
          o1 \<leftarrow> cmp ucmp k ulargest;
          if o1 \<le> Equal
          then do { usmallest \<leftarrow> user_part ie (smallest f); o2 \<leftarrow> cmp ucmp k usmallest; Some (o2 \<ge> Equal, ix) }
          else base_scan ie ucmp k fs (ix + 1) }"

fun base_levels :: "int_codec \<Rightarrow> comparator \<Rightarrow> bytes \<Rightarrow> file_meta_data list list \<Rightarrow> nat list \<Rightarrow> nat list \<Rightarrow> (bool \<times> nat list) run" where
  "base_levels ie ucmp k files [] ixs = Some (True, ixs)"
| "base_levels ie ucmp k files (l # ls) ixs =
     do { fs \<leftarrow> index files l;
          ix \<leftarrow> index ixs l;
          (found, ix) \<leftarrow> base_scan ie ucmp k (drop ix fs) ix;
          if found then Some (False, ixs[l := ix]) else base_levels ie ucmp k files ls (ixs[l := ix]) }"

definition is_base_level_for :: "int_codec \<Rightarrow> compaction \<Rightarrow> bytes \<Rightarrow> (bool \<times> compaction) run" where
  "is_base_level_for ie c k =
     do { v \<leftarrow> co_input_version c;
          (base, ixs) \<leftarrow> base_levels ie (co_cmp c) k (v_files v) [co_level c + 2..<NUM_LEVELS] (co_level_ixs c);
          Some (base, c\<lparr>co_level_ixs := ixs\<rparr>) }"

definition is_trivial_move :: "compaction \<Rightarrow> bool run" where
  "is_trivial_move c =
     (if co_manual c then Some False
      else let inputs_size = (case co_grandparents c of None \<Rightarrow> 0 | Some gp \<Rightarrow> total_size gp)
           in do { n0 \<leftarrow> num_inputs c 0; n1 \<leftarrow> num_inputs c 1;
                   Some (n0 = 1 \<and> n1 = 0 \<and> inputs_size < 10 * co_max_file_size c) })"

text \<open>The loop over the grandparents before a key: the index and the overlapped bytes.\<close>

fun grandparent_scan :: "comparator \<Rightarrow> bytes \<Rightarrow> bool \<Rightarrow> file_meta_data list \<Rightarrow> nat \<Rightarrow> nat \<Rightarrow> (nat \<times> nat) run" where
  "grandparent_scan icmp k seen [] ix bytes = Some (ix, bytes)"
| "grandparent_scan icmp k seen (f # fs) ix bytes =
     do { o1 \<leftarrow> cmp icmp k (largest f);
          if o1 = Greater then grandparent_scan icmp k seen fs (ix + 1) (if seen then bytes + fsize f else bytes)
          else Some (ix, bytes) }"

definition should_stop_before :: "compaction \<Rightarrow> bytes \<Rightarrow> (bool \<times> compaction) run" where
  "should_stop_before c k =
     (case co_grandparents c of
        None \<Rightarrow> Some (False, c\<lparr>co_seen_key := True\<rparr>)
      | Some gp \<Rightarrow>
          do { (ix, bytes) \<leftarrow> grandparent_scan (co_icmp c) k (co_seen_key c) (drop (co_grandparent_ix c) gp)
                 (co_grandparent_ix c) (co_overlapped_bytes c);
               let c = c\<lparr>co_grandparent_ix := ix, co_overlapped_bytes := bytes, co_seen_key := True\<rparr>;
               if bytes > 10 * co_max_file_size c then Some (True, c\<lparr>co_overlapped_bytes := 0\<rparr>) else Some (False, c) })"


section \<open>Which entries are dropped\<close>

text \<open>
  The variables of the loop of \<open>do_compaction_work\<close> that decide whether an entry is dropped, and one
  decision: an entry with sequence number 0 is skipped, an entry is dropped when a newer one of its key
  is not after the smallest sequence number, and so is such a deletion of a key with no deeper files.
\<close>

record drop_state =
  ds_last_seq_for_key :: sequence_number
  ds_have_ukey :: bool
  ds_current_ukey :: bytes

definition drop_state_new :: drop_state where
  "drop_state_new = \<lparr>ds_last_seq_for_key = MAX_SEQUENCE_NUMBER, ds_have_ukey = False, ds_current_ukey = []\<rparr>"

definition drop_entry ::
    "int_codec \<Rightarrow> comparator \<Rightarrow> sequence_number \<Rightarrow> compaction \<Rightarrow> drop_state \<Rightarrow> bytes \<Rightarrow> (bool \<times> compaction \<times> drop_state) run" where
  "drop_entry ie ucmp small_seq c ds key =
     do { (ktyp, seq, ukey) \<leftarrow> parse_internal_key ie key;
          if seq = 0 then Some (True, c, drop_state_new)
          else do { same \<leftarrow> (if ds_have_ukey ds then do { o1 \<leftarrow> cmp ucmp ukey (ds_current_ukey ds); Some (o1 = Equal) } else Some False);
                    let ds = (if same then ds else \<lparr>ds_last_seq_for_key = MAX_SEQUENCE_NUMBER, ds_have_ukey = True, ds_current_ukey = ukey\<rparr>);
                    if ds_last_seq_for_key ds \<le> small_seq then Some (True, c, ds\<lparr>ds_last_seq_for_key := seq\<rparr>)
                    else do { (obsolete, c) \<leftarrow> (if ktyp = TypeDeletion \<and> seq \<le> small_seq then is_base_level_for ie c ukey
                                               else Some (False, c));
                              Some (obsolete, c, ds\<lparr>ds_last_seq_for_key := seq\<rparr>) } } }"

text \<open>The entries that are not dropped.\<close>

fun surviving ::
    "int_codec \<Rightarrow> comparator \<Rightarrow> sequence_number \<Rightarrow> compaction \<Rightarrow> drop_state \<Rightarrow> (bytes \<times> bytes) list \<Rightarrow> (bytes \<times> bytes) list run" where
  "surviving ie ucmp small_seq c ds [] = Some []"
| "surviving ie ucmp small_seq c ds ((k, v) # es) =
     do { (drop, c, ds) \<leftarrow> drop_entry ie ucmp small_seq c ds k;
          rest \<leftarrow> surviving ie ucmp small_seq c ds es;
          Some (if drop then rest else (k, v) # rest) }"


section \<open>Deeper files with a key\<close>

definition holds_key :: "comparator \<Rightarrow> bytes \<Rightarrow> file_meta_data list \<Rightarrow> bool" where
  "holds_key U u fs \<longleftrightarrow> (\<exists>f \<in> set fs. cmp_le (cmp U) (usmall f) u \<and> cmp_le (cmp U) u (ularge f))"

text \<open>The files before the cached index end before the key.\<close>

definition ixs_passed :: "comparator \<Rightarrow> file_meta_data list list \<Rightarrow> bytes \<Rightarrow> nat list \<Rightarrow> bool" where
  "ixs_passed U files u ixs \<longleftrightarrow> (\<forall>l < length ixs. \<forall>f \<in> set (take (ixs ! l) (files ! l)). cmp_lt (cmp U) (ularge f) u)"

definition base_level :: "comparator \<Rightarrow> version \<Rightarrow> nat \<Rightarrow> bytes \<Rightarrow> bool" where
  "base_level U v level u \<longleftrightarrow> (\<forall>l \<in> {level + 2..<NUM_LEVELS}. \<not> holds_key U u (v_files v ! l))"

context user_cmp
begin

lemma base_scan_ok:
  assumes "level_sorted ie U fs"
  shows "\<exists>m. base_scan ie U k fs ix = Some (holds_key U k fs, ix + m) \<and> (\<forall>f \<in> set (take m fs). cmp_lt (cmp U) (ularge f) k)"
  using assms
proof (induction fs arbitrary: ix)
  case (Cons f fs)
  have wf: "file_wf U f" and sub: "level_sorted ie U fs" using Cons.prems by (auto simp: level_sorted_def)
  have later: "cmp_le (cmp U) (ularge f) (usmall g)" if "g \<in> set fs" for g
    using Cons.prems that internal_lt [of "largest f" "smallest g" ie] user.le_cases
    by (auto simp: level_sorted_def file_wf_def internal_keys_def)
  obtain o1 where o1: "cmp U k (ularge f) = Some o1" using user_total by blast
  obtain o2 where o2: "cmp U k (usmall f) = Some o2" using user_total by blast
  show ?case
  proof (cases "o1 = Greater")
    case False
    then have le: "cmp_le (cmp U) k (ularge f)" "o1 \<le> Equal" using o1 by (cases o1; simp add: cmp_le_def less_eq_ordering_def)+
    have in_f: "o2 \<ge> Equal \<longleftrightarrow> cmp_le (cmp U) (usmall f) k"
      using user.not_lt [of k "usmall f"] o2 by (cases o2) (auto simp: cmp_lt_def less_eq_ordering_def)
    have "holds_key U k (f # fs) \<longleftrightarrow> cmp_le (cmp U) (usmall f) k"
    proof -
      have "cmp_le (cmp U) (usmall f) k" if g: "g \<in> set fs" "cmp_le (cmp U) (usmall g) k" for g
      proof -
        have "cmp_le (cmp U) (usmall f) (ularge f)" using wf by (simp add: file_wf_def)
        then have "cmp_le (cmp U) (usmall f) (usmall g)" using later [OF g(1)] user.le_trans [of "usmall f" "ularge f" "usmall g"] by simp
        then show ?thesis using user.le_trans [of "usmall f" "usmall g" k] g(2) by simp
      qed
      then show ?thesis using le(1) by (auto simp: holds_key_def)
    qed
    then show ?thesis
      using o1 o2 le(2) in_f file_wf_parts [OF wf, of ie] by (intro exI [of _ 0]) simp
  next
    case True
    then have lt: "cmp_lt (cmp U) (ularge f) k" using user.flipI [of k "ularge f" Greater] o1 by (simp add: cmp_lt_def)
    then have "\<not> cmp_le (cmp U) k (ularge f)" using user.not_lt [of "ularge f" k] by simp
    then have "holds_key U k (f # fs) = holds_key U k fs" by (simp add: holds_key_def)
    moreover obtain m where "base_scan ie U k fs (ix + 1) = Some (holds_key U k fs, ix + 1 + m)" "\<forall>f \<in> set (take m fs). cmp_lt (cmp U) (ularge f) k"
      using Cons.IH [OF sub] by blast
    ultimately show ?thesis
      using True o1 lt file_wf_parts(2) [OF wf, of ie] by (intro exI [of _ "Suc m"]) (simp add: less_eq_ordering_def)
  qed
qed (simp add: holds_key_def)

lemma base_levels_ok:
  assumes "\<forall>l \<in> set ls. l < length files \<and> l < length ixs \<and> level_sorted ie U (files ! l)" "ixs_passed U files k ixs"
  shows "\<exists>ixs'. base_levels ie U k files ls ixs = Some (\<forall>l \<in> set ls. \<not> holds_key U k (files ! l), ixs') \<and>
    length ixs' = length ixs \<and> ixs_passed U files k ixs'"
  using assms
proof (induction ls arbitrary: ixs)
  case (Cons l ls)
  let ?fs = "files ! l" and ?ix = "ixs ! l"
  have l: "l < length files" "l < length ixs" and sorted: "level_sorted ie U ?fs" using Cons.prems(1) by auto
  have "level_sorted ie U (drop ?ix ?fs)" using sorted by (auto simp: level_sorted_def sorted_wrt_drop dest: in_set_dropD)
  then obtain m where m: "base_scan ie U k (drop ?ix ?fs) ?ix = Some (holds_key U k (drop ?ix ?fs), ?ix + m)"
      "\<forall>f \<in> set (take m (drop ?ix ?fs)). cmp_lt (cmp U) (ularge f) k"
    using base_scan_ok by blast
  have "\<not> holds_key U k (take ?ix ?fs)"
    using Cons.prems(2) l(2) user.not_lt by (auto simp: holds_key_def ixs_passed_def)
  then have h: "holds_key U k (drop ?ix ?fs) = holds_key U k ?fs"
    unfolding holds_key_def by (metis Un_iff append_take_drop_id set_append)
  have "ixs_passed U files k (ixs[l := ?ix + m])"
    using Cons.prems(2) m(2) l(2) by (auto simp: ixs_passed_def nth_list_update take_add split: if_splits)
  with Cons.IH [of "ixs[l := ?ix + m]"] Cons.prems(1) show ?case
    using m(1) h l by (auto simp: index_def)
qed simp

lemma base_level_step:
  assumes "co_cmp c = U" "co_input_version c = Some v" "length (v_files v) = NUM_LEVELS" "length (co_level_ixs c) = NUM_LEVELS"
    "\<forall>l \<in> {co_level c + 2..<NUM_LEVELS}. level_sorted ie U (v_files v ! l)" "ixs_passed U (v_files v) k (co_level_ixs c)"
  obtains ixs where "is_base_level_for ie c k = Some (base_level U v (co_level c) k, c\<lparr>co_level_ixs := ixs\<rparr>)"
    "length ixs = NUM_LEVELS" "ixs_passed U (v_files v) k ixs"
proof -
  obtain ixs where "base_levels ie U k (v_files v) [co_level c + 2..<NUM_LEVELS] (co_level_ixs c) =
      Some (\<forall>l \<in> set [co_level c + 2..<NUM_LEVELS]. \<not> holds_key U k (v_files v ! l), ixs)" "length ixs = NUM_LEVELS" "ixs_passed U (v_files v) k ixs"
    using base_levels_ok [of "[co_level c + 2..<NUM_LEVELS]" "v_files v" "co_level_ixs c" ie k] assms by auto
  then show thesis using that [of ixs] assms(1,2) by (simp add: is_base_level_for_def base_level_def)
qed

lemma ixs_passed_mono: "ixs_passed U files k ixs \<Longrightarrow> cmp_le (cmp U) k k' \<Longrightarrow> ixs_passed U files k' ixs"
  using user.lt_le_trans [of _ k k'] by (auto simp: ixs_passed_def)

text \<open>Which entries are dropped, as a condition on all entries.\<close>

lemma earlier_entries:
  assumes "entries_sorted_by ie U (xs @ (k, v) # es)" "(k', v') \<in> set xs"
  shows "cmp_lt (cmp U) (ikey_user k') (ikey_user k) \<or> cmp_eq (cmp U) (ikey_user k') (ikey_user k) \<and> ikey_seq ie k < ikey_seq ie k'"
proof -
  have "cmp_lt (cmp (InternalKeyCmp ie U)) k' k" "8 \<le> length k'" "8 \<le> length k"
    using assms by (force simp: entries_sorted_by_def sorted_by_def sorted_wrt_append)+
  then show ?thesis using internal_lt [of k' k ie] by simp
qed

lemma sorted_parts: "entries_sorted_by ie U (xs @ ys) \<Longrightarrow> entries_sorted_by ie U xs \<and> entries_sorted_by ie U ys"
  by (auto simp: entries_sorted_by_def sorted_by_def sorted_wrt_append)

lemma prev_decides:
  assumes sorted: "entries_sorted_by ie U ((xs @ [(p, w)]) @ (k, v) # es)"
  shows "(\<exists>(k', v') \<in> set ((xs @ [(p, w)]) @ (k, v) # es). cmp_eq (cmp U) (ikey_user k') (ikey_user k) \<and> ikey_seq ie k < ikey_seq ie k' \<and> ikey_seq ie k' \<le> m) \<longleftrightarrow>
    cmp_eq (cmp U) (ikey_user p) (ikey_user k) \<and> ikey_seq ie p \<le> m" (is "?L \<longleftrightarrow> ?R")
proof
  note before = earlier_entries [OF sorted]
  assume ?L
  then obtain k' v' where k': "(k', v') \<in> set ((xs @ [(p, w)]) @ (k, v) # es)" "cmp_eq (cmp U) (ikey_user k') (ikey_user k)"
      "ikey_seq ie k < ikey_seq ie k'" "ikey_seq ie k' \<le> m" by blast
  have "(k', v') \<notin> set es"
  proof
    assume es: "(k', v') \<in> set es"
    have "entries_sorted_by ie U ((k, v) # es)" using sorted_parts [OF sorted] by simp
    from later_entries [OF this es] show False using k'(2,3) lt_not_eq(2) by auto
  qed
  then consider "k' = p" | "(k', v') \<in> set xs" using k'(1,3) by auto
  then show ?R
  proof cases
    case 1
    then show ?thesis using k' by simp
  next
    case 2
    have "entries_sorted_by ie U (xs @ (p, w) # (k, v) # es)" using sorted by simp
    from earlier_entries [OF this 2] have kp: "cmp_lt (cmp U) (ikey_user k') (ikey_user p) \<or> cmp_eq (cmp U) (ikey_user k') (ikey_user p) \<and> ikey_seq ie p < ikey_seq ie k'" .
    have pk: "cmp_lt (cmp U) (ikey_user p) (ikey_user k) \<or> cmp_eq (cmp U) (ikey_user p) (ikey_user k)" using before [of p w] by auto
    have "\<not> cmp_lt (cmp U) (ikey_user k') (ikey_user p)"
    proof
      assume lt: "cmp_lt (cmp U) (ikey_user k') (ikey_user p)"
      have "cmp_le (cmp U) (ikey_user p) (ikey_user k)" using pk user.le_cases by blast
      then have "cmp_lt (cmp U) (ikey_user k') (ikey_user k)" using user.lt_le_trans [of "ikey_user k'" "ikey_user p" "ikey_user k"] lt by simp
      then show False using k'(2) lt_not_eq(1) by blast
    qed
    then have eq: "cmp_eq (cmp U) (ikey_user k') (ikey_user p)" "ikey_seq ie p < ikey_seq ie k'" using kp by auto
    then show ?thesis using eq_trans' [OF eq_sym' [OF eq(1)] k'(2)] k'(4) by auto
  qed
next
  assume R: ?R
  have "ikey_seq ie k < ikey_seq ie p" using earlier_entries [OF sorted, of p w] R lt_not_eq(1) by auto
  then show ?L using R by (intro bexI [of _ "(p, w)"]) auto
qed

lemma first_newest:
  assumes sorted: "entries_sorted_by ie U ((k, v) # es)"
  shows "\<not> (\<exists>(k', v') \<in> set ((k, v) # es). cmp_eq (cmp U) (ikey_user k') (ikey_user k) \<and> ikey_seq ie k < ikey_seq ie k')"
  using later_entries [OF sorted] lt_not_eq(2) by (fastforce dest: less_asym)

end

definition newer_kept :: "int_codec \<Rightarrow> comparator \<Rightarrow> sequence_number \<Rightarrow> (bytes \<times> bytes) list \<Rightarrow> bytes \<Rightarrow> bool" where
  "newer_kept ie U m es k \<longleftrightarrow>
     (\<exists>(k', v') \<in> set es. cmp_eq (cmp U) (ikey_user k') (ikey_user k) \<and> ikey_seq ie k < ikey_seq ie k' \<and> ikey_seq ie k' \<le> m)"

definition dropped :: "int_codec \<Rightarrow> comparator \<Rightarrow> version \<Rightarrow> nat \<Rightarrow> sequence_number \<Rightarrow> (bytes \<times> bytes) list \<Rightarrow> bytes \<Rightarrow> bool" where
  "dropped ie U v level m es k \<longleftrightarrow> newer_kept ie U m es k \<or>
     ikey_type ie k = TypeDeletion \<and> ikey_seq ie k \<le> m \<and> base_level U v level (ikey_user k)"

definition co_ready :: "int_codec \<Rightarrow> comparator \<Rightarrow> version \<Rightarrow> nat \<Rightarrow> compaction \<Rightarrow> bool" where
  "co_ready ie U v level c \<longleftrightarrow> co_level c = level \<and> co_cmp c = U \<and> co_input_version c = Some v \<and> length (v_files v) = NUM_LEVELS \<and>
     length (co_level_ixs c) = NUM_LEVELS \<and> (\<forall>l \<in> {level + 2..<NUM_LEVELS}. level_sorted ie U (v_files v ! l))"

text \<open>What the loop remembers of the entries it has seen.\<close>

definition remembers :: "int_codec \<Rightarrow> comparator \<Rightarrow> (bytes \<times> bytes) list \<Rightarrow> drop_state \<Rightarrow> bool" where
  "remembers ie U xs ds \<longleftrightarrow> (if xs = [] then ds = drop_state_new
     else ds_have_ukey ds \<and> cmp_eq (cmp U) (ds_current_ukey ds) (ikey_user (fst (last xs))) \<and> ds_last_seq_for_key ds = ikey_seq ie (fst (last xs)))"

context user_cmp
begin

lemma drop_entry_ok:
  assumes sorted: "entries_sorted_by ie U (xs @ (k, w) # es)" and seq: "ikey_seq ie k \<noteq> 0" "m < MAX_SEQUENCE_NUMBER"
    and ds: "remembers ie U xs ds" and c: "co_ready ie U v level c" "ixs_passed U (v_files v) (ikey_user k) (co_level_ixs c)"
  obtains c' ds' where "drop_entry ie U m c ds k = Some (dropped ie U v level m (xs @ (k, w) # es) k, c', ds')"
    "co_ready ie U v level c'" "ixs_passed U (v_files v) (ikey_user k) (co_level_ixs c')" "remembers ie U (xs @ [(k, w)]) ds'"
proof -
  have len: "8 \<le> length k" using sorted by (auto simp: entries_sorted_by_def)
  have refl: "cmp_eq (cmp U) (ikey_user k) (ikey_user k)" using user.cmp_refl by (simp add: cmp_eq_def)
  define same where "same \<longleftrightarrow> ds_have_ukey ds \<and> cmp_eq (cmp U) (ikey_user k) (ds_current_ukey ds)"
  define ds1 where "ds1 = (if same then ds else \<lparr>ds_last_seq_for_key = MAX_SEQUENCE_NUMBER, ds_have_ukey = True, ds_current_ukey = ikey_user k\<rparr>)"
  have cur: "ds_have_ukey ds1" "cmp_eq (cmp U) (ds_current_ukey ds1) (ikey_user k)" using refl eq_sym' by (auto simp: ds1_def same_def)
  have newer: "ds_last_seq_for_key ds1 \<le> m \<longleftrightarrow> newer_kept ie U m (xs @ (k, w) # es) k"
  proof (cases xs rule: rev_cases)
    case Nil
    then have "\<not> same" using ds by (simp add: same_def remembers_def drop_state_new_def)
    then show ?thesis using first_newest [of ie k w es] sorted seq(2) Nil by (fastforce simp: ds1_def newer_kept_def)
  next
    case (snoc ys pw)
    obtain p pv where p: "pw = (p, pv)" by (cases pw)
    have cp: "cmp_eq (cmp U) (ds_current_ukey ds) (ikey_user p)" "ds_have_ukey ds" "ds_last_seq_for_key ds = ikey_seq ie p"
      using ds snoc p by (simp_all add: remembers_def)
    have "same \<longleftrightarrow> cmp_eq (cmp U) (ikey_user p) (ikey_user k)"
      unfolding same_def using cp(1,2) eq_sym' eq_trans' by blast
    then show ?thesis using prev_decides [of ie ys p pv k w es m] sorted snoc p cp(3) leD [of MAX_SEQUENCE_NUMBER m] seq(2)
      by (auto simp: newer_kept_def ds1_def)
  qed
  obtain o1 where o1: "cmp U (ikey_user k) (ds_current_ukey ds) = Some o1" using user_total by blast
  obtain ixs where b: "is_base_level_for ie c (ikey_user k) = Some (base_level U v level (ikey_user k), c\<lparr>co_level_ixs := ixs\<rparr>)"
      "length ixs = NUM_LEVELS" "ixs_passed U (v_files v) (ikey_user k) ixs"
    by (rule base_level_step [of c v ie "ikey_user k"]) (use c in \<open>auto simp: co_ready_def\<close>)
  have eq: "drop_entry ie U m c ds k =
    (if ds_last_seq_for_key ds1 \<le> m then Some (True, c, ds1\<lparr>ds_last_seq_for_key := ikey_seq ie k\<rparr>)
     else if ikey_type ie k = TypeDeletion \<and> ikey_seq ie k \<le> m
     then Some (base_level U v level (ikey_user k), c\<lparr>co_level_ixs := ixs\<rparr>, ds1\<lparr>ds_last_seq_for_key := ikey_seq ie k\<rparr>)
     else Some (False, c, ds1\<lparr>ds_last_seq_for_key := ikey_seq ie k\<rparr>))"
    using b(1) o1 seq(1) len by (simp add: drop_entry_def parse_internal_key_eq ds1_def same_def cmp_eq_def)
  have "remembers ie U (xs @ [(k, w)]) (ds1\<lparr>ds_last_seq_for_key := ikey_seq ie k\<rparr>)" using cur by (simp add: remembers_def)
  moreover have "co_ready ie U v level (c\<lparr>co_level_ixs := ixs\<rparr>)" using c(1) b(2) by (simp add: co_ready_def)
  ultimately show thesis
    using that eq newer b(3) c unfolding dropped_def by (auto split: if_splits)
qed

lemma surviving_eq:
  assumes "entries_sorted_by ie U (xs @ es)" "\<forall>(k, w) \<in> set es. ikey_seq ie k \<noteq> 0" "m < MAX_SEQUENCE_NUMBER"
    "remembers ie U xs ds" "co_ready ie U v level c" "\<forall>(k, w) \<in> set es. ixs_passed U (v_files v) (ikey_user k) (co_level_ixs c)"
  shows "surviving ie U m c ds es = Some (filter (\<lambda>(k, w). \<not> dropped ie U v level m (xs @ es) k) es)"
  using assms(1,2,4-)
proof (induction es arbitrary: xs c ds)
  case (Cons e es)
  obtain k w where e: "e = (k, w)" by (cases e)
  have seq: "ikey_seq ie k \<noteq> 0" and pass: "ixs_passed U (v_files v) (ikey_user k) (co_level_ixs c)" using Cons.prems(2,5) e by auto
  obtain c' ds' where one: "drop_entry ie U m c ds k = Some (dropped ie U v level m (xs @ (k, w) # es) k, c', ds')"
    "co_ready ie U v level c'" "ixs_passed U (v_files v) (ikey_user k) (co_level_ixs c')" "remembers ie U (xs @ [(k, w)]) ds'"
    by (rule drop_entry_ok [OF Cons.prems(1) [unfolded e] seq assms(3) Cons.prems(3,4) pass])
  have "entries_sorted_by ie U ((k, w) # es)" using sorted_parts [OF Cons.prems(1)] e by simp
  then have le: "cmp_le (cmp U) (ikey_user k) (ikey_user k')" if "(k', w') \<in> set es" for k' w'
    using later_entries [OF _ that] user.le_cases by blast
  have pass': "\<forall>(k', w') \<in> set es. ixs_passed U (v_files v) (ikey_user k') (co_level_ixs c')"
    using le ixs_passed_mono [OF one(3)] by blast
  have sorted': "entries_sorted_by ie U ((xs @ [(k, w)]) @ es)" "\<forall>(k, w) \<in> set es. ikey_seq ie k \<noteq> 0" using Cons.prems(1,2) e by auto
  from Cons.IH [OF sorted' one(4,2) pass'] one(1) show ?case by (simp add: e)
qed simp

lemma compaction_shows:
  assumes es: "es' = filter (\<lambda>(k, w). \<not> dropped ie U v level m es k) es" and n: "m \<le> n"
    and rest: "\<forall>(k, w) \<in> set es. \<forall>(k', w') \<in> set R. cmp_eq (cmp U) (ikey_user k) (ikey_user k') \<longrightarrow> base_level U v level (ikey_user k) \<longrightarrow>
      ikey_seq ie k < ikey_seq ie k'"
  shows "shows_value ie U n (es' @ R) u val \<longleftrightarrow> shows_value ie U n (es @ R) u val"
proof
  assume "shows_value ie U n (es' @ R) u val"
  then obtain k where k: "(k, val) \<in> set (es' @ R)" "ikey_user k = u" "ikey_type ie k = TypeValue" "ikey_seq ie k \<le> n"
      "\<forall>k' val'. (k', val') \<in> set (es' @ R) \<longrightarrow> cmp_eq (cmp U) (ikey_user k') u \<longrightarrow> ikey_seq ie k' \<le> n \<longrightarrow> ikey_seq ie k' \<le> ikey_seq ie k"
    by (auto simp: shows_value_def)
  define S where "S = {k' \<in> fst ` set es. cmp_eq (cmp U) (ikey_user k') u \<and> ikey_seq ie k' \<le> n \<and> ikey_seq ie k < ikey_seq ie k'}"
  have "S = {}"
  proof (rule ccontr)
    assume "S \<noteq> {}"
    moreover have fin: "finite S" by (simp add: S_def)
    ultimately have "Max (ikey_seq ie ` S) \<in> ikey_seq ie ` S" by (intro Max_in) auto
    then obtain b where b: "b \<in> S" "ikey_seq ie b = Max (ikey_seq ie ` S)" by auto
    have max: "ikey_seq ie a \<le> ikey_seq ie b" if "a \<in> S" for a using b(2) fin that by simp
    obtain w where w: "(b, w) \<in> set es" using b(1) by (auto simp: S_def)
    have eq: "cmp_eq (cmp U) (ikey_user b) u" "ikey_seq ie b \<le> n" "ikey_seq ie k < ikey_seq ie b" using b(1) by (auto simp: S_def)
    have "(b, w) \<notin> set es'" using k(5) eq by (fastforce simp: not_le)
    then have "dropped ie U v level m es b" using w es by auto
    moreover have "\<not> newer_kept ie U m es b"
    proof
      assume "newer_kept ie U m es b"
      then obtain a where "a \<in> fst ` set es" "cmp_eq (cmp U) (ikey_user a) (ikey_user b)" "ikey_seq ie b < ikey_seq ie a" "ikey_seq ie a \<le> m"
        by (force simp: newer_kept_def)
      moreover from this have "a \<in> S" using eq eq_trans' n by (auto simp: S_def)
      ultimately show False using max [of a] by simp
    qed
    ultimately have del: "ikey_seq ie b \<le> m" "base_level U v level (ikey_user b)" by (auto simp: dropped_def)
    have bk: "cmp_eq (cmp U) (ikey_user b) (ikey_user k)" using eq(1) k(2) by simp
    have "(k, val) \<notin> set R" using rest w bk del(2) eq(3) by (fastforce dest: less_asym)
    moreover have "newer_kept ie U m es k" unfolding newer_kept_def using w bk eq(3) del(1) by auto
    then have "(k, val) \<notin> set es'" using es by (auto simp: dropped_def)
    ultimately show False using k(1) by simp
  qed
  then have "\<forall>k' val'. (k', val') \<in> set es \<longrightarrow> cmp_eq (cmp U) (ikey_user k') u \<longrightarrow> ikey_seq ie k' \<le> n \<longrightarrow> ikey_seq ie k' \<le> ikey_seq ie k"
    by (force simp: S_def not_less)
  then show "shows_value ie U n (es @ R) u val"
    unfolding shows_value_def using k es by (intro exI [of _ k]) auto
next
  assume "shows_value ie U n (es @ R) u val"
  then obtain k where k: "(k, val) \<in> set (es @ R)" "ikey_user k = u" "ikey_type ie k = TypeValue" "ikey_seq ie k \<le> n"
      "\<forall>k' val'. (k', val') \<in> set (es @ R) \<longrightarrow> cmp_eq (cmp U) (ikey_user k') u \<longrightarrow> ikey_seq ie k' \<le> n \<longrightarrow> ikey_seq ie k' \<le> ikey_seq ie k"
    by (auto simp: shows_value_def)
  have "\<not> newer_kept ie U m es k" using k(2,5) n by (fastforce simp: newer_kept_def)
  then have "(k, val) \<in> set (es' @ R)" using k(1,3) es by (auto simp: dropped_def)
  then show "shows_value ie U n (es' @ R) u val"
    unfolding shows_value_def using k es by (intro exI [of _ k]) auto
qed

end


section \<open>Properties\<close>

lemma compaction_survivors:
  assumes "cmp_order (cmp U) UNIV" "co_ready ie U v level c" "co_level_ixs c = replicate NUM_LEVELS 0" "entries_sorted_by ie U es"
    "\<forall>(k, w) \<in> set es. ikey_seq ie k \<noteq> 0" "m < MAX_SEQUENCE_NUMBER"
  shows "surviving ie U m c drop_state_new es = Some (filter (\<lambda>(k, w). \<not> dropped ie U v level m es k) es)"
proof -
  have "user_cmp U" using assms(1) by (simp add: user_cmp_def)
  from user_cmp.surviving_eq [OF this, of ie "[]" es m drop_state_new v level c] assms(2-) show ?thesis
    by (simp add: remembers_def ixs_passed_def)
qed

text \<open>C3: Dropping entries in a compaction is invisible: for every snapshot that is not older than the smallest sequence
  number the compaction was given, the entries that remain together with the rest of the database show for every key the
  value that was shown before, and they are still sorted. A deletion may go only because no deeper file can hold its key;
  the cached search for such files is part of the statement. The rest of the database must not hold an older entry of a
  key without deeper files.\<close>

theorem compaction_preserves_views:
  assumes "cmp_order (cmp U) UNIV" "co_ready ie U v level c" "co_level_ixs c = replicate NUM_LEVELS 0" "entries_sorted_by ie U es"
    "\<forall>(k, w) \<in> set es. ikey_seq ie k \<noteq> 0" "m < MAX_SEQUENCE_NUMBER" "m \<le> n"
    "\<forall>(k, w) \<in> set es. \<forall>(k', w') \<in> set R. cmp_eq (cmp U) (ikey_user k) (ikey_user k') \<longrightarrow> base_level U v level (ikey_user k) \<longrightarrow>
      ikey_seq ie k < ikey_seq ie k'"
  shows "\<exists>es'. surviving ie U m c drop_state_new es = Some es' \<and> entries_sorted_by ie U es' \<and>
    (\<forall>u val. shows_value ie U n (es' @ R) u val \<longleftrightarrow> shows_value ie U n (es @ R) u val)"
proof -
  let ?es = "filter (\<lambda>(k, w). \<not> dropped ie U v level m es k) es"
  have U: "user_cmp U" using assms(1) by (simp add: user_cmp_def)
  have "entries_sorted_by ie U ?es" using assms(4) by (auto simp: entries_sorted_by_def sorted_by_def sorted_wrt_filter)
  then show ?thesis
    using compaction_survivors [OF assms(1-6)] user_cmp.compaction_shows [OF U refl assms(7,8)] by blast
qed

text \<open>Three entries of one key.\<close>

abbreviation entry :: "bytes \<Rightarrow> sequence_number \<Rightarrow> value_type \<Rightarrow> bytes \<Rightarrow> bytes \<times> bytes" where
  "entry k s t v \<equiv> (ikey wire_codec k s t, v)"

lemma entry_facts:
  assumes "s \<le> 3"
  shows "ikey_seq wire_codec (ikey wire_codec k s t) = s" "ikey_type wire_codec (ikey wire_codec k s t) = t"
    "ikey_user (ikey wire_codec k s t) = k" "8 \<le> length (ikey wire_codec k s t)"
proof -
  have "s \<le> MAX_SEQUENCE_NUMBER" using assms by (simp add: MAX_SEQUENCE_NUMBER_def word_le_nat_alt)
  then show "ikey_seq wire_codec (ikey wire_codec k s t) = s" "ikey_type wire_codec (ikey wire_codec k s t) = t"
    "ikey_user (ikey wire_codec k s t) = k" "8 \<le> length (ikey wire_codec k s t)"
    by (simp_all add: wire.ikey_simps)
qed

lemma entries_sorted_example:
  "entries_sorted_by wire_codec DefaultCmp [entry [97] 3 TypeValue [1], entry [97] 2 TypeDeletion [], entry [97] 1 TypeValue [9]]"
  "entries_sorted_by wire_codec DefaultCmp [entry [97] 2 TypeValue [8], entry [97] 1 TypeValue [9]]"
  by (simp_all add: entries_sorted_by_def sorted_by_def entry_facts cmp_lt_def cmp_internal_key_eq internal_keys_def key_seq_cmp_def)

lemma ready_example:
  "co_ready wire_codec DefaultCmp (version_new DefaultCmp) 0 (compaction_new wire_codec (options_default wire_codec literal_snap) 0 (Some (version_new DefaultCmp)))"
  by (auto simp: co_ready_def compaction_new_def version_new_def options_default_def level_sorted_def)

theorem compaction_preserves_views_witness:
  "\<exists>es'. surviving wire_codec DefaultCmp 2 (compaction_new wire_codec (options_default wire_codec literal_snap) 0 (Some (version_new DefaultCmp)))
      drop_state_new [entry [97] 3 TypeValue [1], entry [97] 2 TypeDeletion [], entry [97] 1 TypeValue [9]] = Some es' \<and>
    (\<forall>u val. shows_value wire_codec DefaultCmp 2 es' u val \<longleftrightarrow>
      shows_value wire_codec DefaultCmp 2 [entry [97] 3 TypeValue [1], entry [97] 2 TypeDeletion [], entry [97] 1 TypeValue [9]] u val)"
proof -
  have "(2 :: sequence_number) < MAX_SEQUENCE_NUMBER" by (simp add: MAX_SEQUENCE_NUMBER_def word_less_nat_alt)
  with compaction_preserves_views [OF default_cmp.cmp_order_axioms ready_example _ entries_sorted_example(1), of 2 2 "[]"] show ?thesis
    by (auto simp: compaction_new_def entry_facts)
qed

text \<open>C38: The sequence number that a compaction is given does not protect the snapshots: \<open>start_compaction\<close> takes what
  \<open>oldest\<close> returns, a handle. There is a reachable list of snapshots with a live snapshot at sequence number 1, of handle
  2, such that the compaction drops the value that this snapshot shows.\<close>

theorem compaction_loses_snapshot:
  "\<exists>sl s es es'. snapshots_reach 3 (sl, [s]) \<and>
    surviving wire_codec DefaultCmp (snapshots_oldest sl) (compaction_new wire_codec (options_default wire_codec literal_snap) 0 (Some (version_new DefaultCmp)))
      drop_state_new es = Some es' \<and>
    shows_value wire_codec DefaultCmp (snap_seq s) es [97] [9] \<and> \<not> (\<exists>val. shows_value wire_codec DefaultCmp (snap_seq s) es' [97] val)"
proof -
  let ?n = "\<lambda>sl. new_snapshot sl 1"
  let ?s1 = "\<lparr>snap_id = 1, snap_seq = 1\<rparr>" and ?s2 = "\<lparr>snap_id = 2, snap_seq = 1\<rparr>"
  let ?l1 = "snd (?n snapshot_list_new)" let ?l2 = "snd (?n ?l1)" let ?sl = "sl_delete ?l2 1"
  let ?c = "compaction_new wire_codec (options_default wire_codec literal_snap) 0 (Some (version_new DefaultCmp))"
  let ?es = "[entry [97] 2 TypeValue [8], entry [97] 1 TypeValue [9]]"
  have n: "?n snapshot_list_new = (?s1, ?l1)" "?n ?l1 = (?s2, ?l2)" by (simp_all add: new_snapshot_def snapshot_list_new_def Let_def)
  have "snapshots_reach (Suc (Suc (Suc 0))) (sl_delete ?l2 (snap_id ?s1), remove1 ?s1 [?s2, ?s1])"
    by (rule snapshots_reach.step [OF snapshots_reach.step [OF snapshots_reach.step [OF snapshots_reach.start
      snapshot_step.acquire [OF n(1)]] snapshot_step.acquire [OF n(2)]] snapshot_step.release]) simp
  then have reach: "snapshots_reach 3 (?sl, [?s2])" by (simp add: numeral_3_eq_3)
  have old: "snapshots_oldest ?sl = 2"
    by (simp add: snapshots_oldest_def sl_delete_def new_snapshot_def snapshot_list_new_def Let_def MAX_SEQUENCE_NUMBER_def word_less_nat_alt)
  have "surviving wire_codec DefaultCmp 2 ?c drop_state_new ?es =
      Some (filter (\<lambda>(k, w). \<not> dropped wire_codec DefaultCmp (version_new DefaultCmp) 0 2 ?es k) ?es)"
    by (rule compaction_survivors [OF default_cmp.cmp_order_axioms ready_example _ entries_sorted_example(2)])
      (simp_all add: compaction_new_def entry_facts MAX_SEQUENCE_NUMBER_def word_less_nat_alt)
  also have "filter (\<lambda>(k, w). \<not> dropped wire_codec DefaultCmp (version_new DefaultCmp) 0 2 ?es k) ?es = [entry [97] 2 TypeValue [8]]"
    by (simp add: dropped_def newer_kept_def entry_facts cmp_eq_def)
  finally have "surviving wire_codec DefaultCmp (snapshots_oldest ?sl) ?c drop_state_new ?es = Some [entry [97] 2 TypeValue [8]]"
    by (simp only: old)
  moreover have "shows_value wire_codec DefaultCmp 1 ?es [97] [9]"
    unfolding shows_value_def by (rule exI [of _ "ikey wire_codec [97] 1 TypeValue"]) (auto simp: entry_facts)
  moreover have "\<not> (\<exists>val. shows_value wire_codec DefaultCmp 1 [entry [97] 2 TypeValue [8]] [97] val)"
    by (auto simp: shows_value_def entry_facts word_le_nat_alt)
  ultimately show ?thesis
    using reach by (intro exI [of _ ?sl] exI [of _ ?s2] exI [of _ ?es] exI [of _ "[entry [97] 2 TypeValue [8]]"]) simp
qed

end
