(* ===== verification/Table_Cache.thy ===== *)
theory Table_Cache
  imports Table_Reader Mem_Env File_Names
begin

text \<open>
  The cache of open tables (\<open>src/src/table_cache.rs\<close>): a table is opened from its file and kept under
  its file number. The files are those of the in-memory environment; the block cache that all tables
  share is passed along. A table the cache hands out is one that opening the file gives.
\<close>

definition filenum_to_key :: "int_codec \<Rightarrow> file_num \<Rightarrow> cache_key run" where
  "filenum_to_key ie num = write_parts 16 [encode_fixed64 ie num]"

record table_cache =
  tc_dbname :: string
  tc_cache :: "table cache"
  tc_opts :: options

definition table_cache_new :: "string \<Rightarrow> options \<Rightarrow> nat \<Rightarrow> table_cache run" where
  "table_cache_new db opt entries = do { c \<leftarrow> cache_new entries; Some \<lparr>tc_dbname = db, tc_cache = c, tc_opts = opt\<rparr> }"

definition tc_open_table ::
    "int_codec \<Rightarrow> (bytes \<Rightarrow> u32) \<Rightarrow> mem_fs \<Rightarrow> block_cache \<Rightarrow> table_cache \<Rightarrow> file_num \<Rightarrow> (table result \<times> block_cache \<times> table_cache) run" where
  "tc_open_table ie crc fs bc tc num =
     do { name \<leftarrow> table_file_name (tc_dbname tc) num;
          case fs_size_of fs name of
            Inl e \<Rightarrow> Some (Inl e, bc, tc)
          | Inr file_size \<Rightarrow>
              if file_size = 0 then Some (err InvalidData ''file is empty'', bc, tc)
              else case fst (open_random_access_file fs name) of
                  Inl e \<Rightarrow> Some (Inl e, bc, tc)
                | Inr f \<Rightarrow>
                    do { (r, bc) \<leftarrow> table_new ie crc (tc_opts tc) bc (mem_file_read_at fs f) file_size;
                         case r of
                           Inl e \<Rightarrow> Some (Inl e, bc, tc)
                         | Inr t \<Rightarrow> do { key \<leftarrow> filenum_to_key ie num;
                                        c \<leftarrow> cache_insert (tc_cache tc) key t;
                                        Some (Inr t, bc, tc\<lparr>tc_cache := c\<rparr>) } } }"

definition tc_get_table ::
    "int_codec \<Rightarrow> (bytes \<Rightarrow> u32) \<Rightarrow> mem_fs \<Rightarrow> block_cache \<Rightarrow> table_cache \<Rightarrow> file_num \<Rightarrow> (table result \<times> block_cache \<times> table_cache) run" where
  "tc_get_table ie crc fs bc tc num =
     do { key \<leftarrow> filenum_to_key ie num;
          (hit, c) \<leftarrow> cache_get (tc_cache tc) key;
          let tc = tc\<lparr>tc_cache := c\<rparr>;
          case hit of Some t \<Rightarrow> Some (Inr t, bc, tc) | None \<Rightarrow> tc_open_table ie crc fs bc tc num }"

definition tc_get ::
    "int_codec \<Rightarrow> (bytes \<Rightarrow> u32) \<Rightarrow> mem_fs \<Rightarrow> block_cache \<Rightarrow> table_cache \<Rightarrow> file_num \<Rightarrow> bytes \<Rightarrow>
      ((bytes \<times> bytes) option result \<times> block_cache \<times> table_cache) run" where
  "tc_get ie crc fs bc tc num key =
     do { (r, bc, tc) \<leftarrow> tc_get_table ie crc fs bc tc num;
          case r of
            Inl e \<Rightarrow> Some (Inl e, bc, tc)
          | Inr t \<Rightarrow> do { (r, bc) \<leftarrow> table_entry_get ie crc t bc key; Some (r, bc, tc) } }"

definition tc_evict :: "int_codec \<Rightarrow> table_cache \<Rightarrow> file_num \<Rightarrow> (unit result \<times> table_cache) run" where
  "tc_evict ie tc num =
     do { key \<leftarrow> filenum_to_key ie num;
          (r, c) \<leftarrow> cache_remove (tc_cache tc) key;
          Some (if r \<noteq> None then Inr () else err NotFound ''table not present in cache'', tc\<lparr>tc_cache := c\<rparr>) }"


section \<open>Tables of files\<close>

text \<open>A table that opening the file with a number gives.\<close>

definition opens_as :: "int_codec \<Rightarrow> (bytes \<Rightarrow> u32) \<Rightarrow> mem_fs \<Rightarrow> string \<Rightarrow> options \<Rightarrow> file_num \<Rightarrow> table \<Rightarrow> bool" where
  "opens_as ie crc fs db opt num t \<longleftrightarrow> (\<exists>name n f bc bc'. table_file_name db num = Some name \<and> fs_size_of fs name = Inr n \<and> n \<noteq> 0 \<and>
     fst (open_random_access_file fs name) = Inr f \<and> table_new ie crc opt bc (mem_file_read_at fs f) n = Some (Inr t, bc'))"

definition tc_inv :: "int_codec \<Rightarrow> (bytes \<Rightarrow> u32) \<Rightarrow> mem_fs \<Rightarrow> nat \<Rightarrow> table_cache \<Rightarrow> bool" where
  "tc_inv ie crc fs n tc \<longleftrightarrow> cache_inv n (tc_cache tc) \<and>
     (\<forall>k t. cache_contents (tc_cache tc) k = Some t \<longrightarrow>
        (\<exists>num. filenum_to_key ie num = Some k \<and> opens_as ie crc fs (tc_dbname tc) (tc_opts tc) num t))"

context integer_encoding
begin

lemma filenum_key: "filenum_to_key ie num = Some (encode_fixed64 ie num @ replicate 8 0)"
  by (simp add: filenum_to_key_def write_parts_def codec_laws)

lemma filenum_key_inj: "filenum_to_key ie a = Some k \<Longrightarrow> filenum_to_key ie b = Some k \<Longrightarrow> a = b"
  using codec_laws by (metis append_eq_append_conv filenum_key length_replicate option.inject)

end

lemma table_new_any_cache:
  assumes "table_new ie crc opt bc f n = Some (Inr t, bc1)"
  shows "table_new ie crc opt bc' f n = Some (Inr (t\<lparr>t_cache_id := c_id bc' + 1\<rparr>), snd (new_cache_id bc'))"
  using assms
  by (auto simp: table_new_def table_new_raw_def new_cache_id_def Let_def split: Option.bind_splits sum.splits)

text \<open>Every table the cache returns is one that its file opens as, from the cache or not, and the cache stays such a cache.\<close>

lemma tc_get_table_ok:
  assumes "integer_encoding ie" "tc_inv ie crc fs n tc" "\<exists>t. opens_as ie crc fs (tc_dbname tc) (tc_opts tc) num t"
  shows "\<exists>t bc' tc'. tc_get_table ie crc fs bc tc num = Some (Inr t, bc', tc') \<and> opens_as ie crc fs (tc_dbname tc) (tc_opts tc) num t \<and>
    tc_inv ie crc fs n tc' \<and> tc_dbname tc' = tc_dbname tc \<and> tc_opts tc' = tc_opts tc"
proof -
  let ?ok = "\<lambda>k t. \<exists>num. filenum_to_key ie num = Some k \<and> opens_as ie crc fs (tc_dbname tc) (tc_opts tc) num t"
  obtain k where k: "filenum_to_key ie num = Some k" using integer_encoding.filenum_key [OF assms(1)] by blast
  have inv: "cache_inv n (tc_cache tc)" "\<forall>k t. cache_contents (tc_cache tc) k = Some t \<longrightarrow> ?ok k t"
    using assms(2) by (simp_all add: tc_inv_def)
  obtain r c where c: "cache_get (tc_cache tc) k = Some (r, c)" "cache_inv n c" "\<forall>k t. cache_contents c k = Some t \<longrightarrow> ?ok k t"
      "\<forall>t. r = Some t \<longrightarrow> ?ok k t" "cache_contents c k = r"
    using lru.coherent_get [OF inv] by blast
  let ?tc = "tc\<lparr>tc_cache := c\<rparr>"
  show ?thesis
  proof (cases r)
    case (Some t)
    then have "opens_as ie crc fs (tc_dbname tc) (tc_opts tc) num t" using c(4) k integer_encoding.filenum_key_inj [OF assms(1) k] by blast
    then show ?thesis using c(1-3) k Some by (simp add: tc_get_table_def tc_inv_def)
  next
    case None
    obtain t0 name sz f b b' where f: "table_file_name (tc_dbname tc) num = Some name" "fs_size_of fs name = Inr sz" "sz \<noteq> 0"
        "fst (open_random_access_file fs name) = Inr f" "table_new ie crc (tc_opts tc) b (mem_file_read_at fs f) sz = Some (Inr t0, b')"
      using assms(3) by (auto simp: opens_as_def)
    let ?t = "t0\<lparr>t_cache_id := c_id bc + 1\<rparr>"
    have new: "table_new ie crc (tc_opts tc) bc (mem_file_read_at fs f) sz = Some (Inr ?t, snd (new_cache_id bc))"
      by (rule table_new_any_cache [OF f(5)])
    then have ok: "opens_as ie crc fs (tc_dbname tc) (tc_opts tc) num ?t" using f(1-4) by (auto simp: opens_as_def)
    obtain c2 where "cache_insert c k ?t = Some c2" "cache_inv n c2" "\<forall>k t. cache_contents c2 k = Some t \<longrightarrow> ?ok k t"
      using lru.coherent_put [OF c(2,3), of k ?t] c(5) None k ok by auto
    then show ?thesis using c(1) k None f(1-4) new ok by (simp add: tc_get_table_def tc_open_table_def tc_inv_def)
  qed
qed

end
