(* ===== verification/Version_Set.thy ===== *)
theory Version_Set
  imports Compaction Table_Cache Log_File
begin

text \<open>
  The set of versions (\<open>VersionSet\<close> of \<open>src/src/version_set.rs\<close>): file numbers, the choice of
  compactions, the manifest and the \<open>CURRENT\<close> file. The files are those of the in-memory environment,
  whose state is passed along. A writer is always at the end of its file, so it is represented by the
  file it appends to.
\<close>

record version_set =
  vs_dbname :: string
  vs_opt :: options
  vs_cmp :: comparator
  vs_next_file_num :: u64
  vs_manifest_num :: u64
  vs_last_seq :: u64
  vs_log_num :: u64
  vs_prev_log_num :: u64
  vs_current :: "version option"
  vs_compaction_ptrs :: "bytes list"
  vs_descriptor_log :: "mem_file log_writer option"

definition version_set_new :: "int_codec \<Rightarrow> string \<Rightarrow> options \<Rightarrow> version_set" where
  "version_set_new ie db opt =
     \<lparr>vs_dbname = db, vs_opt = opt, vs_cmp = InternalKeyCmp ie (opt_cmp opt), vs_next_file_num = 2, vs_manifest_num = 0,
      vs_last_seq = 0, vs_log_num = 0, vs_prev_log_num = 0, vs_current = Some (version_new (opt_cmp opt)),
      vs_compaction_ptrs = replicate NUM_LEVELS [], vs_descriptor_log = None\<rparr>"

definition live_files :: "version_set \<Rightarrow> file_num set" where
  "live_files vs = (case vs_current vs of None \<Rightarrow> {} | Some v \<Rightarrow> fnum ` set (concat (v_files v)))"

definition add_version :: "version_set \<Rightarrow> version \<Rightarrow> version_set" where
  "add_version vs v = vs\<lparr>vs_current := Some v\<rparr>"

definition new_file_number :: "version_set \<Rightarrow> file_num \<times> version_set" where
  "new_file_number vs = (vs_next_file_num vs, vs\<lparr>vs_next_file_num := vs_next_file_num vs + 1\<rparr>)"

definition reuse_file_number :: "version_set \<Rightarrow> file_num \<Rightarrow> version_set" where
  "reuse_file_number vs n = (if n = vs_next_file_num vs - 1 then vs\<lparr>vs_next_file_num := n\<rparr> else vs)"

definition mark_file_number_used :: "version_set \<Rightarrow> file_num \<Rightarrow> version_set" where
  "mark_file_number_used vs n = (if vs_next_file_num vs \<le> n then vs\<lparr>vs_next_file_num := n + 1\<rparr> else vs)"

definition score_due :: "version \<Rightarrow> bool" where
  "score_due v \<longleftrightarrow> (case v_compaction_score v of None \<Rightarrow> 0 | Some s \<Rightarrow> s) \<ge> 1"

definition needs_compaction :: "version_set \<Rightarrow> bool run" where
  "needs_compaction vs = do { v \<leftarrow> vs_current vs; Some (score_due v \<or> v_file_to_compact v \<noteq> None) }"

text \<open>The sizes of the files before a key; tables that cannot be opened do not count.\<close>

fun offset_in_level ::
    "int_codec \<Rightarrow> comparator \<Rightarrow> (file_num \<Rightarrow> table result run) \<Rightarrow> nat \<Rightarrow> bytes \<Rightarrow> file_meta_data list \<Rightarrow> nat \<Rightarrow> nat run" where
  "offset_in_level ie c get_table level key [] off = Some off"
| "offset_in_level ie c get_table level key (f # fs) off =
     do { o1 \<leftarrow> cmp c (largest f) key;
          if o1 \<le> Equal then offset_in_level ie c get_table level key fs (off + fsize f)
          else do { o2 \<leftarrow> cmp c (smallest f) key;
                    if o2 = Greater
                    then (if level > 0 then Some off else offset_in_level ie c get_table level key fs off)
                    else do { t \<leftarrow> get_table (fnum f);
                              n \<leftarrow> (case t of Inl _ \<Rightarrow> Some 0 | Inr tbl \<Rightarrow> approx_offset_of ie tbl key);
                              offset_in_level ie c get_table level key fs (off + n) } } }"

fun offset_in_levels ::
    "int_codec \<Rightarrow> comparator \<Rightarrow> (file_num \<Rightarrow> table result run) \<Rightarrow> version \<Rightarrow> bytes \<Rightarrow> nat list \<Rightarrow> nat \<Rightarrow> nat run" where
  "offset_in_levels ie c get_table v key [] off = Some off"
| "offset_in_levels ie c get_table v key (l # ls) off =
     do { fs \<leftarrow> index (v_files v) l;
          off \<leftarrow> offset_in_level ie c get_table l key fs off;
          offset_in_levels ie c get_table v key ls off }"

definition approximate_offset :: "int_codec \<Rightarrow> (file_num \<Rightarrow> table result run) \<Rightarrow> version_set \<Rightarrow> version \<Rightarrow> bytes \<Rightarrow> nat run" where
  "approximate_offset ie get_table vs v key =
     offset_in_levels ie (opt_cmp (vs_opt vs)) get_table v key [0..<NUM_LEVELS] 0"


section \<open>The choice of a compaction\<close>

definition setup_other_inputs :: "int_codec \<Rightarrow> version_set \<Rightarrow> compaction \<Rightarrow> (version_set \<times> compaction) run" where
  "setup_other_inputs ie vs c =
     do { current \<leftarrow> vs_current vs;
          let level = co_level c;
          in0 \<leftarrow> index (co_inputs c) 0;
          (small, large) \<leftarrow> get_range (vs_cmp vs) in0;
          in1 \<leftarrow> overlapping_inputs ie current (level + 1) small large;
          (allstart, alllimit) \<leftarrow> get_range (vs_cmp vs) (in0 @ in1);
          (in0, in1, large, allstart, alllimit) \<leftarrow>
            (if in1 = [] then Some (in0, in1, large, allstart, alllimit)
             else do { expanded0 \<leftarrow> overlapping_inputs ie current level allstart alllimit;
                       if length expanded0 > length in0 \<and> total_size in1 + total_size expanded0 < 25 * max_file_size (vs_opt vs)
                       then do { (new_start, new_limit) \<leftarrow> get_range (vs_cmp vs) expanded0;
                                 expanded1 \<leftarrow> overlapping_inputs ie current (level + 1) new_start new_limit;
                                 if length expanded1 = length in1
                                 then do { (allstart, alllimit) \<leftarrow> get_range (vs_cmp vs) (expanded0 @ expanded1);
                                           Some (expanded0, expanded1, new_limit, allstart, alllimit) }
                                 else Some (in0, in1, large, allstart, alllimit) }
                       else Some (in0, in1, large, allstart, alllimit) });
          grandparents \<leftarrow> (if level + 2 < NUM_LEVELS
                          then do { gp \<leftarrow> overlapping_inputs ie current (level + 2) allstart alllimit; Some (Some gp) }
                          else Some (co_grandparents c));
          ensure (level < length (vs_compaction_ptrs vs));
          Some (vs\<lparr>vs_compaction_ptrs := (vs_compaction_ptrs vs)[level := large]\<rparr>,
                c\<lparr>co_inputs := [in0, in1], co_grandparents := grandparents, co_edit := set_compact_pointer (co_edit c) level large\<rparr>) }"

text \<open>The first file of a level after the pointer.\<close>

fun first_after :: "comparator \<Rightarrow> bytes \<Rightarrow> file_meta_data list \<Rightarrow> file_meta_data option run" where
  "first_after c ptr [] = Some None"
| "first_after c ptr (f # fs) =
     (if ptr = [] then Some (Some f)
      else do { o1 \<leftarrow> cmp c (largest f) ptr; if o1 = Greater then Some (Some f) else first_after c ptr fs })"

definition pick_compaction :: "int_codec \<Rightarrow> version_set \<Rightarrow> (version_set \<times> compaction option) run" where
  "pick_compaction ie vs =
     do { current \<leftarrow> vs_current vs;
          let c = compaction_new ie (vs_opt vs) 0 (vs_current vs);
          choice \<leftarrow>
            (if score_due current
             then do { level \<leftarrow> v_compaction_level current;
                       ensure (level < NUM_LEVELS - 1);
                       files \<leftarrow> index (v_files current) level;
                       ptr \<leftarrow> index (vs_compaction_ptrs vs) level;
                       f \<leftarrow> first_after (vs_cmp vs) ptr files;
                       f \<leftarrow> (case f of Some f \<Rightarrow> Some f | None \<Rightarrow> index files 0);
                       c \<leftarrow> add_input c 0 f;
                       Some (Some (level, c)) }
             else case v_file_to_compact current of
                 Some ftc \<Rightarrow> do { c \<leftarrow> add_input c 0 ftc; Some (Some (v_file_to_compact_lvl current, c)) }
               | None \<Rightarrow> Some None);
          case choice of
            None \<Rightarrow> Some (vs, None)
          | Some (level, c) \<Rightarrow>
              do { let c = c\<lparr>co_level := level, co_input_version := vs_current vs\<rparr>;
                   c \<leftarrow> (if level = 0
                        then do { in0 \<leftarrow> index (co_inputs c) 0;
                                  (small, large) \<leftarrow> get_range (vs_cmp vs) in0;
                                  in0 \<leftarrow> overlapping_inputs ie current 0 small large;
                                  ensure (in0 \<noteq> []);
                                  Some (c\<lparr>co_inputs := (co_inputs c)[0 := in0]\<rparr>) }
                        else Some c);
                   (vs, c) \<leftarrow> setup_other_inputs ie vs c;
                   Some (vs, Some c) } }"

text \<open>The files up to the one with which the size exceeds the limit.\<close>

fun limit_inputs :: "nat \<Rightarrow> nat \<Rightarrow> file_meta_data list \<Rightarrow> file_meta_data list" where
  "limit_inputs limit sz [] = []"
| "limit_inputs limit sz (f # fs) = f # (if sz + fsize f > limit then [] else limit_inputs limit (sz + fsize f) fs)"

definition vs_compact_range :: "int_codec \<Rightarrow> version_set \<Rightarrow> nat \<Rightarrow> bytes \<Rightarrow> bytes \<Rightarrow> (version_set \<times> compaction option) run" where
  "vs_compact_range ie vs level from to =
     do { current \<leftarrow> vs_current vs;
          inputs \<leftarrow> overlapping_inputs ie current level from to;
          if inputs = [] then Some (vs, None)
          else do { let inputs = (if level > 0 then limit_inputs (max_file_size (vs_opt vs)) 0 inputs else inputs);
                    let c = compaction_new ie (vs_opt vs) level (vs_current vs);
                    let c = c\<lparr>co_inputs := (co_inputs c)[0 := inputs], co_manual := True\<rparr>;
                    (vs, c) \<leftarrow> setup_other_inputs ie vs c;
                    Some (vs, Some c) } }"

text \<open>\<open>finalize\<close>: the level with the highest score.\<close>

definition level_score :: "version \<Rightarrow> nat \<Rightarrow> rat run" where
  "level_score v l =
     do { fs \<leftarrow> index (v_files v) l;
          Some (if l = 0 then of_nat (length fs) / 4 else of_nat (total_size fs) / (10 * 2 ^ 20 * 10 ^ (l - 1))) }"

fun best_level :: "version \<Rightarrow> nat list \<Rightarrow> (nat \<times> rat) option \<Rightarrow> (nat \<times> rat) option run" where
  "best_level v [] bst = Some bst"
| "best_level v (l # ls) bst =
     do { score \<leftarrow> level_score v l;
          best_level v ls (case bst of Some (_, b) \<Rightarrow> if b < score then Some (l, score) else bst | None \<Rightarrow> Some (l, score)) }"

definition vs_finalize :: "version \<Rightarrow> version run" where
  "vs_finalize v =
     do { bst \<leftarrow> best_level v [0..<NUM_LEVELS - 1] None;
          Some (v\<lparr>v_compaction_score := map_option snd bst, v_compaction_level := map_option fst bst\<rparr>) }"


section \<open>The current file\<close>

definition bytes_of :: "string \<Rightarrow> bytes" where
  "bytes_of s = map of_char s"

definition string_of :: "bytes \<Rightarrow> string" where
  "string_of bs = map (\<lambda>b. char_of (unat b)) bs"

definition read_current_file :: "mem_fs \<Rightarrow> string \<Rightarrow> string result" where
  "read_current_file fs dbname =
     (case fst (open_sequential_file fs (current_file_name dbname)) of
        Inl e \<Rightarrow> Inl e
      | Inr f \<Rightarrow>
          let current = drop (snd f) (fs_buffers fs (fst f))
          in if \<not> utf8_valid current then Inl (status_of_io IoInvalidData ''stream did not contain valid UTF-8'')
             else if current = [] \<or> last current \<noteq> 10 then err Corruption ''current file is empty or has no newline''
             else Inr (string_of current))"

text \<open>Two \<open>write_all\<close> calls on a file, which cannot fail in memory.\<close>

definition append_file :: "mem_fs \<Rightarrow> mem_file \<Rightarrow> bytes \<Rightarrow> (mem_fs \<times> unit result) run" where
  "append_file fs f bs = do { (w, r) \<leftarrow> write_all mem_append (fs, f) bs; Some (fst w, r) }"

definition set_current_file :: "mem_fs \<Rightarrow> string \<Rightarrow> file_num \<Rightarrow> (mem_fs \<times> unit result) run" where
  "set_current_file fs dbname num =
     (let tempfile = temp_file_name dbname num
      in case open_writable_file fs tempfile of
           (Inl e, fs) \<Rightarrow> Some (fs, Inl e)
         | (Inr w, fs) \<Rightarrow>
             do { (fs, r) \<leftarrow> append_file fs (fst w) (bytes_of (manifest_name num));
                  case r of Inl e \<Rightarrow> Some (fs, Inl e) | Inr _ \<Rightarrow>
                  do { (fs, r) \<leftarrow> append_file fs (fst w) [10];
                       case r of Inl e \<Rightarrow> Some (fs, Inl e) | Inr _ \<Rightarrow>
                       (case fs_rename fs tempfile (current_file_name dbname) of
                          (Inl e, fs) \<Rightarrow> Some (snd (fs_delete fs tempfile), Inl e)
                        | (Inr _, fs) \<Rightarrow> Some (fs, Inr ())) } })"


section \<open>The manifest\<close>

text \<open>A log writer over a file: its destination is the file, which is completed by the file system for a write.\<close>

definition with_dst :: "'b \<Rightarrow> 'a log_writer \<Rightarrow> 'b log_writer" where
  "with_dst d lw = \<lparr>dst = d, current_block_offset = current_block_offset lw, block_size = log_writer.block_size lw\<rparr>"

definition log_to_file ::
    "int_codec \<Rightarrow> (bytes \<Rightarrow> u32) \<Rightarrow> mem_fs \<Rightarrow> mem_file log_writer \<Rightarrow> bytes \<Rightarrow> (mem_fs \<times> mem_file log_writer \<times> nat result) run" where
  "log_to_file ie crc fs lw r =
     do { (lw, res) \<leftarrow> add_record ie crc mem_append (with_dst (fs, dst lw) lw) r;
          Some (fst (dst lw), with_dst (snd (dst lw)) lw, res) }"

definition snapshot_edit :: "version_set \<Rightarrow> version \<Rightarrow> version_edit" where
  "snapshot_edit vs current =
     (let edit = set_comparator_name version_edit_new (bytes_of (cmp_id (opt_cmp (vs_opt vs))));
          edit = fold (\<lambda>(l, ptr) e. if ptr \<noteq> [] then set_compact_pointer e l ptr else e) (enumerate 0 (vs_compaction_ptrs vs)) edit
      in fold (\<lambda>(l, fs) e. fold (\<lambda>f e. ve_add_file e l f) fs e) (enumerate 0 (v_files current)) edit)"

definition write_snapshot :: "int_codec \<Rightarrow> (bytes \<Rightarrow> u32) \<Rightarrow> mem_fs \<Rightarrow> version_set \<Rightarrow> (mem_fs \<times> version_set \<times> nat result) run" where
  "write_snapshot ie crc fs vs =
     do { lw \<leftarrow> vs_descriptor_log vs;
          current \<leftarrow> vs_current vs;
          (fs, lw, r) \<leftarrow> log_to_file ie crc fs lw (ve_encode ie (snapshot_edit vs current));
          Some (fs, vs\<lparr>vs_descriptor_log := Some lw\<rparr>, r) }"

text \<open>The numbers \<open>log_and_apply\<close> completes an edit with.\<close>

definition complete_edit :: "version_set \<Rightarrow> version_edit \<Rightarrow> version_edit run" where
  "complete_edit vs edit =
     do { edit \<leftarrow> (case ve_log_number edit of
                   None \<Rightarrow> Some (set_log_num edit (vs_log_num vs))
                 | Some n \<Rightarrow> do { ensure (n \<ge> vs_log_num vs); ensure (n < vs_next_file_num vs); Some edit });
          let edit = (if ve_prev_log_number edit = None then set_prev_log_num edit (vs_prev_log_num vs) else edit);
          Some (set_last_seq (set_next_file edit (vs_next_file_num vs)) (vs_last_seq vs)) }"

text \<open>A new manifest is opened when there is none, with a snapshot of the current version.\<close>

definition ensure_manifest ::
    "int_codec \<Rightarrow> (bytes \<Rightarrow> u32) \<Rightarrow> mem_fs \<Rightarrow> version_set \<Rightarrow> (mem_fs \<times> version_set \<times> unit result) run" where
  "ensure_manifest ie crc fs vs =
     (case vs_descriptor_log vs of
        Some _ \<Rightarrow> Some (fs, vs, Inr ())
      | None \<Rightarrow>
          (case open_writable_file fs (manifest_file_name (vs_dbname vs) (vs_manifest_num vs)) of
             (Inl e, fs) \<Rightarrow> Some (fs, vs, Inl e)
           | (Inr w, fs) \<Rightarrow>
               do { (fs, vs, r) \<leftarrow> write_snapshot ie crc fs (vs\<lparr>vs_descriptor_log := Some (log_writer_new (fst w))\<rparr>);
                    Some (fs, vs, map_sum id (\<lambda>_. ()) r) }))"

definition log_and_apply ::
    "int_codec \<Rightarrow> (bytes \<Rightarrow> u32) \<Rightarrow> mem_fs \<Rightarrow> version_set \<Rightarrow> version_edit \<Rightarrow> (mem_fs \<times> version_set \<times> unit result) run" where
  "log_and_apply ie crc fs vs edit =
     do { current \<leftarrow> vs_current vs;
          edit \<leftarrow> complete_edit vs edit;
          (b, ptrs) \<leftarrow> builder_apply builder_new edit (vs_compaction_ptrs vs);
          (b, current, v) \<leftarrow> save_to b (vs_cmp vs) current (version_new (opt_cmp (vs_opt vs)));
          v \<leftarrow> vs_finalize v;
          let vs = vs\<lparr>vs_compaction_ptrs := ptrs, vs_current := Some current\<rparr>;
          (fs, vs, r) \<leftarrow> ensure_manifest ie crc fs vs;
          case r of Inl e \<Rightarrow> Some (fs, vs, Inl e) | Inr _ \<Rightarrow>
          do { lw \<leftarrow> vs_descriptor_log vs;
               (fs, lw, r) \<leftarrow> log_to_file ie crc fs lw (ve_encode ie edit);
               let vs = vs\<lparr>vs_descriptor_log := Some lw\<rparr>;
               case r of Inl e \<Rightarrow> Some (fs, vs, Inl e) | Inr _ \<Rightarrow>
               do { (fs, r) \<leftarrow> set_current_file fs (vs_dbname vs) (vs_manifest_num vs);
                    case r of Inl e \<Rightarrow> Some (fs, vs, Inl e) | Inr _ \<Rightarrow>
                    do { log_num \<leftarrow> ve_log_number edit;
                         Some (fs, (add_version vs v)\<lparr>vs_log_num := log_num\<rparr>, Inr ()) } } } }"


section \<open>Recovery\<close>

record manifest_nums =
  mn_log_number :: "u64 option"
  mn_prev_log_number :: "u64 option"
  mn_next_file_number :: "u64 option"
  mn_last_seq :: "u64 option"

definition or_else :: "'a option \<Rightarrow> 'a option \<Rightarrow> 'a option" where
  "or_else a b = (case a of None \<Rightarrow> b | Some _ \<Rightarrow> a)"

definition take_nums :: "version_edit \<Rightarrow> manifest_nums \<Rightarrow> manifest_nums" where
  "take_nums e mn =
     \<lparr>mn_log_number = or_else (ve_log_number e) (mn_log_number mn), mn_prev_log_number = or_else (ve_prev_log_number e) (mn_prev_log_number mn),
      mn_next_file_number = or_else (ve_next_file_number e) (mn_next_file_number mn), mn_last_seq = or_else (ve_last_seq e) (mn_last_seq mn)\<rparr>"

text \<open>The loop over the records of the manifest; an error of the reader ends it.\<close>

partial_function (option) manifest_loop ::
    "int_codec \<Rightarrow> (bytes \<Rightarrow> u32) \<Rightarrow> mem_fs \<Rightarrow> mem_cursor log_reader \<Rightarrow> builder \<Rightarrow> bytes list \<Rightarrow> manifest_nums \<Rightarrow>
      (bytes list \<times> (builder \<times> manifest_nums) result) option" where
  "manifest_loop ie crc fs lr b ptrs mn =
     log_read ie crc (mem_read fs) lr \<bind> (\<lambda>(lr, buf, r).
       if r = Inr 0 \<or> \<not> is_ok r then Some (ptrs, Inr (b, mn))
       else decode_from ie buf \<bind> (\<lambda>d. case d of
           Inl e \<Rightarrow> Some (ptrs, Inl e)
         | Inr edit \<Rightarrow> builder_apply b edit ptrs \<bind> (\<lambda>(b, ptrs). manifest_loop ie crc fs lr b ptrs (take_nums edit mn))))"

definition apply_nums :: "manifest_nums \<Rightarrow> version_set \<Rightarrow> version_set \<times> unit result" where
  "apply_nums mn vs =
     (case mn_log_number mn of None \<Rightarrow> (vs, err Corruption ''no meta-lognumber entry in descriptor'') | Some lnum \<Rightarrow>
      let vs = mark_file_number_used (vs\<lparr>vs_log_num := lnum\<rparr>) lnum in
      case mn_next_file_number mn of None \<Rightarrow> (vs, err Corruption ''no meta-next-file entry in descriptor'') | Some nfn \<Rightarrow>
      let vs = vs\<lparr>vs_next_file_num := nfn + 1\<rparr> in
      case mn_last_seq mn of None \<Rightarrow> (vs, err Corruption ''no last-sequence entry in descriptor'') | Some ls \<Rightarrow>
      let vs = vs\<lparr>vs_last_seq := ls\<rparr> in
      case mn_prev_log_number mn of
        None \<Rightarrow> (vs\<lparr>vs_prev_log_num := 0\<rparr>, Inr ())
      | Some pln \<Rightarrow> (mark_file_number_used (vs\<lparr>vs_prev_log_num := pln\<rparr>) pln, Inr ()))"

definition vs_reuse_manifest :: "mem_fs \<Rightarrow> version_set \<Rightarrow> string \<Rightarrow> string \<Rightarrow> (mem_fs \<times> version_set \<times> bool) run" where
  "vs_reuse_manifest fs vs path base =
     (if \<not> reuse_manifest (vs_opt vs) then Some (fs, vs, False)
      else case parse_file_name base of
          Inl _ \<Rightarrow> Some (fs, vs, False)
        | Inr (num, typ) \<Rightarrow>
            if typ \<noteq> Descriptor then Some (fs, vs, False)
            else case fs_size_of fs path of
                Inl _ \<Rightarrow> Some (fs, vs, False)
              | Inr sz \<Rightarrow>
                  if sz \<ge> max_file_size (vs_opt vs) then Some (fs, vs, False)
                  else do { ensure (vs_descriptor_log vs = None);
                            case open_appendable_file fs path of
                              (Inl _, fs) \<Rightarrow> Some (fs, vs, False)
                            | (Inr w, fs) \<Rightarrow>
                                Some (fs, vs\<lparr>vs_descriptor_log := Some (log_writer_new_with_off (fst w) sz), vs_manifest_num := num\<rparr>, True) })"

text \<open>\<open>Path::join\<close> with a name that may be absolute.\<close>

definition join_any :: "string \<Rightarrow> string \<Rightarrow> string" where
  "join_any dir name = (case name of c # _ \<Rightarrow> if c = CHR ''/'' then name else path_join dir name | [] \<Rightarrow> path_join dir name)"

definition vs_recover :: "int_codec \<Rightarrow> (bytes \<Rightarrow> u32) \<Rightarrow> mem_fs \<Rightarrow> version_set \<Rightarrow> (mem_fs \<times> version_set \<times> bool result) run" where
  "vs_recover ie crc fs vs =
     do { base \<leftarrow> vs_current vs;
          case read_current_file fs (vs_dbname vs) of Inl e \<Rightarrow> Some (fs, vs, Inl e) | Inr current \<Rightarrow>
          let current = butlast current; descfilename = join_any (vs_dbname vs) current in
          case fst (open_sequential_file fs descfilename) of Inl e \<Rightarrow> Some (fs, vs, Inl e) | Inr f \<Rightarrow>
          do { (ptrs, r) \<leftarrow> manifest_loop ie crc fs (log_reader_new f True) builder_new (vs_compaction_ptrs vs)
                 \<lparr>mn_log_number = None, mn_prev_log_number = None, mn_next_file_number = None, mn_last_seq = None\<rparr>;
               let vs = vs\<lparr>vs_compaction_ptrs := ptrs\<rparr>;
               case r of Inl e \<Rightarrow> Some (fs, vs, Inl e) | Inr (b, mn) \<Rightarrow>
               let (vs, r) = apply_nums mn vs in
               case r of Inl e \<Rightarrow> Some (fs, vs, Inl e) | Inr _ \<Rightarrow>
               do { (b, base, v) \<leftarrow> save_to b (vs_cmp vs) base (version_new (opt_cmp (vs_opt vs)));
                    v \<leftarrow> vs_finalize v;
                    let vs = (add_version vs v)\<lparr>vs_manifest_num := vs_next_file_num vs - 1\<rparr>;
                    (fs, vs, reused) \<leftarrow> vs_reuse_manifest fs vs descfilename current;
                    Some (fs, vs, Inr (\<not> reused)) } } }"

end
