(* ===== verification/Manifest.thy ===== *)
theory Manifest
  imports Version_Set
begin

text \<open>
  What the manifest keeps: edits that \<open>log_and_apply\<close> writes, one after the other, are read back by
  \<open>recover\<close>, and the version that is formed from them has the files of the version that was current.
\<close>

section \<open>What writing leaves alone\<close>

definition write_keeps :: "('w \<Rightarrow> bool) \<Rightarrow> 'w write_fun \<Rightarrow> bool" where
  "write_keeps P wr \<longleftrightarrow> (\<forall>w bs. P w \<longrightarrow> P (fst (wr w bs)))"

lemma write_all_keeps:
  assumes "write_keeps P wr"
  shows "P w \<Longrightarrow> write_all wr w bs = Some (w', r) \<Longrightarrow> P w'"
  using assms
proof (induction wr w bs arbitrary: w' r rule: write_all.induct)
  case (1 wr w bs)
  have "P (fst (wr w bs))" using 1(2,4) by (simp add: write_keeps_def)
  then show ?case
    using 1(1) [of "fst (wr w bs)"] 1(2-4) by (subst (asm) (2) write_all.simps) (auto split: if_splits prod.splits sum.splits)
qed

lemma write_seq_keeps:
  assumes "write_keeps P wr"
  shows "P w \<Longrightarrow> P (fst (write_seq wr w bss n))"
proof (induction bss arbitrary: w n)
  case (Cons bs bss)
  have "P (fst (wr w bs))" using Cons.prems assms by (simp add: write_keeps_def)
  then show ?case using Cons.IH by (auto split: prod.splits sum.splits)
qed simp

lemma emit_record_keeps:
  assumes "write_keeps P wr" "P (dst lw)" "emit_record ie crc wr lw t data len = Some (lw', r)"
  shows "P (dst lw')"
proof -
  have keep: "P w" if "write_seq wr (dst lw) bss n = (w, r)" for bss n w r
    using write_seq_keeps [OF assms(1,2), of bss n] that by simp
  show ?thesis using assms(3)
    by (auto simp: emit_record_def Let_def simp del: write_seq.simps dest: keep
        split: Option.bind_split_asm prod.split_asm sum.split_asm if_split_asm)
qed

lemma add_record_loop_keeps:
  assumes "add_record_loop ie crc wr lw rec first res = Some y"
  shows "write_keeps P wr \<longrightarrow> P (dst lw) \<longrightarrow> P (dst (fst y))"
proof (rule add_record_loop.raw_induct [OF _ assms], intro impI, goal_cases)
  case (1 f ie crc wr lw rec first res y)
  note IH = 1(1) [rule_format, OF _ 1(3)] and keeps = 1(3) and P = 1(4)
  have emitted: "P (dst (fst y))" if "emit_record ie crc wr lw1 t rec n = Some (lw2, r)" "f ie crc wr lw2 (drop n rec) False r = Some y" "P (dst lw1)"
    for lw1 lw2 t n r
    using IH [OF that(2)] emit_record_keeps [OF keeps that(3,1)] by blast
  have filled: "P w" if "write_all wr (dst lw) bs = Some (w, r)" for w bs r
    by (rule write_all_keeps [OF keeps P that])
  show ?case
    using 1(2) P filled
    by (auto simp: Let_def split: Option.bind_split_asm prod.split_asm sum.split_asm if_split_asm intro: emitted)
qed

lemma add_record_keeps:
  "write_keeps P wr \<Longrightarrow> P (dst lw) \<Longrightarrow> add_record ie crc wr lw r = Some (lw', res) \<Longrightarrow> P (dst lw')"
  using add_record_loop_keeps [of ie crc wr lw r True "Inr 0" "(lw', res)" P] by (simp add: add_record_def)


section \<open>Files\<close>

definition file_of :: "mem_fs \<Rightarrow> string \<Rightarrow> mem_file \<Rightarrow> bool" where
  "file_of fs p f \<longleftrightarrow> (\<exists>e. fs_entry fs p = Some e \<and> me_file e = f)"

definition put_bytes :: "mem_file \<Rightarrow> bytes \<Rightarrow> mem_fs \<Rightarrow> mem_fs" where
  "put_bytes f bs fs = fs\<lparr>fs_buffers := (fs_buffers fs)(f := bs)\<rparr>"

text \<open>The files under other names, and what they hold.\<close>

definition keeps_files :: "string set \<Rightarrow> mem_fs \<Rightarrow> mem_fs \<Rightarrow> bool" where
  "keeps_files ps fs fs' \<longleftrightarrow> (\<forall>q f. q \<notin> ps \<longrightarrow> file_of fs q f \<longrightarrow> file_of fs' q f \<and> fs_buffers fs' f = fs_buffers fs f)"

lemma keeps_files_trans: "keeps_files ps a b \<Longrightarrow> keeps_files ps b c \<Longrightarrow> keeps_files ps a c"
  by (auto simp: keeps_files_def)

lemma put_bytes_simps [simp]:
  "fs_entry (put_bytes f bs fs) p = fs_entry fs p" "file_of (put_bytes f bs fs) p g \<longleftrightarrow> file_of fs p g" "fs_inv (put_bytes f bs fs) \<longleftrightarrow> fs_inv fs"
  "fs_buffers (put_bytes f bs fs) g = (if g = f then bs else fs_buffers fs g)" "put_bytes f bs (put_bytes f bs' fs) = put_bytes f bs fs"
  by (simp_all add: put_bytes_def file_of_def)

lemma file_of_unique: "file_of fs p f \<Longrightarrow> file_of fs p g \<Longrightarrow> f = g"
  by (auto simp: file_of_def)

lemma file_of_inj: "fs_inv fs \<Longrightarrow> file_of fs p f \<Longrightarrow> file_of fs q f \<Longrightarrow> p = q"
  unfolding file_of_def fs_inv_def by blast

lemma keeps_files_put: "fs_inv fs \<Longrightarrow> file_of fs p f \<Longrightarrow> p \<in> ps \<Longrightarrow> keeps_files ps fs (put_bytes f bs fs)"
  using file_of_inj by (fastforce simp: keeps_files_def)

lemma append_put: "mem_append (put_bytes f bs fs, f) x = ((put_bytes f (bs @ x) fs, f), Inr (length x))"
  by (simp add: mem_append_def mem_write_def put_bytes_def Let_def)

lemma put_same: "put_bytes f (fs_buffers fs f) fs = fs"
  by (simp add: put_bytes_def)

lemma append_keeps: "write_keeps (\<lambda>w. snd w = f \<and> fst w = put_bytes f (fs_buffers (fst w) f) fs) mem_append"
  unfolding write_keeps_def
proof (intro allI impI)
  fix w x
  assume "snd w = f \<and> fst w = put_bytes f (fs_buffers (fst w) f) fs"
  then have "w = (put_bytes f (fs_buffers (fst w) f) fs, f)" by (metis prod.collapse)
  then show "snd (fst (mem_append w x)) = f \<and> fst (fst (mem_append w x)) = put_bytes f (fs_buffers (fst (fst (mem_append w x))) f) fs"
    using append_put [of f "fs_buffers (fst w) f" fs x] by (metis fst_conv put_bytes_simps(4) snd_conv)
qed

lemma append_file_ok: "append_file fs f bs = Some (put_bytes f (fs_buffers fs f @ bs) fs, Inr ())"
proof -
  obtain w where w: "write_all mem_append (fs, f) bs = Some (w, Inr ())" "(case w of (fs, f) \<Rightarrow> fs_buffers fs f) = fs_buffers fs f @ bs"
    by (rule mem_sink.write_all_ok [of "(fs, f)" bs]) simp
  have "snd w = f \<and> fst w = put_bytes f (fs_buffers (fst w) f) fs"
    by (rule write_all_keeps [OF append_keeps _ w(1)]) (simp add: put_same)
  then show ?thesis using w by (simp add: append_file_def case_prod_beta)
qed

lemma log_to_file_ok:
  assumes "integer_encoding ie" "log_writer_wf lw"
  obtains lw' n where "log_to_file ie crc fs lw r =
      Some (put_bytes (dst lw) (fs_buffers fs (dst lw) @ fst (frames ie crc (log_writer.block_size lw) (current_block_offset lw) r True)) fs, lw', Inr n)"
    "log_writer_wf lw'" "dst lw' = dst lw" "log_writer.block_size lw' = log_writer.block_size lw"
    "current_block_offset lw' = snd (frames ie crc (log_writer.block_size lw) (current_block_offset lw) r True)"
proof -
  let ?lw = "with_dst (fs, dst lw) lw"
  have wf: "log_writer_wf ?lw" using assms(2) by (simp add: log_writer_wf_def with_dst_def)
  obtain lw' n where lw': "add_record ie crc mem_append ?lw r = Some (lw', Inr n)" "log_writer_wf lw'" "log_writer.block_size lw' = log_writer.block_size ?lw"
      "(case dst lw' of (fs, f) \<Rightarrow> fs_buffers fs f) = (case dst ?lw of (fs, f) \<Rightarrow> fs_buffers fs f) @
        fst (frames ie crc (log_writer.block_size ?lw) (current_block_offset ?lw) r True)"
      "current_block_offset lw' = snd (frames ie crc (log_writer.block_size ?lw) (current_block_offset ?lw) r True)"
    by (rule byte_sink.add_record_frames [OF mem_sink.byte_sink_axioms assms(1) wf])
  have "snd (dst lw') = dst lw \<and> fst (dst lw') = put_bytes (dst lw) (fs_buffers (fst (dst lw')) (dst lw)) fs"
    by (rule add_record_keeps [OF append_keeps _ lw'(1)]) (simp add: with_dst_def put_same)
  then show thesis
    using that [of "with_dst (snd (dst lw')) lw'" n] lw' by (simp add: log_to_file_def case_prod_beta with_dst_def log_writer_wf_def)
qed

text \<open>Opening a file for writing empties it and leaves the others alone.\<close>

lemma open_writable_ok:
  assumes "fs_inv fs"
  obtains f fs' where "open_writable_file fs p = (Inr (f, 0), fs')" "fs_inv fs'" "file_of fs' p f" "fs_buffers fs' f = []"
    "keeps_files {p} fs fs'"
proof -
  obtain w fs' where w: "open_writable_file fs p = (w, fs')" by fastforce
  have inv: "fs_inv fs'" by (rule fs_exec_inv [OF assms, of "OpOpenW p True True"]) (use w in \<open>simp add: open_writable_file_def\<close>)
  have other: "me_file e' \<noteq> me_file e" if "fs_entry fs p = Some e" "fs_entry fs q = Some e'" "q \<noteq> p" for q e e'
    using assms that unfolding fs_inv_def by metis
  have old: "me_file e' \<noteq> fs_next fs" if "fs_entry fs q = Some e'" for q e'
    using assms that unfolding fs_inv_def by fastforce
  show thesis
  proof (cases "fs_entry fs p")
    case None
    then show thesis using w inv old
      by (intro that [of "fs_next fs" fs'])
        (auto simp: open_writable_file_def fs_ops mem_writer_new_def Let_def file_of_def keeps_files_def)
  next
    case (Some e)
    then show thesis using w inv other
      by (intro that [of "me_file e" fs'])
        (auto simp: open_writable_file_def fs_ops mem_writer_new_def Let_def file_of_def keeps_files_def)
  qed
qed

lemma open_sequential_ok: "file_of fs p f \<Longrightarrow> open_sequential_file fs p = (Inr (f, 0), fs)"
  by (auto simp: file_of_def open_sequential_file_def fs_open_def mem_reader_new_def)

lemma keeps_files_mono: "keeps_files ps fs fs' \<Longrightarrow> ps \<subseteq> qs \<Longrightarrow> keeps_files qs fs fs'"
  by (auto simp: keeps_files_def)

lemma rename_ok:
  assumes "fs_inv fs" "file_of fs p f"
  obtains fs' where "fs_rename fs p q = (Inr (), fs')" "fs_inv fs'" "file_of fs' q f" "fs_buffers fs' = fs_buffers fs"
    "keeps_files {p, q} fs fs'"
proof -
  obtain e where e: "fs_entry fs p = Some e" "me_file e = f" using assms(2) by (auto simp: file_of_def)
  let ?fs = "fs_insert q e (fs_remove p fs)"
  have r: "fs_rename fs p q = (Inr (), ?fs)" using e by (simp add: fs_rename_def)
  have "fs_inv ?fs" by (rule fs_exec_inv [OF assms(1), of "OpRename p q"]) (simp add: r)
  then show thesis using that [OF r] e by (simp add: file_of_def keeps_files_def)
qed


section \<open>Names\<close>

lemma path_join_inj [simp]: "path_join dir a = path_join dir b \<longleftrightarrow> a = b"
  by (simp add: path_join_def)

lemma padded_name_head: "\<exists>c cs. show_padded n @ ext = c # cs \<and> is_digit c"
proof -
  have "show_padded n \<noteq> []" by (simp add: show_padded_def)
  then obtain c cs where "show_padded n = c # cs" by (cases "show_padded n") auto
  then show ?thesis using show_padded_digits [of c n] by simp
qed

lemma names_differ:
  "manifest_file_name db a \<noteq> temp_file_name db b" "manifest_file_name db a \<noteq> current_file_name db" "temp_file_name db b \<noteq> current_file_name db"
  using padded_name_head [of "unat b" "''.dbtmp''"]
  by (auto simp: manifest_file_name_def temp_file_name_def current_file_name_def manifest_name_def)

definition ascii :: "string \<Rightarrow> bool" where
  "ascii s \<longleftrightarrow> (\<forall>c \<in> set s. (of_char c :: nat) < 128)"

lemma unat_of_char: "unat (of_char c :: byte) = of_char c"
proof -
  have "(of_char c :: byte) = of_nat (of_char c)" by (simp only: of_nat_of_char)
  then show ?thesis by (simp only: unat_of_nat) simp
qed

lemma string_of_bytes [simp]: "string_of (bytes_of s) = s"
  by (induction s) (simp_all add: string_of_def bytes_of_def unat_of_char)

lemma bytes_of_append [simp]: "bytes_of (a @ b) = bytes_of a @ bytes_of b"
  by (simp add: bytes_of_def)

lemma ascii_utf8: "ascii s \<Longrightarrow> utf8_valid (bytes_of s)"
proof (induction s)
  case (Cons c s)
  then have "(of_char c :: byte) < 0x80" by (simp add: word_less_nat_alt unat_of_char ascii_def)
  then show ?case using Cons by (simp add: bytes_of_def ascii_def)
qed (simp add: bytes_of_def)

lemma manifest_name_ascii: "ascii (manifest_name num)"
proof -
  have "(of_char c :: nat) < 128" if "is_digit c" for c
    using that by (auto simp: is_digit_def digit_value_def Let_def split: if_splits)
  then show ?thesis using show_padded_digits [of _ "unat num"] by (auto simp: ascii_def manifest_name_def)
qed


text \<open>After \<open>set_current_file\<close> the file \<open>CURRENT\<close> names the manifest.\<close>

definition newline :: string where
  "newline = [CHR 0x0A]"

lemma read_current_ok:
  assumes "file_of fs (current_file_name db) f" "fs_buffers fs f = bytes_of name @ [10]" "ascii name"
  shows "read_current_file fs db = Inr (name @ newline)"
proof -
  have b: "bytes_of name @ [10] = bytes_of (name @ newline)" by (simp add: bytes_of_def newline_def)
  moreover have "utf8_valid (bytes_of (name @ newline))" using assms(3) by (intro ascii_utf8) (auto simp: ascii_def newline_def)
  moreover have "bytes_of newline = [10]" by (simp add: bytes_of_def newline_def)
  ultimately show ?thesis using assms(2) open_sequential_ok [OF assms(1)] string_of_bytes [of "name @ newline"]
    by (simp add: read_current_file_def Let_def)
qed

lemma set_current_file_ok:
  assumes "fs_inv fs"
  obtains fs' where "set_current_file fs db num = Some (fs', Inr ())" "fs_inv fs'" "read_current_file fs' db = Inr (manifest_name num @ newline)"
    "keeps_files {temp_file_name db num, current_file_name db} fs fs'"
proof -
  let ?t = "temp_file_name db num" and ?c = "current_file_name db" and ?text = "bytes_of (manifest_name num) @ [10]"
  obtain f fs1 where f: "open_writable_file fs ?t = (Inr (f, 0), fs1)" "fs_inv fs1" "file_of fs1 ?t f" "fs_buffers fs1 f = []"
      "keeps_files {?t} fs fs1"
    by (rule open_writable_ok [OF assms])
  have put: "fs_inv (put_bytes f ?text fs1)" "file_of (put_bytes f ?text fs1) ?t f" using f(2,3) by simp_all
  obtain fs2 where fs2: "fs_rename (put_bytes f ?text fs1) ?t ?c = (Inr (), fs2)" "fs_inv fs2" "file_of fs2 ?c f"
      "fs_buffers fs2 = fs_buffers (put_bytes f ?text fs1)" "keeps_files {?t, ?c} (put_bytes f ?text fs1) fs2"
    by (rule rename_ok [OF put])
  have "set_current_file fs db num = Some (fs2, Inr ())"
    using f(1,4) fs2(1) by (simp add: set_current_file_def Let_def append_file_ok)
  moreover have "read_current_file fs2 db = Inr (manifest_name num @ newline)"
    by (rule read_current_ok [OF fs2(3) _ manifest_name_ascii]) (simp add: fs2(4))
  moreover have "keeps_files {?t, ?c} fs fs2"
  proof (rule keeps_files_trans [OF keeps_files_trans [OF _ _] fs2(5)])
    show "keeps_files {?t, ?c} fs fs1" using f(5) by (rule keeps_files_mono) blast
    show "keeps_files {?t, ?c} fs1 (put_bytes f ?text fs1)" by (rule keeps_files_put [OF f(2,3)]) simp
  qed
  ultimately show thesis using that fs2(2) by blast
qed


section \<open>The records of a manifest\<close>

text \<open>The manifest of a writer consists of the records of these edits.\<close>

definition manifest_holds :: "int_codec \<Rightarrow> (bytes \<Rightarrow> u32) \<Rightarrow> mem_fs \<Rightarrow> string \<Rightarrow> mem_file log_writer \<Rightarrow> version_edit list \<Rightarrow> bool" where
  "manifest_holds ie crc fs p lw es \<longleftrightarrow> fs_inv fs \<and> file_of fs p (dst lw) \<and> log_writer_wf lw \<and> log_writer.block_size lw = BLOCK_SIZE \<and>
     log_image ie crc BLOCK_SIZE 0 (map (ve_encode ie) es) = (fs_buffers fs (dst lw), current_block_offset lw)"

lemma log_image_snoc:
  "log_image ie crc b off (rs @ [r]) =
     (case log_image ie crc b off rs of (x, o1) \<Rightarrow> case frames ie crc b o1 r True of (y, o2) \<Rightarrow> (x @ y, o2))"
  by (induction rs arbitrary: off) (auto simp: Let_def split: prod.splits)

lemma manifest_new:
  assumes "open_writable_file fs p = (Inr (f, 0), fs')" "fs_inv fs'" "file_of fs' p f" "fs_buffers fs' f = []"
  shows "manifest_holds ie crc fs' p (log_writer_new f) []"
  using assms by (simp add: manifest_holds_def)

lemma manifest_append:
  assumes "integer_encoding ie" "manifest_holds ie crc fs p lw es"
  obtains fs' lw' n where "log_to_file ie crc fs lw (ve_encode ie e) = Some (fs', lw', Inr n)" "manifest_holds ie crc fs' p lw' (es @ [e])"
    "keeps_files {p} fs fs'"
proof -
  have h: "fs_inv fs" "file_of fs p (dst lw)" "log_writer_wf lw" "log_writer.block_size lw = BLOCK_SIZE"
    "log_image ie crc BLOCK_SIZE 0 (map (ve_encode ie) es) = (fs_buffers fs (dst lw), current_block_offset lw)"
    using assms(2) by (simp_all add: manifest_holds_def)
  let ?fr = "frames ie crc BLOCK_SIZE (current_block_offset lw) (ve_encode ie e) True"
  obtain lw' n where w: "log_to_file ie crc fs lw (ve_encode ie e) = Some (put_bytes (dst lw) (fs_buffers fs (dst lw) @ fst ?fr) fs, lw', Inr n)"
      "log_writer_wf lw'" "dst lw' = dst lw" "log_writer.block_size lw' = BLOCK_SIZE" "current_block_offset lw' = snd ?fr"
    by (rule log_to_file_ok [OF assms(1) h(3), of crc fs "ve_encode ie e", unfolded h(4)])
  have "manifest_holds ie crc (put_bytes (dst lw) (fs_buffers fs (dst lw) @ fst ?fr) fs) p lw' (es @ [e])"
    using w h by (simp add: manifest_holds_def log_image_snoc case_prod_beta)
  then show thesis using that w(1) keeps_files_put [OF h(1,2)] by blast
qed

lemma manifest_kept:
  assumes "manifest_holds ie crc fs p lw es" "keeps_files ps fs fs'" "p \<notin> ps" "fs_inv fs'"
  shows "manifest_holds ie crc fs' p lw es"
  using assms by (auto simp: manifest_holds_def keeps_files_def)

lemma finalize_ok:
  assumes "length (v_files v) = NUM_LEVELS"
  obtains s l where "vs_finalize v = Some (v\<lparr>v_compaction_score := s, v_compaction_level := l\<rparr>)"
proof -
  have "\<exists>bst. best_level v ls b = Some bst" if "\<forall>l \<in> set ls. l < NUM_LEVELS" for ls b
    using that assms by (induction ls arbitrary: b) (simp_all add: level_score_def index_def)
  from this [of "[0..<NUM_LEVELS - 1]" None] obtain bst where "best_level v [0..<NUM_LEVELS - 1] None = Some bst"
    by (auto simp: NUM_LEVELS_def simp del: best_level.simps)
  then show thesis using that by (simp add: vs_finalize_def)
qed


section \<open>Edits one after the other\<close>

lemma new_at_more [simp]:
  "new_at (e\<lparr>ve_log_number := a\<rparr>) l = new_at e l" "new_at (e\<lparr>ve_prev_log_number := a\<rparr>) l = new_at e l"
  "new_at (e\<lparr>ve_next_file_number := a\<rparr>) l = new_at e l" "new_at (e\<lparr>ve_last_seq := b\<rparr>) l = new_at e l"
  by (simp_all add: new_at_def)

text \<open>The effect of an edit on files: the parts of it that the builder uses.\<close>

definition same_files :: "version_edit \<Rightarrow> version_edit \<Rightarrow> bool" where
  "same_files e e' \<longleftrightarrow> ve_new_files e = ve_new_files e' \<and> ve_deleted e = ve_deleted e' \<and> ve_compaction_ptrs e = ve_compaction_ptrs e' \<and>
     ve_comparator e = ve_comparator e'"

lemma same_filesD:
  assumes "same_files e e'"
  shows "new_at e l = new_at e' l" "edit_level e l = edit_level e' l" "edit_levels_ok e = edit_levels_ok e'"
    "builder_apply b e ptrs = builder_apply b e' ptrs" "edit_ok e = edit_ok e'"
  using assms by (auto simp: same_files_def new_at_def edit_level_def deleted_at_def edit_levels_ok_def builder_apply_def edit_ok_def)

lemma same_files_ok: "list_all2 same_files cs es \<Longrightarrow> \<forall>e \<in> set es. edit_ok e \<Longrightarrow> \<forall>c \<in> set cs. edit_ok c"
  by (induction rule: list_all2_induct) (simp_all add: same_filesD(5))

lemma complete_edit_same: "complete_edit vs e = Some e' \<Longrightarrow> same_files e' e"
  by (auto simp: complete_edit_def Let_def same_files_def set_log_num_def set_prev_log_num_def set_last_seq_def set_next_file_def
      split: option.splits Option.bind_split_asm if_split_asm)

lemma edited_snoc: "edited (es @ [e]) base l = edit_level e l (edited es base l)"
  by (simp add: edited_def)

lemma edited_subset: "edited es base l \<subseteq> set (v_files base ! l) \<union> (\<Union>e \<in> set es. set (new_at e l))"
proof (induction es rule: rev_induct)
  case (snoc e es)
  then show ?case by (auto simp: edited_snoc edit_level_def)
qed (simp add: edited_def)

lemma fresh_edits_append:
  "fresh_edits l N (es @ es') \<longleftrightarrow> fresh_edits l N es \<and> fresh_edits l (N \<union> (\<Union>e \<in> set es. fnum ` set (new_at e l))) es'"
  by (induction es arbitrary: N) (auto simp: Un_assoc)

text \<open>A version that has the files these edits leave of the base version.\<close>

definition version_after :: "version_edit list \<Rightarrow> version \<Rightarrow> version \<Rightarrow> bool" where
  "version_after es base v \<longleftrightarrow> length (v_files v) = NUM_LEVELS \<and>
     (\<forall>l < NUM_LEVELS. set (v_files v ! l) = edited es base l \<and> distinct (map fnum (v_files v ! l)))"

lemma next_edit_fits:
  assumes "edits_fit c K (es @ [e]) base" "version_after es base v"
  shows "edits_fit c K [e] v"
proof -
  have "distinct (map fnum (v_files v ! l)) \<and> fresh_edits l (fnum ` set (v_files v ! l)) [e] \<and>
      (\<forall>f \<in> set (v_files v ! l) \<union> set (new_at e l). bounds_in c K f) \<and>
      (l > 0 \<longrightarrow> (\<forall>f \<in> edited [e] v l. \<forall>g \<in> edited [e] v l. f \<noteq> g \<longrightarrow> apart c f g))" if l: "l < NUM_LEVELS" for l
  proof -
    have v: "set (v_files v ! l) = edited es base l" "distinct (map fnum (v_files v ! l))" using assms(2) l by (simp_all add: version_after_def)
    have fit: "fresh_edits l (fnum ` set (v_files base ! l)) (es @ [e])"
        "\<forall>f \<in> set (v_files base ! l) \<union> (\<Union>e \<in> set (es @ [e]). set (new_at e l)). bounds_in c K f"
        "l > 0 \<longrightarrow> (\<forall>f \<in> edited (es @ [e]) base l. \<forall>g \<in> edited (es @ [e]) base l. f \<noteq> g \<longrightarrow> apart c f g)"
      using assms(1) l by (simp_all add: edits_fit_def)
    have sub: "set (v_files v ! l) \<subseteq> set (v_files base ! l) \<union> (\<Union>e \<in> set es. set (new_at e l))" using edited_subset v(1) by simp
    have "edited [e] v l = edited (es @ [e]) base l" by (simp add: edited_snoc v(1)) (simp add: edited_def v(1))
    then have "l > 0 \<longrightarrow> (\<forall>f \<in> edited [e] v l. \<forall>g \<in> edited [e] v l. f \<noteq> g \<longrightarrow> apart c f g)" using fit(3) by simp
    moreover have "fresh_edits l (fnum ` set (v_files v ! l)) [e]"
      using fit(1) sub by (fastforce simp: fresh_edits_append)
    moreover have "\<forall>f \<in> set (v_files v ! l) \<union> set (new_at e l). bounds_in c K f" using fit(2) sub by auto
    ultimately show ?thesis using v(2) by blast
  qed
  then show ?thesis using assms by (simp add: edits_fit_def version_after_def)
qed

text \<open>Completing the edits of a sequence does not change what fits.\<close>

lemma edits_fit_cong:
  assumes "list_all2 same_files es es'"
  shows "edits_fit c K es base = edits_fit c K es' base" "edited es base l = edited es' base l"
proof -
  have "fold (\<lambda>e. edit_level e l) es S = fold (\<lambda>e. edit_level e l) es' S" for l S
    using assms by (induction arbitrary: S rule: list_all2_induct) (simp_all add: same_filesD(2))
  then have e: "edited es base l = edited es' base l" for l by (simp add: edited_def)
  have "fresh_edits l N es = fresh_edits l N es'" for l N
    using assms by (induction arbitrary: N rule: list_all2_induct) (simp_all add: same_filesD)
  moreover have "(\<Union>e \<in> set es. set (new_at e l)) = (\<Union>e \<in> set es'. set (new_at e l))" for l
    using assms by (induction rule: list_all2_induct) (simp_all add: same_filesD)
  moreover have "(\<forall>e \<in> set es. edit_levels_ok e) = (\<forall>e \<in> set es'. edit_levels_ok e)"
    using assms by (induction rule: list_all2_induct) (simp_all add: same_filesD)
  ultimately show "edits_fit c K es base = edits_fit c K es' base" "edited es base l = edited es' base l"
    by (simp_all add: edits_fit_def e)
qed


section \<open>The snapshot of a version\<close>

definition with_seeks :: "file_meta_data \<Rightarrow> file_meta_data" where
  "with_seeks f = f\<lparr>allowed_seeks := seeks_for (fsize f)\<rparr>"

definition level_files :: "nat \<Rightarrow> file_meta_data list list \<Rightarrow> (nat \<times> file_meta_data) list" where
  "level_files n fss = concat (map (\<lambda>(l, fs). map (Pair l) fs) (enumerate n fss))"

lemma fold_add_file: "fold (\<lambda>f e. ve_add_file e l f) fs e = e\<lparr>ve_new_files := ve_new_files e @ map (Pair l) fs\<rparr>"
  by (induction fs arbitrary: e) (simp_all add: ve_add_file_def)

lemma fold_add_levels:
  "fold (\<lambda>(l, fs) e. fold (\<lambda>f e. ve_add_file e l f) fs e) (enumerate n fss) e = e\<lparr>ve_new_files := ve_new_files e @ level_files n fss\<rparr>"
  by (induction fss arbitrary: n e) (simp_all add: fold_add_file level_files_def)

lemma fold_pointers:
  "\<exists>ps. fold (\<lambda>(l, ptr) e. if ptr \<noteq> [] then set_compact_pointer e l ptr else e) (enumerate n ptrs) e =
      e\<lparr>ve_compaction_ptrs := ve_compaction_ptrs e @ ps\<rparr> \<and> (\<forall>p \<in> set ps. cp_level p < n + length ptrs \<and> cp_key p \<in> set ptrs)"
proof (induction ptrs arbitrary: n e)
  case Nil
  show ?case by (intro exI [of _ "[]"]) simp
next
  case (Cons x ptrs)
  show ?case
  proof (cases "x = []")
    case True
    then show ?thesis using Cons.IH [of "Suc n" e] by fastforce
  next
    case False
    obtain ps where ps: "fold (\<lambda>(l, ptr) e. if ptr \<noteq> [] then set_compact_pointer e l ptr else e) (enumerate (Suc n) ptrs) (set_compact_pointer e n x) =
        (set_compact_pointer e n x)\<lparr>ve_compaction_ptrs := ve_compaction_ptrs (set_compact_pointer e n x) @ ps\<rparr>"
        "\<forall>p \<in> set ps. cp_level p < Suc n + length ptrs \<and> cp_key p \<in> set ptrs"
      using Cons.IH [of "Suc n" "set_compact_pointer e n x"] by blast
    then show ?thesis using False
      by (intro exI [of _ "\<lparr>cp_level = n, cp_key = x\<rparr> # ps"]) (auto simp: set_compact_pointer_def)
  qed
qed

lemma level_files_at: "map snd (filter (\<lambda>(l', _). l' = l) (level_files n fss)) = (if n \<le> l \<and> l < n + length fss then fss ! (l - n) else [])"
proof (induction fss arbitrary: n)
  case (Cons fs fss)
  have "filter (\<lambda>(l', _). l' = l) (map (Pair n) fs) = (if l = n then map (Pair n) fs else [])" by (induction fs) auto
  then show ?case using Cons.IH [of "Suc n"] by (auto simp: level_files_def nth_Cons' comp_def)
qed (auto simp: level_files_def)

lemma level_files_in: "(l, f) \<in> set (level_files n fss) \<Longrightarrow> n \<le> l \<and> l < n + length fss \<and> f \<in> set (fss ! (l - n))"
  by (auto simp: level_files_def in_set_enumerate_eq)

text \<open>What is known of a snapshot of a version.\<close>

definition snapshot_of :: "comparator \<Rightarrow> bytes set \<Rightarrow> version \<Rightarrow> version_edit \<Rightarrow> bool" where
  "snapshot_of U ks v e \<longleftrightarrow> ve_comparator e = Some (bytes_of (cmp_id U)) \<and> ve_log_number e = None \<and> ve_prev_log_number e = None \<and>
     ve_next_file_number e = None \<and> ve_last_seq e = None \<and> ve_deleted e = [] \<and> edit_levels_ok e \<and>
     (\<forall>p \<in> set (ve_compaction_ptrs e). cp_key p \<in> ks) \<and> (\<forall>(l, f) \<in> set (ve_new_files e). l < NUM_LEVELS \<and> f \<in> set (v_files v ! l)) \<and>
     (\<forall>l < NUM_LEVELS. mset (new_at e l) = mset (map with_seeks (v_files v ! l)))"

lemma snapshot_edit_of:
  assumes "length (vs_compaction_ptrs vs) = NUM_LEVELS" "length (v_files v) = NUM_LEVELS"
  shows "snapshot_of (opt_cmp (vs_opt vs)) (set (vs_compaction_ptrs vs)) v (snapshot_edit vs v)"
proof -
  let ?e = "set_comparator_name version_edit_new (bytes_of (cmp_id (opt_cmp (vs_opt vs))))"
  obtain ps where ps: "snapshot_edit vs v = ?e\<lparr>ve_compaction_ptrs := ps, ve_new_files := level_files 0 (v_files v)\<rparr>"
      "\<forall>p \<in> set ps. cp_level p < NUM_LEVELS \<and> cp_key p \<in> set (vs_compaction_ptrs vs)"
    using fold_pointers [of 0 "vs_compaction_ptrs vs" ?e] assms(1)
    by (auto simp: snapshot_edit_def Let_def fold_add_levels version_edit_new_def set_comparator_name_def)
  have "new_at (snapshot_edit vs v) l = map with_seeks (v_files v ! l)" if "l < NUM_LEVELS" for l
  proof -
    have "new_at (snapshot_edit vs v) l = map with_seeks (map snd (filter (\<lambda>(l', _). l' = l) (level_files 0 (v_files v))))"
      by (simp add: new_at_def ps(1) with_seeks_def case_prod_beta')
    then show ?thesis using that assms(2) by (simp only: level_files_at) simp
  qed
  then show ?thesis
    using ps assms(2) level_files_in [of _ _ 0 "v_files v"]
    by (auto simp: snapshot_of_def set_comparator_name_def version_edit_new_def edit_levels_ok_def)
qed

lemma snapshot_of_cong:
  assumes "snapshot_of U ks v e" "\<forall>l < NUM_LEVELS. mset (v_files v ! l) = mset (v_files v' ! l)" "ks \<subseteq> ks'"
  shows "snapshot_of U ks' v' e"
proof -
  have "set (v_files v ! l) = set (v_files v' ! l)" "mset (map with_seeks (v_files v ! l)) = mset (map with_seeks (v_files v' ! l))"
    if "l < NUM_LEVELS" for l
    using assms(2) that by (auto dest: mset_eq_setD)
  then show ?thesis using assms(1,3) unfolding snapshot_of_def by fastforce
qed

lemma apply_pointers_in: "apply_pointers cs ptrs = Some ptrs' \<Longrightarrow> set ptrs' \<subseteq> set ptrs \<union> cp_key ` set cs"
proof (induction cs arbitrary: ptrs)
  case (Cons c cs)
  have "set (ptrs[cp_level c := cp_key c]) \<subseteq> insert (cp_key c) (set ptrs)" by (rule set_update_subset_insert)
  then show ?case using Cons by (fastforce split: if_splits)
qed simp

lemma builder_apply_pointers: "builder_apply b e ptrs = Some (b', ptrs') \<Longrightarrow> set ptrs' \<subseteq> set ptrs \<union> cp_key ` set (ve_compaction_ptrs e)"
  using apply_pointers_in by (auto simp: builder_apply_def split: Option.bind_split_asm)


section \<open>Logging an edit\<close>

definition vs_ready :: "int_codec \<Rightarrow> comparator \<Rightarrow> version_set \<Rightarrow> bool" where
  "vs_ready ie U vs \<longleftrightarrow> vs_cmp vs = InternalKeyCmp ie U \<and> opt_cmp (vs_opt vs) = U \<and> length (vs_compaction_ptrs vs) = NUM_LEVELS \<and>
     (\<forall>p \<in> set (vs_compaction_ptrs vs). length p < 2 ^ 63)"

abbreviation manifest_path :: "version_set \<Rightarrow> string" where
  "manifest_path vs \<equiv> manifest_file_name (vs_dbname vs) (vs_manifest_num vs)"

text \<open>The edits in the manifest of a version set; none if it has not been opened.\<close>

definition manifest_state :: "int_codec \<Rightarrow> (bytes \<Rightarrow> u32) \<Rightarrow> mem_fs \<Rightarrow> version_set \<Rightarrow> version_edit list \<Rightarrow> bool" where
  "manifest_state ie crc fs vs es \<longleftrightarrow> fs_inv fs \<and>
     (case vs_descriptor_log vs of None \<Rightarrow> es = [] | Some lw \<Rightarrow> es \<noteq> [] \<and> manifest_holds ie crc fs (manifest_path vs) lw es)"

lemma ensure_manifest_ok:
  assumes "integer_encoding ie" "manifest_state ie crc fs vs es" "vs_current vs = Some cur"
  obtains fs' lw where "ensure_manifest ie crc fs vs = Some (fs', vs\<lparr>vs_descriptor_log := Some lw\<rparr>, Inr ())"
    "manifest_holds ie crc fs' (manifest_path vs) lw (if es = [] then [snapshot_edit vs cur] else es)"
proof (cases "vs_descriptor_log vs")
  case (Some lw)
  then have "vs\<lparr>vs_descriptor_log := Some lw\<rparr> = vs" by (cases vs) simp
  then show thesis using that [of fs lw] assms(2) Some by (simp add: ensure_manifest_def manifest_state_def)
next
  case None
  then have st: "fs_inv fs" "es = []" using assms(2) by (simp_all add: manifest_state_def)
  obtain f fs1 where f: "open_writable_file fs (manifest_path vs) = (Inr (f, 0), fs1)" "fs_inv fs1" "file_of fs1 (manifest_path vs) f"
      "fs_buffers fs1 f = []" "keeps_files {manifest_path vs} fs fs1"
    by (rule open_writable_ok [OF st(1)])
  obtain fs' lw' n where w: "log_to_file ie crc fs1 (log_writer_new f) (ve_encode ie (snapshot_edit vs cur)) = Some (fs', lw', Inr n)"
      "manifest_holds ie crc fs' (manifest_path vs) lw' ([] @ [snapshot_edit vs cur])"
    by (rule manifest_append [OF assms(1) manifest_new [OF f(1-4)]])
  have "snapshot_edit (vs\<lparr>vs_descriptor_log := x\<rparr>) cur = snapshot_edit vs cur" for x by (simp add: snapshot_edit_def)
  then have "ensure_manifest ie crc fs vs = Some (fs', vs\<lparr>vs_descriptor_log := Some lw'\<rparr>, Inr ())"
    using f(1) w(1) None assms(3) by (simp add: ensure_manifest_def write_snapshot_def)
  then show thesis using that w(2) st(2) by simp
qed

text \<open>The version that an edit gives: the part of \<open>log_and_apply\<close> before anything is written.\<close>

lemma edit_version_ok:
  assumes ord: "cmp_order (cmp (InternalKeyCmp ie U)) K" and ready: "vs_ready ie U vs" and fit: "edits_fit (InternalKeyCmp ie U) K [e] cur" and ok: "edit_ok e"
  obtains b ptrs b' bf v v' where "builder_apply builder_new e (vs_compaction_ptrs vs) = Some (b, ptrs)"
    "save_to b (InternalKeyCmp ie U) cur (version_new U) = Some (b', cur\<lparr>v_files := bf\<rparr>, v)" "vs_finalize v = Some v'"
    "length ptrs = NUM_LEVELS" "\<forall>p \<in> set ptrs. length p < 2 ^ 63" "length bf = NUM_LEVELS"
    "\<forall>l < NUM_LEVELS. mset (bf ! l) = mset (v_files cur ! l)" "version_after [e] cur v'"
proof -
  let ?c = "InternalKeyCmp ie U"
  have r: "length (vs_compaction_ptrs vs) = NUM_LEVELS" "\<forall>p \<in> set (vs_compaction_ptrs vs). length p < 2 ^ 63"
    using ready by (simp_all add: vs_ready_def)
  obtain b ptrs b' bf vf where
    s: "apply_edits builder_new [e] (vs_compaction_ptrs vs) = Some (b, ptrs)" "length ptrs = NUM_LEVELS"
      "save_to b ?c cur (version_new U) = Some (b', cur\<lparr>v_files := bf\<rparr>, (version_new U)\<lparr>v_files := vf\<rparr>)"
      "length bf = NUM_LEVELS" "\<forall>l < NUM_LEVELS. mset (bf ! l) = mset (v_files cur ! l)"
      "length vf = NUM_LEVELS" "\<forall>l < NUM_LEVELS. set (vf ! l) = edited [e] cur l \<and> distinct (map fnum (vf ! l)) \<and> by_smallest ?c (vf ! l) \<and>
        (l > 0 \<longrightarrow> ascending ?c (vf ! l))"
    by (rule saved_edits [OF ord fit r(1)])
  have ba: "builder_apply builder_new e (vs_compaction_ptrs vs) = Some (b, ptrs)" using s(1) by (auto split: Option.bind_split_asm)
  have ptrs: "\<forall>p \<in> set ptrs. length p < 2 ^ 63" using builder_apply_pointers [OF ba] r(2) ok by (auto simp: edit_ok_def)
  obtain sc lv where fin: "vs_finalize ((version_new U)\<lparr>v_files := vf\<rparr>) =
      Some ((version_new U)\<lparr>v_files := vf, v_compaction_score := sc, v_compaction_level := lv\<rparr>)"
    by (rule finalize_ok [of "(version_new U)\<lparr>v_files := vf\<rparr>"]) (simp_all add: s(6))
  show thesis by (rule that [OF ba s(3) fin s(2) ptrs s(4,5)]) (use s(6,7) in \<open>simp add: version_after_def\<close>)
qed

lemma log_and_apply_ok:
  assumes ie: "integer_encoding ie" and ord: "cmp_order (cmp (InternalKeyCmp ie U)) K" and ready: "vs_ready ie U vs"
    and cur: "vs_current vs = Some cur" and fit: "edits_fit (InternalKeyCmp ie U) K [e] cur" and ok: "edit_ok e"
    and ce: "complete_edit vs e = Some e'" and st: "manifest_state ie crc fs vs es"
  obtains fs' vs' cur' snap where "log_and_apply ie crc fs vs e = Some (fs', vs', Inr ())"
    "vs_ready ie U vs'" "vs_current vs' = Some cur'" "version_after [e] cur cur'" "Some (vs_log_num vs') = ve_log_number e'"
    "vs_dbname vs' = vs_dbname vs" "vs_manifest_num vs' = vs_manifest_num vs" "vs_prev_log_num vs' = vs_prev_log_num vs"
    "vs_last_seq vs' = vs_last_seq vs" "vs_next_file_num vs' = vs_next_file_num vs"
    "manifest_state ie crc fs' vs' (if es = [] then [snap, e'] else es @ [e'])" "vs_descriptor_log vs' \<noteq> None"
    "snapshot_of U {p. length p < 2 ^ 63} cur snap" "read_current_file fs' (vs_dbname vs) = Inr (manifest_name (vs_manifest_num vs) @ newline)"
proof -
  let ?c = "InternalKeyCmp ie U"
  have r: "vs_cmp vs = ?c" "opt_cmp (vs_opt vs) = U" using ready by (simp_all add: vs_ready_def)
  note same = complete_edit_same [OF ce]
  have fit': "edits_fit ?c K [e'] cur" "edit_ok e'" using edits_fit_cong(1) [of "[e']" "[e]"] fit ok same same_filesD(5) by simp_all
  obtain b ptrs' b' bf v v' where s: "builder_apply builder_new e' (vs_compaction_ptrs vs) = Some (b, ptrs')"
    "save_to b ?c cur (version_new U) = Some (b', cur\<lparr>v_files := bf\<rparr>, v)" "vs_finalize v = Some v'"
    "length ptrs' = NUM_LEVELS" "\<forall>p \<in> set ptrs'. length p < 2 ^ 63" "length bf = NUM_LEVELS"
    "\<forall>l < NUM_LEVELS. mset (bf ! l) = mset (v_files cur ! l)" "version_after [e'] cur v'"
    by (rule edit_version_ok [OF ord ready fit'])
  let ?vs = "vs\<lparr>vs_compaction_ptrs := ptrs', vs_current := Some (cur\<lparr>v_files := bf\<rparr>)\<rparr>" let ?snap = "snapshot_edit ?vs (cur\<lparr>v_files := bf\<rparr>)"
  have st': "manifest_state ie crc fs ?vs es" using st by (simp add: manifest_state_def split: option.splits)
  obtain fs1 lw where m1: "ensure_manifest ie crc fs ?vs = Some (fs1, ?vs\<lparr>vs_descriptor_log := Some lw\<rparr>, Inr ())"
      "manifest_holds ie crc fs1 (manifest_path ?vs) lw (if es = [] then [?snap] else es)"
    by (rule ensure_manifest_ok [OF ie st', of "cur\<lparr>v_files := bf\<rparr>"]) simp
  obtain fs2 lw2 n where m2: "log_to_file ie crc fs1 lw (ve_encode ie e') = Some (fs2, lw2, Inr n)"
      "manifest_holds ie crc fs2 (manifest_path ?vs) lw2 ((if es = [] then [?snap] else es) @ [e'])"
    by (rule manifest_append [OF ie m1(2)])
  have inv2: "fs_inv fs2" using m2(2) by (simp add: manifest_holds_def)
  obtain fs3 where m3: "set_current_file fs2 (vs_dbname vs) (vs_manifest_num vs) = Some (fs3, Inr ())" "fs_inv fs3"
      "read_current_file fs3 (vs_dbname vs) = Inr (manifest_name (vs_manifest_num vs) @ newline)"
      "keeps_files {temp_file_name (vs_dbname vs) (vs_manifest_num vs), current_file_name (vs_dbname vs)} fs2 fs3"
    by (rule set_current_file_ok [OF inv2])
  have h3: "manifest_holds ie crc fs3 (manifest_path ?vs) lw2 ((if es = [] then [?snap] else es) @ [e'])"
    by (rule manifest_kept [OF m2(2) m3(4) _ m3(2)]) (simp add: names_differ)
  obtain ln where ln: "ve_log_number e' = Some ln"
    using ce by (auto simp: complete_edit_def Let_def set_log_num_def set_prev_log_num_def set_last_seq_def set_next_file_def
        split: option.splits Option.bind_split_asm if_split_asm)
  let ?vs' = "(add_version (?vs\<lparr>vs_descriptor_log := Some lw2\<rparr>) v')\<lparr>vs_log_num := ln\<rparr>"
  have run: "log_and_apply ie crc fs vs e = Some (fs3, ?vs', Inr ())"
    unfolding log_and_apply_def cur ce Option.bind.bind_lunit s(1) prod.case r s(2,3) Let_def m1(1) sum.case
    using m2(1) m3(1) ln by simp
  have "snapshot_of U {p. length p < 2 ^ 63} cur ?snap"
    using snapshot_edit_of [of ?vs "cur\<lparr>v_files := bf\<rparr>"] s(4-7) r(2) by (auto intro: snapshot_of_cong)
  moreover have "version_after [e] cur v'"
    using s(8) edits_fit_cong(2) [of "[e']" "[e]" cur] same by (simp add: version_after_def)
  moreover have "manifest_state ie crc fs3 ?vs' (if es = [] then [?snap, e'] else es @ [e'])"
    using h3 m3(2) by (cases "es = []") (simp_all add: manifest_state_def add_version_def)
  ultimately show thesis
    using that [OF run] m3(3) r s(4,5) ln by (simp add: vs_ready_def add_version_def)
qed


section \<open>Reading the records\<close>

context byte_source
begin

lemma log_read_record:
  assumes "integer_encoding ie" "log_reader_wf lr" "r \<noteq> []" "remaining (src lr) = fst (log_image ie crc (blocksize lr) (blk_off lr) (r # rs))"
  obtains lr' where "log_read ie crc rd lr = Some (lr', r, Inr (length r))" "log_reader_wf lr'"
    "remaining (src lr') = fst (log_image ie crc (blocksize lr') (blk_off lr') rs)"
proof -
  let ?f = "frames ie crc (blocksize lr) (blk_off lr) r True"
  have "remaining (src lr) = fst ?f @ fst (log_image ie crc (blocksize lr) (snd ?f) rs)" using assms(4) by (simp add: case_prod_beta)
  then show thesis using that read_loop_frames [OF assms(1-3), of crc True _ "[]"] by (auto simp: log_read_def)
qed

end

lemma apply_new_files_forget: "apply_new_files (map forget_seeks fs) b = apply_new_files fs b"
proof (induction fs arbitrary: b)
  case (Cons lf fs)
  obtain l f where "lf = (l, f)" by (cases lf)
  then show ?case using Cons by (simp add: forget_seeks_def Let_def)
qed simp

lemma decoded_edit:
  "builder_apply b (e\<lparr>ve_new_files := map forget_seeks (ve_new_files e)\<rparr>) ptrs = builder_apply b e ptrs"
  "take_nums (e\<lparr>ve_new_files := map forget_seeks (ve_new_files e)\<rparr>) mn = take_nums e mn"
  by (simp_all add: builder_apply_def apply_new_files_forget take_nums_def)

lemma manifest_loop_ok:
  assumes "integer_encoding ie"
  shows "\<forall>e \<in> set es. edit_ok e \<and> ve_encode ie e \<noteq> [] \<Longrightarrow> log_reader_wf lr \<Longrightarrow>
    drop (snd (src lr)) (fs_buffers fs (fst (src lr))) = fst (log_image ie crc (blocksize lr) (blk_off lr) (map (ve_encode ie) es)) \<Longrightarrow>
    apply_edits b es ptrs = Some (b', ptrs') \<Longrightarrow> manifest_loop ie crc fs lr b ptrs mn = Some (ptrs', Inr (b', fold take_nums es mn))"
proof (induction es arbitrary: lr b ptrs mn)
  case Nil
  obtain lr' res where "log_read ie crc (mem_read fs) lr = Some (lr', [], res)" "is_ok res \<longrightarrow> res = Inr 0"
    using byte_source.read_eof [OF mem_reader.byte_source_axioms Nil.prems(2), of fs ie crc] Nil.prems(3) by auto
  then show ?case using Nil.prems(4) by (subst manifest_loop.simps) auto
next
  case (Cons e es)
  let ?r = "ve_encode ie e"
  obtain lr' where lr': "log_read ie crc (mem_read fs) lr = Some (lr', ?r, Inr (length ?r))" "log_reader_wf lr'"
      "drop (snd (src lr')) (fs_buffers fs (fst (src lr'))) = fst (log_image ie crc (blocksize lr') (blk_off lr') (map (ve_encode ie) es))"
    by (rule byte_source.log_read_record [OF mem_reader.byte_source_axioms assms Cons.prems(2), of ?r fs crc "map (ve_encode ie) es"])
      (use Cons.prems(1,3) in auto)
  obtain b1 ptrs1 where b1: "builder_apply b e ptrs = Some (b1, ptrs1)" "apply_edits b1 es ptrs1 = Some (b', ptrs')"
    using Cons.prems(4) by (auto split: Option.bind_split_asm)
  have "decode_from ie ?r = Some (Inr (e\<lparr>ve_new_files := map forget_seeks (ve_new_files e)\<rparr>))"
    by (rule integer_encoding.decode_encode_edit [OF assms]) (use Cons.prems(1) in simp)
  moreover have "manifest_loop ie crc fs lr' b1 ptrs1 (take_nums e mn) = Some (ptrs', Inr (b', fold take_nums es (take_nums e mn)))"
    by (rule Cons.IH [OF _ lr'(2,3) b1(2)]) (use Cons.prems(1) in simp)
  ultimately show ?case using lr'(1) b1(1) Cons.prems(1) by (subst manifest_loop.simps) (simp add: decoded_edit)
qed

text \<open>The numbers are those of the last edit that has them.\<close>

lemma fold_take_nums:
  assumes "ve_log_number e = Some n" "ve_next_file_number e = Some m" "ve_last_seq e = Some q" "ve_prev_log_number e = Some pn"
  shows "fold take_nums (es @ [e]) mn = \<lparr>mn_log_number = Some n, mn_prev_log_number = Some pn, mn_next_file_number = Some m, mn_last_seq = Some q\<rparr>"
  using assms by (simp add: take_nums_def or_else_def)


section \<open>Recovery\<close>

lemma with_seeks_simps [simp]: "fnum (with_seeks f) = fnum f" "smallest (with_seeks f) = smallest f" "largest (with_seeks f) = largest f"
  "with_seeks (with_seeks f) = with_seeks f" "bounds_in c K (with_seeks f) = bounds_in c K f" "apart c (with_seeks f) (with_seeks g) = apart c f g"
  by (simp_all add: with_seeks_def bounds_in_def apart_def)

lemma new_at_seeks: "with_seeks ` set (new_at e l) = set (new_at e l)"
  by (force simp: new_at_def with_seeks_def image_image)

lemma edit_level_seeks: "edit_level e l (with_seeks ` S) = with_seeks ` edit_level e l S"
proof -
  have "{f \<in> with_seeks ` S. fnum f \<notin> deleted_at e l} = with_seeks ` {f \<in> S. fnum f \<notin> deleted_at e l}" by auto
  then show ?thesis unfolding edit_level_def by (simp add: image_Un new_at_seeks)
qed

lemma version_new_files [simp]: "length (v_files (version_new U)) = NUM_LEVELS" "l < NUM_LEVELS \<Longrightarrow> v_files (version_new U) ! l = []"
  by (simp_all add: version_new_def)

lemma snapshot_edited:
  assumes "snapshot_of U ks base s" "l < NUM_LEVELS"
  shows "edited (s # es) (version_new V) l = with_seeks ` edited es base l"
proof -
  have "mset (new_at s l) = mset (map with_seeks (v_files base ! l))" "ve_deleted s = []" using assms by (simp_all add: snapshot_of_def)
  then have s: "edit_level s l {} = with_seeks ` set (v_files base ! l)"
    using mset_eq_setD [of "new_at s l" "map with_seeks (v_files base ! l)"] by (simp add: edit_level_def)
  have "fold (\<lambda>e. edit_level e l) es (with_seeks ` S) = with_seeks ` fold (\<lambda>e. edit_level e l) es S" for S
    by (induction es arbitrary: S) (simp_all add: edit_level_seeks)
  then show ?thesis using assms(2) by (simp add: edited_def s)
qed

lemma snapshot_fits:
  assumes "snapshot_of U ks base s" "edits_fit c K es base"
  shows "edits_fit c K (s # es) (version_new V)"
proof -
  have "fresh_edits l {} (s # es) \<and> (\<forall>f \<in> (\<Union>e \<in> set (s # es). set (new_at e l)). bounds_in c K f) \<and>
      (l > 0 \<longrightarrow> (\<forall>f \<in> edited (s # es) (version_new V) l. \<forall>g \<in> edited (s # es) (version_new V) l. f \<noteq> g \<longrightarrow> apart c f g))"
    if l: "l < NUM_LEVELS" for l
  proof -
    have m: "mset (new_at s l) = mset (map with_seeks (v_files base ! l))" using assms(1) l by (simp add: snapshot_of_def)
    have fit: "distinct (map fnum (v_files base ! l))" "fresh_edits l (fnum ` set (v_files base ! l)) es"
        "\<forall>f \<in> set (v_files base ! l) \<union> (\<Union>e \<in> set es. set (new_at e l)). bounds_in c K f"
        "l > 0 \<longrightarrow> (\<forall>f \<in> edited es base l. \<forall>g \<in> edited es base l. f \<noteq> g \<longrightarrow> apart c f g)"
      using assms(2) l by (simp_all add: edits_fit_def)
    have "mset (map fnum (new_at s l)) = mset (map fnum (v_files base ! l))" using arg_cong [OF m, of "image_mset fnum"] by (simp add: image_mset.compositionality comp_def)
    from mset_eq_imp_distinct_iff [OF this] mset_eq_setD [OF this] fit(1)
    have "distinct (map fnum (new_at s l))" "fnum ` set (new_at s l) = fnum ` set (v_files base ! l)" by simp_all
    moreover have "\<forall>f \<in> set (new_at s l). bounds_in c K f" using fit(3) mset_eq_setD [OF m] by auto
    moreover have "apart c f g" if "l > 0" "f \<in> edited (s # es) (version_new V) l" "g \<in> edited (s # es) (version_new V) l" "f \<noteq> g" for f g
    proof -
      note fg = that
      obtain x y where "f = with_seeks x" "g = with_seeks y" "x \<in> edited es base l" "y \<in> edited es base l"
        using fg(2,3) unfolding snapshot_edited [OF assms(1) l] by blast
      then show ?thesis using fg(1,4) fit(4) by auto
    qed
    ultimately show ?thesis using fit(2,3) by auto
  qed
  then show ?thesis using assms unfolding edits_fit_def snapshot_of_def by simp
qed

lemma apply_nums_ok:
  obtains vs' where
    "apply_nums \<lparr>mn_log_number = Some n, mn_prev_log_number = Some pn, mn_next_file_number = Some m, mn_last_seq = Some q\<rparr> vs = (vs', Inr ())"
    "vs_log_num vs' = n" "vs_last_seq vs' = q" "vs_prev_log_num vs' = pn"
    "vs_current vs' = vs_current vs" "vs_cmp vs' = vs_cmp vs" "vs_opt vs' = vs_opt vs" "vs_dbname vs' = vs_dbname vs"
    "vs_descriptor_log vs' = vs_descriptor_log vs" "vs_compaction_ptrs vs' = vs_compaction_ptrs vs"
proof -
  let ?vs = "(mark_file_number_used (vs\<lparr>vs_log_num := n\<rparr>) n)\<lparr>vs_next_file_num := m + 1, vs_last_seq := q, vs_prev_log_num := pn\<rparr>"
  show thesis by (rule that [of "mark_file_number_used ?vs pn"])
    (simp_all add: apply_nums_def mark_file_number_used_def Let_def)
qed


lemma reuse_manifest_ok:
  assumes "vs_descriptor_log vs = None"
  obtains fs' lw n b where "vs_reuse_manifest fs vs p q = Some (fs', vs\<lparr>vs_descriptor_log := lw, vs_manifest_num := n\<rparr>, b)"
proof -
  have same: "vs\<lparr>vs_descriptor_log := None, vs_manifest_num := vs_manifest_num vs\<rparr> = vs" using assms by (cases vs) simp
  have "\<exists>fs' vs' b. vs_reuse_manifest fs vs p q = Some (fs', vs', b) \<and> (vs' = vs \<or> (\<exists>lw n. vs' = vs\<lparr>vs_descriptor_log := lw, vs_manifest_num := n\<rparr>))"
    using assms by (simp add: vs_reuse_manifest_def split: sum.split prod.split) blast
  then show thesis using that same by metis
qed

lemma recover_ok:
  assumes ie: "integer_encoding ie" and ord: "cmp_order (cmp (InternalKeyCmp ie (opt_cmp opt))) K"
    and holds: "manifest_holds ie crc fs (manifest_file_name db num) lw (es @ [e])"
    and name: "read_current_file fs db = Inr (manifest_name num @ newline)"
    and ok: "\<forall>e \<in> set (es @ [e]). edit_ok e \<and> ve_encode ie e \<noteq> []"
    and fit: "edits_fit (InternalKeyCmp ie (opt_cmp opt)) K (es @ [e]) (version_new (opt_cmp opt))"
    and nums: "ve_log_number e = Some n" "ve_next_file_number e = Some m" "ve_last_seq e = Some q" "ve_prev_log_number e = Some pn"
  obtains fs' vs' v b where "vs_recover ie crc fs (version_set_new ie db opt) = Some (fs', vs', Inr b)" "vs_current vs' = Some v"
    "version_after (es @ [e]) (version_new (opt_cmp opt)) v" "vs_log_num vs' = n" "vs_last_seq vs' = q" "vs_prev_log_num vs' = pn"
proof -
  let ?vs = "version_set_new ie db opt" and ?U = "opt_cmp opt" and ?c = "InternalKeyCmp ie (opt_cmp opt)" and ?es = "es @ [e]"
  let ?mn = "\<lparr>mn_log_number = None, mn_prev_log_number = None, mn_next_file_number = None, mn_last_seq = None\<rparr>"
  have new: "vs_dbname ?vs = db" "vs_current ?vs = Some (version_new ?U)" "vs_cmp ?vs = ?c" "vs_opt ?vs = opt"
    "vs_compaction_ptrs ?vs = replicate NUM_LEVELS []" "vs_descriptor_log ?vs = None" by (simp_all add: version_set_new_def)
  obtain b ptrs' b' bf vf where
    s: "apply_edits builder_new ?es (replicate NUM_LEVELS []) = Some (b, ptrs')" "length ptrs' = NUM_LEVELS"
      "save_to b ?c (version_new ?U) (version_new ?U) = Some (b', (version_new ?U)\<lparr>v_files := bf\<rparr>, (version_new ?U)\<lparr>v_files := vf\<rparr>)"
      "length bf = NUM_LEVELS" "\<forall>l < NUM_LEVELS. mset (bf ! l) = mset (v_files (version_new ?U) ! l)"
      "length vf = NUM_LEVELS" "\<forall>l < NUM_LEVELS. set (vf ! l) = edited ?es (version_new ?U) l \<and> distinct (map fnum (vf ! l)) \<and> by_smallest ?c (vf ! l) \<and>
        (l > 0 \<longrightarrow> ascending ?c (vf ! l))"
    by (rule saved_edits [OF ord fit length_replicate])
  obtain sc lv where fin: "vs_finalize ((version_new ?U)\<lparr>v_files := vf\<rparr>) =
      Some ((version_new ?U)\<lparr>v_files := vf, v_compaction_score := sc, v_compaction_level := lv\<rparr>)"
    by (rule finalize_ok [of "(version_new ?U)\<lparr>v_files := vf\<rparr>"]) (simp_all add: s(6))
  let ?v = "(version_new ?U)\<lparr>v_files := vf, v_compaction_score := sc, v_compaction_level := lv\<rparr>"
  have mfile: "file_of fs (manifest_file_name db num) (dst lw)" "fst (log_image ie crc BLOCK_SIZE 0 (map (ve_encode ie) ?es)) = fs_buffers fs (dst lw)"
    using holds by (simp_all add: manifest_holds_def)
  have path: "join_any db (manifest_name num) = manifest_file_name db num" by (simp add: join_any_def manifest_name_def manifest_file_name_def)
  have loop: "manifest_loop ie crc fs (log_reader_new (dst lw, 0) True) builder_new (replicate NUM_LEVELS []) ?mn = Some (ptrs', Inr (b, fold take_nums ?es ?mn))"
    by (rule manifest_loop_ok [OF ie ok _ _ s(1)]) (simp_all add: mfile(2) del: map_append)
  obtain vs1 where vs1: "apply_nums (fold take_nums ?es ?mn) (?vs\<lparr>vs_compaction_ptrs := ptrs'\<rparr>) = (vs1, Inr ())"
      "vs_log_num vs1 = n" "vs_last_seq vs1 = q" "vs_prev_log_num vs1 = pn" "vs_cmp vs1 = ?c" "vs_opt vs1 = opt" "vs_descriptor_log vs1 = None"
    unfolding fold_take_nums [OF nums] by (rule apply_nums_ok [of n pn m q "?vs\<lparr>vs_compaction_ptrs := ptrs'\<rparr>"]) (simp add: new)
  let ?vs2 = "(add_version vs1 ?v)\<lparr>vs_manifest_num := vs_next_file_num vs1 - 1\<rparr>"
  obtain fs' lw' num' r where reuse: "vs_reuse_manifest fs ?vs2 (manifest_file_name db num) (manifest_name num) =
      Some (fs', ?vs2\<lparr>vs_descriptor_log := lw', vs_manifest_num := num'\<rparr>, r)"
    by (rule reuse_manifest_ok [of ?vs2]) (simp add: add_version_def vs1(7))
  have cur: "butlast (manifest_name num @ newline) = manifest_name num" by (simp add: newline_def)
  have "vs_recover ie crc fs ?vs = Some (fs', ?vs2\<lparr>vs_descriptor_log := lw', vs_manifest_num := num'\<rparr>, Inr (\<not> r))"
    unfolding vs_recover_def new Option.bind.bind_lunit name sum.case Let_def cur path open_sequential_ok [OF mfile(1)] fst_conv loop prod.case
      vs1(1,5,6) s(3) fin using reuse by (simp add: add_version_def)
  moreover have "version_after ?es (version_new ?U) ?v" using s(6,7) by (simp add: version_after_def)
  ultimately show thesis using that vs1(2-4) by (simp add: add_version_def)
qed


section \<open>A run of edits\<close>

text \<open>Edits logged one after the other; between two of them file numbers are taken and the last sequence number rises.\<close>

fun log_all ::
    "int_codec \<Rightarrow> (bytes \<Rightarrow> u32) \<Rightarrow> mem_fs \<Rightarrow> version_set \<Rightarrow> (u64 \<times> u64 \<times> version_edit) list \<Rightarrow> (mem_fs \<times> version_set) run" where
  "log_all ie crc fs vs [] = Some (fs, vs)"
| "log_all ie crc fs vs ((nf, ls, e) # xs) =
     do { (fs, vs, r) \<leftarrow> log_and_apply ie crc fs (vs\<lparr>vs_next_file_num := nf, vs_last_seq := ls\<rparr>) e;
          ensure (is_ok r);
          log_all ie crc fs vs xs }"

definition next_log_num :: "u64 \<Rightarrow> version_edit \<Rightarrow> u64" where
  "next_log_num n e = (case ve_log_number e of None \<Rightarrow> n | Some m \<Rightarrow> m)"

definition log_num_ok :: "u64 \<Rightarrow> u64 \<Rightarrow> version_edit \<Rightarrow> bool" where
  "log_num_ok n nf e \<longleftrightarrow> (case ve_log_number e of None \<Rightarrow> True | Some m \<Rightarrow> n \<le> m \<and> m < nf)"

text \<open>The log numbers of the edits do not fall, and they have been handed out.\<close>

fun log_nums_ok :: "u64 \<Rightarrow> (u64 \<times> u64 \<times> version_edit) list \<Rightarrow> bool" where
  "log_nums_ok n [] \<longleftrightarrow> True"
| "log_nums_ok n ((nf, ls, e) # xs) \<longleftrightarrow> log_num_ok n nf e \<and> log_nums_ok (next_log_num n e) xs"

lemma complete_edit_ok:
  assumes "log_num_ok (vs_log_num vs) (vs_next_file_num vs) e"
  obtains e' pn where "complete_edit vs e = Some e'" "ve_log_number e' = Some (next_log_num (vs_log_num vs) e)"
    "ve_next_file_number e' = Some (vs_next_file_num vs)" "ve_last_seq e' = Some (vs_last_seq vs)" "ve_prev_log_number e' = Some pn"
proof -
  let ?e = "if ve_log_number e = None then set_log_num e (vs_log_num vs) else e"
  let ?e' = "if ve_prev_log_number ?e = None then set_prev_log_num ?e (vs_prev_log_num vs) else ?e"
  have "complete_edit vs e = Some (set_last_seq (set_next_file ?e' (vs_next_file_num vs)) (vs_last_seq vs))"
    using assms by (auto simp: complete_edit_def log_num_ok_def Let_def split: option.splits)
  then show thesis using that [of _ "the (ve_prev_log_number ?e')"]
    by (auto simp: set_last_seq_def set_next_file_def set_prev_log_num_def set_log_num_def next_log_num_def split: option.splits)
qed

text \<open>The state after these edits of the base version: the current version, and the manifest with a snapshot of the
  base version and the completed edits.\<close>

definition logged :: "int_codec \<Rightarrow> (bytes \<Rightarrow> u32) \<Rightarrow> comparator \<Rightarrow> version \<Rightarrow> version_edit list \<Rightarrow> mem_fs \<Rightarrow> version_set \<Rightarrow> bool" where
  "logged ie crc U base es fs vs \<longleftrightarrow> vs_ready ie U vs \<and> (\<exists>cur. vs_current vs = Some cur \<and> version_after es base cur \<and> (es = [] \<longrightarrow> cur = base)) \<and>
     (if es = [] then manifest_state ie crc fs vs []
      else read_current_file fs (vs_dbname vs) = Inr (manifest_name (vs_manifest_num vs) @ newline) \<and>
        (\<exists>snap cs c m pn. manifest_state ie crc fs vs (snap # cs @ [c]) \<and> snapshot_of U {p. length p < 2 ^ 63} base snap \<and>
          list_all2 same_files (cs @ [c]) es \<and> (\<forall>c' \<in> set (cs @ [c]). ve_log_number c' \<noteq> None) \<and> ve_log_number c = Some (vs_log_num vs) \<and>
          ve_last_seq c = Some (vs_last_seq vs) \<and> ve_next_file_number c = Some m \<and> ve_prev_log_number c = Some pn))"

lemma log_step:
  assumes ie: "integer_encoding ie" and ord: "cmp_order (cmp (InternalKeyCmp ie U)) K" and lg: "logged ie crc U base es fs vs"
    and fit: "edits_fit (InternalKeyCmp ie U) K (es @ [e]) base" and ok: "edit_ok e" and num: "log_num_ok (vs_log_num vs) nf e"
  obtains fs' vs' where "log_and_apply ie crc fs (vs\<lparr>vs_next_file_num := nf, vs_last_seq := ls\<rparr>) e = Some (fs', vs', Inr ())"
    "logged ie crc U base (es @ [e]) fs' vs'" "vs_log_num vs' = next_log_num (vs_log_num vs) e" "vs_dbname vs' = vs_dbname vs"
proof -
  let ?vs = "vs\<lparr>vs_next_file_num := nf, vs_last_seq := ls\<rparr>"
  obtain cur where cur: "vs_current ?vs = Some cur" "version_after es base cur" "es = [] \<longrightarrow> cur = base" and ready: "vs_ready ie U ?vs"
    using lg by (auto simp: logged_def vs_ready_def)
  obtain snap0 recs where recs: "manifest_state ie crc fs ?vs (if es = [] then [] else snap0 # recs)"
      "es \<noteq> [] \<longrightarrow> snapshot_of U {p. length p < 2 ^ 63} base snap0 \<and> list_all2 same_files recs es \<and> (\<forall>c \<in> set recs. ve_log_number c \<noteq> None)"
    using lg by (cases "es = []") (auto simp: logged_def manifest_state_def split: option.splits)
  obtain e' pn where e': "complete_edit ?vs e = Some e'" "ve_log_number e' = Some (next_log_num (vs_log_num vs) e)"
      "ve_next_file_number e' = Some nf" "ve_last_seq e' = Some ls" "ve_prev_log_number e' = Some pn"
    by (rule complete_edit_ok [of ?vs e]) (use num in simp_all)
  obtain fs' vs' cur' snap where r: "log_and_apply ie crc fs ?vs e = Some (fs', vs', Inr ())"
    "vs_ready ie U vs'" "vs_current vs' = Some cur'" "version_after [e] cur cur'" "Some (vs_log_num vs') = ve_log_number e'"
    "vs_dbname vs' = vs_dbname ?vs" "vs_manifest_num vs' = vs_manifest_num ?vs" "vs_prev_log_num vs' = vs_prev_log_num ?vs"
    "vs_last_seq vs' = vs_last_seq ?vs" "vs_next_file_num vs' = vs_next_file_num ?vs"
    "manifest_state ie crc fs' vs' (if (if es = [] then [] else snap0 # recs) = [] then [snap, e'] else (if es = [] then [] else snap0 # recs) @ [e'])"
    "vs_descriptor_log vs' \<noteq> None" "snapshot_of U {p. length p < 2 ^ 63} cur snap"
    "read_current_file fs' (vs_dbname ?vs) = Inr (manifest_name (vs_manifest_num ?vs) @ newline)"
    by (rule log_and_apply_ok [OF ie ord ready cur(1) next_edit_fits [OF fit cur(2)] ok e'(1) recs(1)])
  let ?cs = "if es = [] then [] else recs"
  have "version_after (es @ [e]) base cur'"
    using r(4) cur(2) by (auto simp: version_after_def edited_def)
  moreover have "manifest_state ie crc fs' vs' ((if es = [] then snap else snap0) # ?cs @ [e'])" using r(11) by (cases "es = []") simp_all
  moreover have "snapshot_of U {p. length p < 2 ^ 63} base (if es = [] then snap else snap0)" using r(13) recs(2) cur(3) by auto
  moreover have "list_all2 same_files (?cs @ [e']) (es @ [e])" using recs(2) complete_edit_same [OF e'(1)] by (auto intro!: list_all2_appendI)
  moreover have "\<forall>c \<in> set (?cs @ [e']). ve_log_number c \<noteq> None" using recs(2) e'(2) by simp
  ultimately have "logged ie crc U base (es @ [e]) fs' vs'"
    unfolding logged_def using r(2,3,5,6,7,9,14) e'(3-5) by (simp del: set_append) blast
  then show thesis using that r(1,5,6) e'(2) by simp
qed


lemma log_all_ok:
  assumes ie: "integer_encoding ie" and ord: "cmp_order (cmp (InternalKeyCmp ie U)) K"
  shows "logged ie crc U base es fs vs \<Longrightarrow> \<forall>n \<le> length xs. edits_fit (InternalKeyCmp ie U) K (es @ map (\<lambda>x. snd (snd x)) (take n xs)) base \<Longrightarrow>
    \<forall>(_, _, e) \<in> set xs. edit_ok e \<Longrightarrow> log_nums_ok (vs_log_num vs) xs \<Longrightarrow>
    \<exists>fs' vs'. log_all ie crc fs vs xs = Some (fs', vs') \<and> logged ie crc U base (es @ map (\<lambda>x. snd (snd x)) xs) fs' vs' \<and> vs_dbname vs' = vs_dbname vs"
proof (induction xs arbitrary: es fs vs)
  case (Cons x xs)
  obtain nf ls e where x: "x = (nf, ls, e)" by (cases x)
  have fit1: "edits_fit (InternalKeyCmp ie U) K (es @ [e]) base" using Cons.prems(2) [rule_format, of 1] x by simp
  obtain fs1 vs1 where one: "log_and_apply ie crc fs (vs\<lparr>vs_next_file_num := nf, vs_last_seq := ls\<rparr>) e = Some (fs1, vs1, Inr ())"
    "logged ie crc U base (es @ [e]) fs1 vs1" "vs_log_num vs1 = next_log_num (vs_log_num vs) e" "vs_dbname vs1 = vs_dbname vs"
    by (rule log_step [OF ie ord Cons.prems(1) fit1, of nf ls]) (use Cons.prems(3,4) x in auto)
  have "edits_fit (InternalKeyCmp ie U) K ((es @ [e]) @ map (\<lambda>x. snd (snd x)) (take n xs)) base" if "n \<le> length xs" for n
    using Cons.prems(2) [rule_format, of "Suc n"] that x by simp
  then obtain fs' vs' where "log_all ie crc fs1 vs1 xs = Some (fs', vs')" "logged ie crc U base ((es @ [e]) @ map (\<lambda>x. snd (snd x)) xs) fs' vs'"
      "vs_dbname vs' = vs_dbname vs1"
    using Cons.IH [OF one(2)] Cons.prems(3,4) one(3) x by auto
  then show ?case using one(1,4) x by simp
qed simp

lemma encode_nonempty:
  assumes "integer_encoding ie" "ve_comparator e \<noteq> None \<or> ve_log_number e \<noteq> None"
  shows "ve_encode ie e \<noteq> []"
proof -
  have "enc_tag ie t \<noteq> []" for t
    using integer_encoding.encode_var_nonempty [OF assms(1), of "unat (edit_tag_code t)"] by (cases t) (simp_all add: enc_tag_def)
  then show ?thesis using assms(2) by (auto simp: ve_encode_def enc_number_field_def split: option.splits)
qed

lemma snapshot_edit_ok:
  assumes "snapshot_of U {p. length p < 2 ^ 63} v e" "utf8_valid (bytes_of (cmp_id U))" "length (cmp_id U) < 2 ^ 63"
    "\<forall>l < NUM_LEVELS. \<forall>f \<in> set (v_files v ! l). file_ok (l, f)"
  shows "edit_ok e"
  using assms by (fastforce simp: edit_ok_def snapshot_of_def edit_levels_ok_def bytes_of_def NUM_LEVELS_def)


section \<open>Properties\<close>

text \<open>C1: The manifest keeps the versions. A version set that has no manifest yet logs a sequence of edits; every call of
  \<open>log_and_apply\<close> succeeds, and a new version set that recovers from the files then has the files of the current
  version on every level, with their allowed seeks as for new files, and the same log number and last sequence number.
  The edits must fit the versions they are applied to: their new files have fresh numbers and the files of a level below
  the first stay disjoint; log numbers do not fall.\<close>

theorem manifest_recovery:
  assumes ie: "integer_encoding ie" and U: "cmp_order (cmp (opt_cmp opt)) UNIV" and name: "utf8_valid (bytes_of (cmp_id (opt_cmp opt)))"
      "length (cmp_id (opt_cmp opt)) < 2 ^ 63"
    and vs: "fs_inv fs" "vs_ready ie (opt_cmp opt) vs" "vs_descriptor_log vs = None" "vs_current vs = Some base"
    and files: "\<forall>l < NUM_LEVELS. \<forall>f \<in> set (v_files base ! l). file_ok (l, f)"
    and fit: "\<forall>n \<le> length xs. edits_fit (InternalKeyCmp ie (opt_cmp opt)) internal_keys (map (\<lambda>x. snd (snd x)) (take n xs)) base"
    and xs: "xs \<noteq> []" "\<forall>(_, _, e) \<in> set xs. edit_ok e" "log_nums_ok (vs_log_num vs) xs"
  shows "\<exists>fs1 vs1 v1 fs2 vs2 v2 b. log_all ie crc fs vs xs = Some (fs1, vs1) \<and> vs_current vs1 = Some v1 \<and>
    vs_recover ie crc fs1 (version_set_new ie (vs_dbname vs) opt) = Some (fs2, vs2, Inr b) \<and> vs_current vs2 = Some v2 \<and>
    (\<forall>l < NUM_LEVELS. set (v_files v1 ! l) = fold (\<lambda>(_, _, e). edit_level e l) xs (set (v_files base ! l)) \<and>
      set (v_files v2 ! l) = (\<lambda>f. f\<lparr>allowed_seeks := seeks_for (fsize f)\<rparr>) ` set (v_files v1 ! l)) \<and>
    vs_log_num vs2 = vs_log_num vs1 \<and> vs_last_seq vs2 = vs_last_seq vs1"
proof -
  let ?U = "opt_cmp opt" let ?c = "InternalKeyCmp ie ?U" and ?es = "map (\<lambda>x. snd (snd x)) xs"
  note ord = internal_key_order [OF U, of ie]
  have base: "version_after [] base base" using fit [rule_format, of 0] by (simp add: version_after_def edits_fit_def edited_def)
  then have "logged ie crc ?U base [] fs vs" using vs by (simp add: logged_def manifest_state_def)
  from log_all_ok [OF ie ord this _ xs(2,3)] fit obtain fs1 vs1 where
    run: "log_all ie crc fs vs xs = Some (fs1, vs1)" "logged ie crc ?U base ?es fs1 vs1" "vs_dbname vs1 = vs_dbname vs" by auto
  obtain v1 where v1: "vs_current vs1 = Some v1" "version_after ?es base v1" using run(2) by (auto simp: logged_def)
  obtain snap cs c m pn where st: "read_current_file fs1 (vs_dbname vs1) = Inr (manifest_name (vs_manifest_num vs1) @ newline)"
      "manifest_state ie crc fs1 vs1 (snap # cs @ [c])" "snapshot_of ?U {p. length p < 2 ^ 63} base snap"
      "list_all2 same_files (cs @ [c]) ?es" "\<forall>c' \<in> set (cs @ [c]). ve_log_number c' \<noteq> None" and
      nums: "ve_log_number c = Some (vs_log_num vs1)" "ve_next_file_number c = Some m" "ve_last_seq c = Some (vs_last_seq vs1)" "ve_prev_log_number c = Some pn"
    using run(2) xs(1) unfolding logged_def by auto
  obtain lw where lw: "manifest_holds ie crc fs1 (manifest_file_name (vs_dbname vs1) (vs_manifest_num vs1)) lw ((snap # cs) @ [c])"
    using st(2) by (auto simp: manifest_state_def split: option.splits)
  have "\<forall>c' \<in> set (cs @ [c]). edit_ok c'" by (rule same_files_ok [OF st(4)]) (use xs(2) in auto)
  then have ok: "\<forall>e \<in> set ((snap # cs) @ [c]). edit_ok e \<and> ve_encode ie e \<noteq> []"
    using snapshot_edit_ok [OF st(3) name files] st(3,5) encode_nonempty [OF ie] by (auto simp: snapshot_of_def)
  have fits: "edits_fit ?c internal_keys ((snap # cs) @ [c]) (version_new ?U)"
    using snapshot_fits [OF st(3), of ?c internal_keys "cs @ [c]"] edits_fit_cong(1) [OF st(4)] fit [rule_format, of "length xs"] by simp
  obtain fs2 vs2 v2 b where r: "vs_recover ie crc fs1 (version_set_new ie (vs_dbname vs1) opt) = Some (fs2, vs2, Inr b)" "vs_current vs2 = Some v2"
      "version_after ((snap # cs) @ [c]) (version_new ?U) v2" "vs_log_num vs2 = vs_log_num vs1" "vs_last_seq vs2 = vs_last_seq vs1"
    by (rule recover_ok [OF ie ord lw st(1) ok fits nums])
  have "set (v_files v2 ! l) = with_seeks ` set (v_files v1 ! l)" if "l < NUM_LEVELS" for l
    using r(3) v1(2) that snapshot_edited [OF st(3) that, of "cs @ [c]" ?U] edits_fit_cong(2) [OF st(4)] by (simp add: version_after_def)
  moreover have "set (v_files v1 ! l) = fold (\<lambda>(_, _, e). edit_level e l) xs (set (v_files base ! l))" if "l < NUM_LEVELS" for l
    using v1(2) that by (simp add: version_after_def edited_def fold_map comp_def case_prod_beta')
  ultimately show ?thesis using run(1,3) v1(1) r(1,2,4,5) by (simp add: with_seeks_def [abs_def])
qed

theorem manifest_recovery_witness:
  "\<exists>fs1 vs1 v1 fs2 vs2 v2 b.
    log_all wire_codec (\<lambda>_. 7) mem_fs_new (version_set_new wire_codec ''db'' (options_default wire_codec literal_snap))
      [(3, 5, ve_add_file version_edit_new 1 (sample_file 2 6 9))] = Some (fs1, vs1) \<and> vs_current vs1 = Some v1 \<and>
    vs_recover wire_codec (\<lambda>_. 7) fs1 (version_set_new wire_codec ''db'' (options_default wire_codec literal_snap)) = Some (fs2, vs2, Inr b) \<and>
    vs_current vs2 = Some v2 \<and> set (v_files v2 ! 1) = {(sample_file 2 6 9)\<lparr>allowed_seeks := 100\<rparr>} \<and> vs_last_seq vs2 = vs_last_seq vs1"
proof -
  let ?opt = "options_default wire_codec literal_snap" let ?vs = "version_set_new wire_codec ''db'' ?opt"
  let ?e = "ve_add_file version_edit_new 1 (sample_file 2 6 9)" and ?f = "(sample_file 2 6 9)\<lparr>allowed_seeks := 100\<rparr>"
  let ?xs = "[(3 :: u64, 5 :: u64, ve_add_file version_edit_new 1 (sample_file 2 6 9))]" and ?c = "InternalKeyCmp wire_codec DefaultCmp"
  have opt: "opt_cmp ?opt = DefaultCmp" by (simp add: options_default_def)
  have vs: "vs_ready wire_codec DefaultCmp ?vs" "vs_descriptor_log ?vs = None" "vs_current ?vs = Some (version_new DefaultCmp)"
    "vs_dbname ?vs = ''db''" "vs_log_num ?vs = 0"
    by (simp_all add: version_set_new_def vs_ready_def options_default_def)
  have new: "new_at ?e l = (if l = 1 then [?f] else [])" "ve_deleted ?e = []" "deleted_at ?e l = {}" for l
    by (simp_all add: new_at_def ve_add_file_def version_edit_new_def seeks_for_def sample_file_def deleted_at_def)
  have "cmp DefaultCmp [6] [9] = Some Less" by code_simp
  then have bounds: "bounds_in ?c internal_keys ?f"
    by (simp add: bounds_in_def in_internal_keys sample_file_def cmp_le_def cmp_internal_key_eq key_seq_cmp_def ikey_user_def)
  have lv: "edit_levels_ok ?e" by (simp add: edit_levels_ok_def ve_add_file_def version_edit_new_def NUM_LEVELS_def)
  have ed: "edited [?e] (version_new DefaultCmp) l = (if l = 1 then {?f} else {})" "edited [] (version_new DefaultCmp) l = {}" if "l < NUM_LEVELS" for l
    using that by (simp_all add: edited_def edit_level_def new del: One_nat_def)
  have fit: "edits_fit ?c internal_keys [] (version_new DefaultCmp)" "edits_fit ?c internal_keys [?e] (version_new DefaultCmp)"
    by (auto simp: edits_fit_def ed lv new bounds simp del: One_nat_def split: if_splits)
  have fits: "\<forall>n \<le> length ?xs. edits_fit (InternalKeyCmp wire_codec (opt_cmp ?opt)) internal_keys (map (\<lambda>x. snd (snd x)) (take n ?xs)) (version_new DefaultCmp)"
    using fit by (auto simp: opt le_Suc_eq)
  have "ascii (cmp_id DefaultCmp)" by (simp add: DefaultCmp_def ascii_def)
  from ascii_utf8 [OF this] have nm: "utf8_valid (bytes_of (cmp_id (opt_cmp ?opt)))" "length (cmp_id (opt_cmp ?opt)) < 2 ^ 63"
    by (simp_all add: opt) (simp add: DefaultCmp_def)
  have xs: "?xs \<noteq> []" "\<forall>(_, _, e) \<in> set ?xs. edit_ok e" "log_nums_ok (vs_log_num ?vs) ?xs"
    by (simp_all add: edit_ok_def ve_add_file_def version_edit_new_def file_ok_def sample_file_def log_num_ok_def)
  from manifest_recovery [OF wire.integer_encoding_axioms, of ?opt mem_fs_new ?vs "version_new DefaultCmp" ?xs "\<lambda>_. 7", unfolded vs(4),
      OF _ nm fs_inv_new _ vs(2,3) _ fits xs] default_cmp.cmp_order_axioms vs(1) obtain fs1 vs1 v1 fs2 vs2 v2 b where
    r: "log_all wire_codec (\<lambda>_. 7) mem_fs_new ?vs ?xs = Some (fs1, vs1)" "vs_current vs1 = Some v1"
      "vs_recover wire_codec (\<lambda>_. 7) fs1 ?vs = Some (fs2, vs2, Inr b)" "vs_current vs2 = Some v2" "vs_last_seq vs2 = vs_last_seq vs1"
      "\<forall>l < NUM_LEVELS. set (v_files v1 ! l) = fold (\<lambda>(_, _, e). edit_level e l) ?xs (set (v_files (version_new DefaultCmp) ! l)) \<and>
        set (v_files v2 ! l) = (\<lambda>f. f\<lparr>allowed_seeks := seeks_for (fsize f)\<rparr>) ` set (v_files v1 ! l)"
    unfolding opt by auto
  have "set (v_files v2 ! 1) = {?f}"
    using r(6) [rule_format, of 1] ed(1) [of 1] by (simp add: edited_def NUM_LEVELS_def seeks_for_def sample_file_def del: One_nat_def)
  then show ?thesis using r(1-5) by blast
qed

end
