(* ===== verification/Spec2Isabelle.thy ===== *)
theory Spec2Isabelle
  imports Prelude Errors Integer_Encoding Comparator Key_Types Key_Cmp Byte_Io Log_File Ldb_Iterator
    Skip_Map Skip_Map_Iter Mem_Table Mem_Table_Iter Write_Batch Filter_Policy Filter_Block File_Names Options
    Block_Builder Block Block_Iter Version_Edit Snapshot Version Version_Search Version_Lookup
    Lru_Cache Table_Format Table_Builder Table_Reader Mem_Env Table_Blocks Table_Iter Table_File
    Merging_Iter Db_Iter Version_Builder Compaction Table_Cache Version_Set Manifest
begin

text \<open>
  A verification library for leveldb-rs, an embedded key-value store. The sources are Rust files under
  \<open>src/src\<close>; the names of the definitions are those of the sources, with a short prefix where several
  types have a method of one name.

  \<^bold>\<open>The program.\<close> A write goes as a batch (\<open>write_batch.rs\<close>) to a log file (\<open>log.rs\<close>) and into the memtable
  (\<open>memtable.rs\<close>), a skip list (\<open>skipmap.rs\<close>) ordered by user key and descending sequence number
  (\<open>cmp.rs\<close>, \<open>key_types.rs\<close>). A full memtable is written as a table file (\<open>table_builder.rs\<close>) of data blocks
  (\<open>block_builder.rs\<close>), a filter block (\<open>filter_block.rs\<close>, \<open>filter.rs\<close>), index blocks and a footer. Table files
  are read back by \<open>table_reader.rs\<close>, \<open>table_block.rs\<close> and \<open>block.rs\<close> through an LRU cache (\<open>cache.rs\<close>). The
  tables that make up the database are listed by level in a version (\<open>version.rs\<close>); changes of versions
  are version edits (\<open>version_edit.rs\<close>) in a log of their own. Files are named in \<open>types.rs\<close> and
  \<open>table_cache.rs\<close> and live in an environment, of which the one in memory (\<open>mem_env.rs\<close>) is modelled.

  \<^bold>\<open>Conventions.\<close> A panic of the program (a failed assertion, an index out of range, an unsigned
  underflow, an \<open>unwrap\<close> of nothing), a loop that does not end and a pointer used after it was freed are
  the value \<open>None\<close> of the type \<open>run\<close>, an \<open>option\<close>; statements that an operation equals \<open>Some r\<close> include that
  it returns. \<open>Result\<close> is the sum \<open>result\<close> with the status on the left. \<open>u8\<close> to \<open>u64\<close> are words, which wrap
  around; \<open>usize\<close> is \<open>nat\<close> and subtraction goes through \<open>usub\<close>. Loops are recursive functions with a
  termination proof, or \<open>partial_function (option)\<close> where they may run forever; no definition takes fuel
  except \<open>collect\<close>, which asks an iterator for at most \<open>n\<close> entries and is used with one more than there are.

  Crates outside the repository are parameters: \<open>integer_encoding\<close> is the record \<open>int_codec\<close> with the laws
  of locale \<open>integer_encoding\<close> (interpreted on LEB128 and little-endian bytes), the CRC is a function, Snappy
  the record \<open>snap_codec\<close>, random numbers a function on a generator state. Writers, readers and random
  access files are functions with the contracts of the locales \<open>byte_sink\<close>, \<open>byte_source\<close> and \<open>random_file\<close>,
  interpreted on vectors, slices and the files of \<open>mem_env.rs\<close>.

  \<^bold>\<open>Theories.\<close>
  \<^item> Prelude, Errors (\<open>error.rs\<close>), Integer\_Encoding, Byte\_Io (\<open>std::io\<close>, \<open>env.rs\<close>): the types above and
    the lemmas the components share.
  \<^item> Comparator, Key\_Types, Key\_Cmp (\<open>cmp.rs\<close>, \<open>key_types.rs\<close>): comparators as records, the locale
    \<open>cmp_order\<close> of total preorders, the encodings of keys. The orders of internal and memtable keys agree,
    encodings are read back, separators are between two keys; the exceptions are theorems.
  \<^item> Log\_File (\<open>log.rs\<close>): records written are read back, also over several writers; corruption is
    reported; one defect at the end of a block.
  \<^item> Ldb\_Iterator (trait \<open>LdbIterator\<close> of \<open>types.rs\<close>): the trait as a record and its contract as locales;
    the iterators below interpret them.
  \<^item> Skip\_Map, Skip\_Map\_Iter (\<open>skipmap.rs\<close>): the linked nodes as a store; insertion refines insertion into
    a sorted list.
  \<^item> Mem\_Table, Mem\_Table\_Iter (\<open>memtable.rs\<close>), Write\_Batch (\<open>write_batch.rs\<close>): lookups find the newest
    visible entry; batches are read back and applied entry by entry.
  \<^item> Filter\_Policy, Filter\_Block (\<open>filter.rs\<close>, \<open>filter_block.rs\<close>): no false negatives.
  \<^item> Options (\<open>options.rs\<close>, \<open>compressor.rs\<close>), Block\_Builder, Block, Block\_Iter (\<open>block_builder.rs\<close>,
    \<open>block.rs\<close>): prefix-compressed blocks are read back, and seeking in them is a search.
  \<^item> Lru\_Cache (\<open>cache.rs\<close>): the doubly linked list with raw pointers refines a list in order of use.
  \<^item> Table\_Format, Table\_Builder, Table\_Reader (\<open>blockhandle.rs\<close>, \<open>table_block.rs\<close>, \<open>table_builder.rs\<close>,
    \<open>table_reader.rs\<close>) are definitions; Table\_Blocks, Table\_Iter and Table\_File prove that handles, footers
    and blocks are read back, that a coherent block cache does not change what is read, and that a whole
    table is read back.
  \<^item> File\_Names (\<open>types.rs\<close>, \<open>table_cache.rs\<close>, \<open>version_set.rs\<close>), Version\_Edit (\<open>version_edit.rs\<close>),
    Snapshot (\<open>snapshot.rs\<close>): names and edits are read back.
  \<^item> Version, Version\_Search, Version\_Lookup (\<open>version.rs\<close>): lookups over all levels, overlapping files,
    compaction inputs.
  \<^item> Merging\_Iter (\<open>merging_iter.rs\<close>), Db\_Iter (\<open>db_iter.rs\<close>): the merge of several iterators, and the scan over
    it, which shows every user key once, with the value of a snapshot.
  \<^item> Mem\_Env (\<open>mem_env.rs\<close>): files, directories and locks in memory. Table\_Cache (\<open>table_cache.rs\<close>): a table from
    the cache is one that its file opens as.
  \<^item> Version\_Builder, Compaction, Version\_Set (\<open>version_set.rs\<close>): the builder collects edits, and the version it
    saves has the files that the edits leave one after the other. A compaction with the rule of
    \<open>do_compaction_work\<close> (\<open>db_impl.rs\<close>) drops nothing that a snapshot shows from the smallest sequence number on,
    but the number it is given need not protect the snapshots. The version set numbers files, chooses
    compactions and keeps the manifest.
  \<^item> Manifest: what \<open>log_and_apply\<close> writes is what \<open>recover\<close> reads.

  \<^bold>\<open>Not modelled.\<close> The structure \<open>DB\<close> of \<open>db_impl.rs\<close>, which calls the components above for a write, a read, the
  recovery of logs and a compaction (only the rule that drops entries is taken from it), and
  \<open>make_input_iterator\<close>. Clocks, sleeping and threads of the environments, the files of \<open>disk_env.rs\<close> (calls of the
  operating system), the formatting of log messages, \<open>asyncdb.rs\<close> (channels and tasks of tokio), tests,
  examples and benchmarks.
\<close>

end
